(* ===== verification/Prelude.thy ===== *)
theory Prelude
  imports Main "HOL-Library.Word" "HOL-Library.Multiset"
begin

text \<open>
  What every component of the development shares: the names of Go's machine integers, byte
  strings and error results, the outcome of a call that may panic or never return, and the
  generic facts on lists, maps and words that the component proofs use.

  A Go \<open>string\<close> and a Go \<open>[]byte\<close> are both sequences of bytes; a \<open>char\<close> of HOL is a byte,
  so both are \<open>string\<close> and the conversions between them are the identity. A nil and an empty
  byte slice are the same value here. The Go type \<open>int\<close> has 64 bits on the platforms the
  program runs on; a length is kept as the mathematical number it is and turned into a word
  where the code stores it in an \<open>int64\<close>.
\<close>

section \<open>Machine integers, bytes, errors\<close>

type_synonym int64 = "64 word"
type_synonym uint64 = "64 word"
type_synonym uint32 = "32 word"
type_synonym bytes = "string"

text \<open>
  A pair of results \<open>(value, error)\<close> is a value of a sum type: \<open>Inl\<close> of the error, or \<open>Inr\<close>
  of the value. A call that may also panic, or never return to its caller, is an outcome.
\<close>

datatype 'a outcome = Ret 'a | Panic string | Hang

fun bind_outcome :: "'a outcome \<Rightarrow> ('a \<Rightarrow> 'b outcome) \<Rightarrow> 'b outcome" where
  "bind_outcome (Ret x) f = f x"
| "bind_outcome (Panic m) f = Panic m"
| "bind_outcome Hang f = Hang"

fun outcome_of_option :: "'a option \<Rightarrow> 'a outcome" where
  "outcome_of_option None = Hang"
| "outcome_of_option (Some x) = Ret x"

lemma bind_outcome_Ret_iff:
  "bind_outcome m f = Ret y \<longleftrightarrow> (\<exists>x. m = Ret x \<and> f x = Ret y)"
  by (cases m) auto

lemma bind_outcome_assoc:
  "bind_outcome (bind_outcome m f) g = bind_outcome m (\<lambda>x. bind_outcome (f x) g)"
  by (cases m) auto

text \<open>
  The same with a state: what a call leaves behind also when it panics or never returns.
\<close>

fun bind_run :: "'a outcome \<times> 's \<Rightarrow> ('a \<Rightarrow> 's \<Rightarrow> 'b outcome \<times> 's) \<Rightarrow> 'b outcome \<times> 's" where
  "bind_run (Ret x, s) f = f x s"
| "bind_run (Panic m, s) f = (Panic m, s)"
| "bind_run (Hang, s) f = (Hang, s)"

lemma bind_run_Ret_iff:
  "bind_run c f = (Ret y, t) \<longleftrightarrow> (\<exists>x s. c = (Ret x, s) \<and> f x s = (Ret y, t))"
  by (cases "(c, f)" rule: bind_run.cases) auto

text \<open>What Go panics with when a nil pointer is followed.\<close>

definition nil_pointer :: string where
  "nil_pointer = ''runtime error: invalid memory address or nil pointer dereference''"

section \<open>Words\<close>

lemma sint_word_of_int_64:
  assumes "- (2 ^ 63) \<le> x" and "x < 2 ^ 63"
  shows "sint (word_of_int x :: int64) = x"
proof -
  have "signed_take_bit 63 x = x"
    by (rule signed_take_bit_int_eq_self) (use assms in simp_all)
  then show ?thesis
    by (simp add: sint_sbintrunc')
qed

lemma word_of_int_sint_64: "word_of_int (sint (w :: int64)) = w"
  by simp

lemma sint_64_bounds: "- (2 ^ 63) \<le> sint (w :: int64)" "sint (w :: int64) < 2 ^ 63"
  using sint_range_size [of w] by (simp_all add: word_size)

section \<open>Lists\<close>

lemma map_of_filter_fst:
  "map_of (filter (\<lambda>p. fst p \<noteq> k) xs) = (map_of xs)(k := None)"
  by (induction xs) (auto simp: fun_eq_iff)

lemma sum_list_filter_split:
  fixes f :: "'a \<Rightarrow> int"
  shows "sum_list (map f (filter P xs)) + sum_list (map f (filter (\<lambda>x. \<not> P x) xs)) =
    sum_list (map f xs)"
  by (induction xs) auto

lemma sum_list_remove1:
  fixes f :: "'a \<Rightarrow> int"
  shows "x \<in> set xs \<Longrightarrow> sum_list (map f (remove1 x xs)) = sum_list (map f xs) - f x"
  by (induction xs) auto

lemma distinct_map_remove1: "distinct (map f xs) \<Longrightarrow> distinct (map f (remove1 x xs))"
  by (auto simp: distinct_map intro: inj_on_subset)

lemma remove1_eq_filter_key:
  assumes "distinct (map f xs)" and "x \<in> set xs"
  shows "remove1 x xs = filter (\<lambda>y. f y \<noteq> f x) xs"
  using assms
proof (induction xs)
  case Nil
  then show ?case by simp
next
  case (Cons y ys)
  show ?case
  proof (cases "y = x")
    case True
    with Cons.prems have "\<forall>z\<in>set ys. f z \<noteq> f x"
      by (auto simp: image_iff)
    with True show ?thesis
      by (simp add: filter_id_conv)
  next
    case False
    with Cons show ?thesis by (auto simp: image_iff)
  qed
qed

lemma last_in_butlast_distinct: "xs \<noteq> [] \<Longrightarrow> distinct xs \<Longrightarrow> last xs \<notin> set (butlast xs)"
  by (induction xs rule: rev_induct) auto

lemma remove1_last_distinct: "xs \<noteq> [] \<Longrightarrow> distinct xs \<Longrightarrow> remove1 (last xs) xs = butlast xs"
  by (induction xs rule: rev_induct) (auto simp: remove1_append)

lemma map_le_Some: "m \<subseteq>\<^sub>m m' \<Longrightarrow> m k = Some v \<Longrightarrow> m' k = Some v"
  by (metis domI map_le_def)

lemma map_of_take_le: "map_of (take n xs) \<subseteq>\<^sub>m map_of xs"
proof -
  have "map_of (take n xs @ drop n xs) = map_of (drop n xs) ++ map_of (take n xs)"
    by (rule map_of_append)
  then show ?thesis by simp
qed

lemma filter_absent_key: "k \<notin> fst ` set xs \<Longrightarrow> filter (\<lambda>p. fst p \<noteq> k) xs = xs"
  by (auto simp: filter_id_conv)

end
