(* ===== verification/Lru.thy ===== *)
theory Lru
  imports Prelude
begin

text \<open>
  The least-recently-used cache of MyCache/lru/lru.go.

  The code keeps every entry twice reachable: the doubly linked list \<open>ll\<close> orders the
  elements by recency (front: most recently used) and the map \<open>cache\<close> takes a key to the
  element that holds it. Elements are pointers, and \<open>Add\<close> writes through one; so the model
  has an explicit store of entries, the list is a list of addresses and the map takes a key
  to an address. The first group of lemmas shows that the two views never disagree; the
  second that the pointer structure implements an LRU list of key-value pairs.
\<close>

section \<open>The operations of container/list the cache uses\<close>

type_synonym addr = nat

definition list_PushFront :: "addr \<Rightarrow> addr list \<Rightarrow> addr list" where
  "list_PushFront a l = a # l"

definition list_MoveToFront :: "addr \<Rightarrow> addr list \<Rightarrow> addr list" where
  "list_MoveToFront a l = (if a \<in> set l then a # remove1 a l else l)"

definition list_Remove :: "addr \<Rightarrow> addr list \<Rightarrow> addr list" where
  "list_Remove a l = remove1 a l"

definition list_Back :: "addr list \<Rightarrow> addr option" where
  "list_Back l = (if l = [] then None else Some (last l))"

section \<open>State\<close>

record 'v entry =
  e_key :: string
  e_value :: 'v

text \<open>
  \<open>OnEvicted\<close> is the user's callback, nil or a function; it acts on a state \<open>'s\<close> of the
  user's that the operations thread. \<open>elems\<close> is the store of entries and \<open>nxt\<close> the next
  address the allocator hands out.
\<close>

record ('v, 's) lru_cache =
  maxBytes :: int64
  nbytes :: int64
  ll :: "addr list"
  cmap :: "string \<Rightarrow> addr option"
  OnEvicted :: "(string \<Rightarrow> 'v \<Rightarrow> 's \<Rightarrow> 's) option"
  elems :: "addr \<Rightarrow> 'v entry option"
  nxt :: addr

abbreviation entry_at :: "('v, 's) lru_cache \<Rightarrow> addr \<Rightarrow> 'v entry" where
  "entry_at c a \<equiv> the (elems c a)"

section \<open>Operations\<close>

definition lru_New :: "int64 \<Rightarrow> (string \<Rightarrow> 'v \<Rightarrow> 's \<Rightarrow> 's) option \<Rightarrow> ('v, 's) lru_cache" where
  "lru_New maxb onEvicted =
     \<lparr>maxBytes = maxb, nbytes = 0, ll = [], cmap = Map.empty, OnEvicted = onEvicted,
      elems = Map.empty, nxt = 0\<rparr>"

definition lru_Get :: "string \<Rightarrow> ('v, 's) lru_cache \<Rightarrow> 'v option \<times> ('v, 's) lru_cache" where
  "lru_Get key c =
     (case cmap c key of
        Some ele \<Rightarrow>
          let c' = c\<lparr>ll := list_MoveToFront ele (ll c)\<rparr>;
              kv = entry_at c' ele
          in (Some (e_value kv), c')
      | None \<Rightarrow> (None, c))"

text \<open>
  \<open>vlen\<close> is the method \<open>Len\<close> of the interface \<open>Value\<close>. The arithmetic is the code's, on
  64-bit words.
\<close>

definition RemoverOldest ::
  "('v \<Rightarrow> int) \<Rightarrow> ('v, 's) lru_cache \<times> 's \<Rightarrow> ('v, 's) lru_cache \<times> 's" where
  "RemoverOldest vlen cs =
     (let (c, s) = cs in
      case list_Back (ll c) of
        None \<Rightarrow> (c, s)
      | Some ele \<Rightarrow>
          let c1 = c\<lparr>ll := list_Remove ele (ll c)\<rparr>;
              kv = entry_at c1 ele;
              c2 = c1\<lparr>cmap := (cmap c1)(e_key kv := None)\<rparr>;
              c3 = c2\<lparr>nbytes := nbytes c2 -
                     (word_of_int (int (length (e_key kv))) + word_of_int (vlen (e_value kv)))\<rparr>
          in (c3, case OnEvicted c3 of None \<Rightarrow> s | Some f \<Rightarrow> f (e_key kv) (e_value kv) s))"

text \<open>
  The loop at the end of \<open>Add\<close> runs while the limit is set and exceeded. Nothing in the code
  bounds it (a negative limit keeps it running on an empty list), so it is a partial
  function: \<open>None\<close> is a loop that never ends.
\<close>

definition over_limit :: "('v, 's) lru_cache \<Rightarrow> bool" where
  "over_limit c \<longleftrightarrow> maxBytes c \<noteq> 0 \<and> sint (maxBytes c) < sint (nbytes c)"

partial_function (option) evict_loop ::
  "('v \<Rightarrow> int) \<Rightarrow> ('v, 's) lru_cache \<times> 's \<Rightarrow> (('v, 's) lru_cache \<times> 's) option" where
  "evict_loop vlen cs =
     (if over_limit (fst cs) then evict_loop vlen (RemoverOldest vlen cs) else Some cs)"

definition lru_store ::
  "('v \<Rightarrow> int) \<Rightarrow> string \<Rightarrow> 'v \<Rightarrow> ('v, 's) lru_cache \<Rightarrow> ('v, 's) lru_cache" where
  "lru_store vlen key v c =
     (case cmap c key of
        Some ele \<Rightarrow>
          let c1 = c\<lparr>ll := list_MoveToFront ele (ll c)\<rparr>;
              kv = entry_at c1 ele;
              c2 = c1\<lparr>nbytes := nbytes c1 + (word_of_int (vlen v) - word_of_int (vlen (e_value kv)))\<rparr>
          in c2\<lparr>elems := (elems c2)(ele \<mapsto> kv\<lparr>e_value := v\<rparr>)\<rparr>
      | None \<Rightarrow>
          let ele = nxt c;
              c1 = c\<lparr>elems := (elems c)(ele \<mapsto> \<lparr>e_key = key, e_value = v\<rparr>), nxt := Suc ele,
                     ll := list_PushFront ele (ll c)\<rparr>;
              c2 = c1\<lparr>cmap := (cmap c1)(key \<mapsto> ele)\<rparr>
          in c2\<lparr>nbytes := nbytes c2 + (word_of_int (int (length key)) + word_of_int (vlen v))\<rparr>)"

definition lru_Add ::
  "('v \<Rightarrow> int) \<Rightarrow> string \<Rightarrow> 'v \<Rightarrow> ('v, 's) lru_cache \<times> 's \<Rightarrow> (('v, 's) lru_cache \<times> 's) option" where
  "lru_Add vlen key v cs = evict_loop vlen (lru_store vlen key v (fst cs), snd cs)"

definition lru_Len :: "('v, 's) lru_cache \<Rightarrow> nat" where
  "lru_Len c = length (ll c)"


section \<open>Invariant and abstraction\<close>

text \<open>
  The abstraction: the key-value pairs in the order of the list, most recent first. The
  invariant: the list has no element twice, the map takes a key to the element of the list
  with that key and to nothing else, and the byte counter is the size of the entries, which
  fits in the counter.
\<close>

definition item_size :: "('v \<Rightarrow> int) \<Rightarrow> string \<times> 'v \<Rightarrow> int" where
  "item_size vlen p = int (length (fst p)) + vlen (snd p)"

definition total_size :: "('v \<Rightarrow> int) \<Rightarrow> (string \<times> 'v) list \<Rightarrow> int" where
  "total_size vlen xs = sum_list (map (item_size vlen) xs)"

definition item_at :: "('v, 's) lru_cache \<Rightarrow> addr \<Rightarrow> string \<times> 'v" where
  "item_at c a = (e_key (entry_at c a), e_value (entry_at c a))"

definition lru_items :: "('v, 's) lru_cache \<Rightarrow> (string \<times> 'v) list" where
  "lru_items c = map (item_at c) (ll c)"

definition lru_linked :: "('v, 's) lru_cache \<Rightarrow> bool" where
  "lru_linked c \<longleftrightarrow> distinct (ll c) \<and> (\<forall>a \<in> set (ll c). a < nxt c \<and> elems c a \<noteq> None) \<and>
     (\<forall>k a. cmap c k = Some a \<longleftrightarrow> a \<in> set (ll c) \<and> fst (item_at c a) = k)"

definition lru_wf :: "('v \<Rightarrow> int) \<Rightarrow> ('v, 's) lru_cache \<Rightarrow> bool" where
  "lru_wf vlen c \<longleftrightarrow> lru_linked c \<and> nbytes c = word_of_int (total_size vlen (lru_items c)) \<and>
     total_size vlen (lru_items c) < 2 ^ 63"

text \<open>The abstract cache: a recency list, and the longest prefix of it that fits a limit.\<close>

definition recency_get :: "string \<Rightarrow> (string \<times> 'v) list \<Rightarrow> 'v option \<times> (string \<times> 'v) list" where
  "recency_get k xs =
     (case map_of xs k of
        None \<Rightarrow> (None, xs)
      | Some v \<Rightarrow> (Some v, (k, v) # filter (\<lambda>p. fst p \<noteq> k) xs))"

fun fitting :: "('v \<Rightarrow> int) \<Rightarrow> int \<Rightarrow> (string \<times> 'v) list \<Rightarrow> (string \<times> 'v) list" where
  "fitting vlen m [] = []"
| "fitting vlen m (x # xs) =
     (if item_size vlen x \<le> m then x # fitting vlen (m - item_size vlen x) xs else [])"

definition recency_put :: "string \<Rightarrow> 'v \<Rightarrow> (string \<times> 'v) list \<Rightarrow> (string \<times> 'v) list" where
  "recency_put k v xs = (k, v) # filter (\<lambda>p. fst p \<noteq> k) xs"

definition recency_add ::
  "('v \<Rightarrow> int) \<Rightarrow> int \<Rightarrow> string \<Rightarrow> 'v \<Rightarrow> (string \<times> 'v) list \<Rightarrow> (string \<times> 'v) list" where
  "recency_add vlen m k v xs =
     (if m = 0 then recency_put k v xs else fitting vlen m (recency_put k v xs))"

text \<open>What the callback sees when a suffix of the recency list is evicted: oldest first.\<close>

definition run_evicted ::
  "(string \<Rightarrow> 'v \<Rightarrow> 's \<Rightarrow> 's) option \<Rightarrow> (string \<times> 'v) list \<Rightarrow> 's \<Rightarrow> 's" where
  "run_evicted ev xs s =
     (case ev of None \<Rightarrow> s | Some f \<Rightarrow> fold (\<lambda>(k, v). f k v) (rev xs) s)"

subsection \<open>Facts about the abstraction\<close>

lemma lru_linkedD:
  assumes "lru_linked c"
  shows "distinct (ll c)"
    and "a \<in> set (ll c) \<Longrightarrow> a < nxt c"
    and "a \<in> set (ll c) \<Longrightarrow> elems c a \<noteq> None"
    and "cmap c k = Some a \<longleftrightarrow> a \<in> set (ll c) \<and> fst (item_at c a) = k"
  using assms unfolding lru_linked_def by blast+

lemma lru_keys_inj:
  assumes "lru_linked c"
  shows "inj_on (\<lambda>a. fst (item_at c a)) (set (ll c))"
proof (rule inj_onI)
  fix a b
  assume "a \<in> set (ll c)" "b \<in> set (ll c)" "fst (item_at c a) = fst (item_at c b)"
  then have "cmap c (fst (item_at c a)) = Some a" "cmap c (fst (item_at c a)) = Some b"
    by (simp_all add: lru_linkedD(4) [OF assms])
  then show "a = b" by simp
qed

lemma lru_keys_distinct:
  assumes "lru_linked c"
  shows "distinct (map fst (lru_items c))"
  using lru_linkedD(1) [OF assms] lru_keys_inj [OF assms]
  by (simp add: lru_items_def distinct_map comp_def)

lemma lru_cmap_None:
  assumes "lru_linked c"
  shows "cmap c k = None \<longleftrightarrow> (\<forall>a \<in> set (ll c). fst (item_at c a) \<noteq> k)"
  using lru_linkedD(4) [OF assms] by (metis not_None_eq)

lemma map_of_map_item:
  assumes "a \<in> set as" and "inj_on (\<lambda>a. fst (g a)) (set as)"
  shows "map_of (map g as) (fst (g a)) = Some (snd (g a))"
proof -
  have "map_of (map (\<lambda>a. (fst (g a), snd (g a))) as) (fst (g a)) = Some (snd (g a))"
    using assms by (induction as) (auto simp: inj_on_def)
  then show ?thesis by simp
qed

lemma lru_cmap_items:
  assumes "lru_linked c"
  shows "map_of (lru_items c) k =
    (case cmap c k of None \<Rightarrow> None | Some a \<Rightarrow> Some (snd (item_at c a)))"
proof (cases "cmap c k")
  case None
  then have "k \<notin> fst ` set (lru_items c)"
    by (auto simp: lru_items_def lru_cmap_None [OF assms])
  with None show ?thesis by (simp add: map_of_eq_None_iff)
next
  case (Some a)
  then have "a \<in> set (ll c)" and k: "fst (item_at c a) = k"
    by (simp_all add: lru_linkedD(4) [OF assms])
  from map_of_map_item [of a "ll c" "item_at c", OF this(1) lru_keys_inj [OF assms]]
  show ?thesis using Some k by (simp add: lru_items_def)
qed

lemma total_size_simps [simp]:
  "total_size vlen [] = 0"
  "total_size vlen (x # xs) = item_size vlen x + total_size vlen xs"
  "total_size vlen (xs @ ys) = total_size vlen xs + total_size vlen ys"
  by (simp_all add: total_size_def)

lemma items_remove_key:
  assumes "lru_linked c" and "cmap c k = Some a"
  shows "map (item_at c) (remove1 a (ll c)) = filter (\<lambda>p. fst p \<noteq> k) (lru_items c)"
proof -
  from assms have a: "a \<in> set (ll c)" "fst (item_at c a) = k"
    by (simp_all add: lru_linkedD(4) [OF assms(1)])
  have "distinct (map (\<lambda>a. fst (item_at c a)) (ll c))"
    using lru_keys_distinct [OF assms(1)] by (simp add: lru_items_def comp_def)
  from remove1_eq_filter_key [OF this a(1)] a(2) show ?thesis
    by (simp add: lru_items_def filter_map comp_def)
qed

lemma total_size_filter_key:
  assumes "distinct (map fst xs)" and "map_of xs k = Some v"
  shows "total_size vlen (filter (\<lambda>p. fst p \<noteq> k) xs) = total_size vlen xs - item_size vlen (k, v)"
  using assms
proof (induction xs)
  case Nil
  then show ?case by simp
next
  case (Cons x xs)
  then show ?case
    by (cases "fst x = k") (cases x; simp add: filter_absent_key)+
qed

lemma fitting_all: "total_size vlen xs \<le> m \<Longrightarrow> (\<And>v. 0 \<le> vlen v) \<Longrightarrow> fitting vlen m xs = xs"
proof (induction xs arbitrary: m)
  case Nil
  then show ?case by simp
next
  case (Cons x xs)
  have "0 \<le> total_size vlen xs"
    unfolding total_size_def item_size_def by (rule sum_list_nonneg) (use Cons.prems(2) in auto)
  with Cons show ?case by simp
qed

lemma fitting_butlast:
  assumes "m < total_size vlen xs" and "xs \<noteq> []"
  shows "fitting vlen m xs = fitting vlen m (butlast xs)"
  using assms
proof (induction xs arbitrary: m)
  case Nil
  then show ?case by simp
next
  case (Cons x xs)
  then show ?case by (cases "xs = []") auto
qed

lemma fitting_take: "fitting vlen m xs = take (length (fitting vlen m xs)) xs"
  by (induction xs arbitrary: m) auto

lemma fitting_total: "0 \<le> m \<Longrightarrow> total_size vlen (fitting vlen m xs) \<le> m"
proof (induction xs arbitrary: m)
  case Nil
  then show ?case by simp
next
  case (Cons x xs)
  from Cons.IH [of "m - item_size vlen x"] Cons.prems show ?case by auto
qed

lemma fitting_length: "length (fitting vlen m xs) \<le> length xs"
  by (induction xs arbitrary: m) auto

lemma run_evicted_snoc:
  "run_evicted ev (xs @ [(k, v)]) s =
     run_evicted ev xs (case ev of None \<Rightarrow> s | Some f \<Rightarrow> f k v s)"
  by (cases ev) (simp_all add: run_evicted_def)

lemma run_evicted_Nil [simp]: "run_evicted ev [] s = s"
  by (simp add: run_evicted_def split: option.splits)

lemma lru_New_simps [simp]:
  "maxBytes (lru_New m ev) = m" "OnEvicted (lru_New m ev) = ev" "lru_items (lru_New m ev) = []"
  by (simp_all add: lru_New_def lru_items_def)

lemma lru_Len_items: "lru_Len c = length (lru_items c)"
  by (simp add: lru_Len_def lru_items_def)

subsection \<open>The interface of a cached value\<close>

text \<open>
  The Go interface \<open>Value\<close> asks for one method, \<open>Len\<close>. The cache relies on a length never
  being negative: with it, a list longer by one entry is never smaller.
\<close>

locale sized_value =
  fixes vlen :: "'v \<Rightarrow> int"
  assumes len_nonneg: "0 \<le> vlen v"
begin

lemma item_size_nonneg [simp]: "0 \<le> item_size vlen p"
  by (simp add: item_size_def len_nonneg)

lemma total_size_nonneg [simp]: "0 \<le> total_size vlen xs"
  unfolding total_size_def by (rule sum_list_nonneg) auto

lemma wf_nbytes:
  assumes "lru_wf vlen c"
  shows "sint (nbytes c) = total_size vlen (lru_items c)"
proof -
  have "- (2 ^ 63) \<le> total_size vlen (lru_items c)"
    by (rule order_trans [OF _ total_size_nonneg]) simp
  with assms show ?thesis
    by (simp add: lru_wf_def sint_word_of_int_64)
qed

lemma total_size_filter_le: "total_size vlen (filter P xs) \<le> total_size vlen xs"
  by (induction xs) (auto intro: order_trans add_increasing)

lemma fits_all: "total_size vlen xs \<le> m \<Longrightarrow> fitting vlen m xs = xs"
  by (rule fitting_all [OF _ len_nonneg])

lemma New_wf: "lru_wf vlen (lru_New m ev)"
  by (simp add: lru_wf_def lru_linked_def lru_New_def lru_items_def)

lemma Get_refines:
  assumes "lru_wf vlen c"
  shows "lru_wf vlen (snd (lru_Get k c))"
    and "(fst (lru_Get k c), lru_items (snd (lru_Get k c))) = recency_get k (lru_items c)"
proof -
  have L: "lru_linked c" using assms by (simp add: lru_wf_def)
  have "lru_wf vlen (snd (lru_Get k c)) \<and>
    (fst (lru_Get k c), lru_items (snd (lru_Get k c))) = recency_get k (lru_items c)"
  proof (cases "cmap c k")
    case None
    then have "map_of (lru_items c) k = None" by (simp add: lru_cmap_items [OF L])
    with None assms show ?thesis by (simp add: lru_Get_def recency_get_def)
  next
    case (Some a)
    then have a: "a \<in> set (ll c)" "fst (item_at c a) = k"
      by (simp_all add: lru_linkedD(4) [OF L])
    have m: "map_of (lru_items c) k = Some (snd (item_at c a))"
      using Some by (simp add: lru_cmap_items [OF L])
    let ?c = "snd (lru_Get k c)"
    have ll: "ll ?c = a # remove1 a (ll c)"
      using Some a by (simp add: lru_Get_def list_MoveToFront_def)
    have same: "elems ?c = elems c" "cmap ?c = cmap c" "nxt ?c = nxt c" "nbytes ?c = nbytes c"
      using Some by (simp_all add: lru_Get_def)
    have at: "item_at ?c = item_at c" by (rule ext) (simp add: item_at_def same)
    have items: "lru_items ?c = (k, snd (item_at c a)) # filter (\<lambda>p. fst p \<noteq> k) (lru_items c)"
      using items_remove_key [OF L Some] a(2)
      by (simp add: lru_items_def ll at) (metis prod.collapse)
    have "set (ll ?c) = set (ll c)" and "distinct (ll ?c)"
      using a lru_linkedD(1) [OF L] by (auto simp: ll)
    then have "lru_linked ?c"
      using L by (simp add: lru_linked_def same at)
    moreover have "total_size vlen (lru_items ?c) = total_size vlen (lru_items c)"
      using total_size_filter_key [OF lru_keys_distinct [OF L] m] by (simp add: items)
    ultimately have "lru_wf vlen ?c" using assms by (simp add: lru_wf_def same)
    moreover have "fst (lru_Get k c) = Some (snd (item_at c a))"
      using Some by (simp add: lru_Get_def item_at_def)
    ultimately show ?thesis using items m by (simp add: recency_get_def)
  qed
  then show "lru_wf vlen (snd (lru_Get k c))"
    and "(fst (lru_Get k c), lru_items (snd (lru_Get k c))) = recency_get k (lru_items c)"
    by blast+
qed

lemma RemoverOldest_refines:
  assumes "lru_wf vlen c" and "ll c \<noteq> []"
  shows "lru_wf vlen (fst (RemoverOldest vlen (c, s)))"
    and "lru_items (fst (RemoverOldest vlen (c, s))) = butlast (lru_items c)"
    and "snd (RemoverOldest vlen (c, s)) =
      (case OnEvicted c of None \<Rightarrow> s
       | Some f \<Rightarrow> f (fst (last (lru_items c))) (snd (last (lru_items c))) s)"
    and "maxBytes (fst (RemoverOldest vlen (c, s))) = maxBytes c"
    and "OnEvicted (fst (RemoverOldest vlen (c, s))) = OnEvicted c"
proof -
  have L: "lru_linked c" using assms by (simp add: lru_wf_def)
  let ?a = "last (ll c)"
  let ?c = "fst (RemoverOldest vlen (c, s))"
  note D = lru_linkedD [OF L]
  have ll: "ll ?c = butlast (ll c)"
    using assms(2) D(1) by (simp add: RemoverOldest_def list_Back_def list_Remove_def Let_def
        remove1_last_distinct)
  have cm: "cmap ?c = (cmap c)(fst (item_at c ?a) := None)"
    using assms(2) by (simp add: RemoverOldest_def list_Back_def Let_def item_at_def)
  have nb: "nbytes ?c = nbytes c - word_of_int (item_size vlen (item_at c ?a))"
    using assms(2) by (simp add: RemoverOldest_def list_Back_def Let_def item_at_def item_size_def)
  have same: "elems ?c = elems c" "nxt ?c = nxt c"
    using assms(2) by (simp_all add: RemoverOldest_def list_Back_def Let_def)
  show "maxBytes ?c = maxBytes c" "OnEvicted ?c = OnEvicted c"
    using assms(2) by (simp_all add: RemoverOldest_def list_Back_def Let_def)
  have at: "item_at ?c = item_at c" by (rule ext) (simp add: item_at_def same)
  show items: "lru_items ?c = butlast (lru_items c)"
    by (simp add: lru_items_def ll at map_butlast)
  have last: "last (lru_items c) = item_at c ?a"
    using assms(2) by (simp add: lru_items_def last_map)
  show "snd (RemoverOldest vlen (c, s)) =
      (case OnEvicted c of None \<Rightarrow> s
       | Some f \<Rightarrow> f (fst (last (lru_items c))) (snd (last (lru_items c))) s)"
    using assms(2)
    by (simp add: last RemoverOldest_def list_Back_def Let_def item_at_def split: option.split)
  have split: "lru_items c = butlast (lru_items c) @ [item_at c ?a]"
    using assms(2) last by (metis append_butlast_last_id lru_items_def map_is_Nil_conv)
  have total: "total_size vlen (lru_items c) =
      total_size vlen (butlast (lru_items c)) + item_size vlen (item_at c ?a)"
    by (subst split) simp
  have "set (ll c) = insert ?a (set (butlast (ll c)))"
    using assms(2) by (metis append_butlast_last_id list.simps(15) rotate1.simps(2) set_rotate1)
  moreover have "?a \<notin> set (butlast (ll c))"
    by (rule last_in_butlast_distinct [OF assms(2) D(1)])
  ultimately have "lru_linked ?c"
    using D lru_keys_inj [OF L]
    unfolding lru_linked_def ll cm same at inj_on_def
    by (auto simp: distinct_butlast dest: in_set_butlastD)
  moreover have "total_size vlen (butlast (lru_items c)) \<le> total_size vlen (lru_items c)"
    by (simp add: total)
  then have "total_size vlen (butlast (lru_items c)) < 2 ^ 63"
    using assms(1) unfolding lru_wf_def by (blast intro: order.strict_trans1)
  moreover have "nbytes ?c = word_of_int (total_size vlen (butlast (lru_items c)))"
    using assms(1) by (simp add: nb lru_wf_def total)
  ultimately show "lru_wf vlen ?c"
    unfolding lru_wf_def items by blast
qed

lemma evict_loop_refines:
  assumes "lru_wf vlen c" and "0 \<le> sint (maxBytes c)"
    and "kept = (if maxBytes c = 0 then lru_items c
                 else fitting vlen (sint (maxBytes c)) (lru_items c))"
  shows "\<exists>c'. evict_loop vlen (c, s) =
      Some (c', run_evicted (OnEvicted c) (drop (length kept) (lru_items c)) s) \<and>
    lru_wf vlen c' \<and> lru_items c' = kept \<and> maxBytes c' = maxBytes c \<and> OnEvicted c' = OnEvicted c"
  using assms
proof (induction "length (ll c)" arbitrary: c s rule: less_induct)
  case less
  note wf = less.prems(1) and max = less.prems(2) and kept = less.prems(3)
  show ?case
  proof (cases "over_limit c")
    case False
    have "kept = lru_items c"
      using False wf_nbytes [OF wf] by (auto simp: kept over_limit_def fits_all)
    then show ?thesis
      using False wf by (subst evict_loop.simps) simp
  next
    case True
    then have big: "sint (maxBytes c) < total_size vlen (lru_items c)" and "maxBytes c \<noteq> 0"
      by (simp_all add: over_limit_def wf_nbytes [OF wf])
    with max have "lru_items c \<noteq> []" by auto
    then have ne: "ll c \<noteq> []" by (simp add: lru_items_def)
    obtain c1 s1 where R: "RemoverOldest vlen (c, s) = (c1, s1)" by fastforce
    note step = RemoverOldest_refines [OF wf ne, of s, unfolded R fst_conv snd_conv]
    have "length (ll c1) = length (ll c) - 1"
      using arg_cong [OF step(2), of length] by (simp add: lru_items_def)
    with ne have "length (ll c1) < length (ll c)" by (simp add: Suc_le_lessD)
    moreover have k1: "kept = (if maxBytes c1 = 0 then lru_items c1
        else fitting vlen (sint (maxBytes c1)) (lru_items c1))"
      using big \<open>maxBytes c \<noteq> 0\<close> \<open>lru_items c \<noteq> []\<close>
      by (simp add: kept step fitting_butlast)
    ultimately obtain c' where c': "evict_loop vlen (c1, s1) =
        Some (c', run_evicted (OnEvicted c1) (drop (length kept) (lru_items c1)) s1)"
      "lru_wf vlen c'" "lru_items c' = kept" "maxBytes c' = maxBytes c1" "OnEvicted c' = OnEvicted c1"
      using less.hyps [of c1 s1] step(1,4) max by metis
    have "length kept \<le> length (butlast (lru_items c))"
      using k1 \<open>maxBytes c \<noteq> 0\<close> by (simp add: step fitting_length [of _ _ "butlast (lru_items c)", simplified])
    then have "drop (length kept) (lru_items c) =
        drop (length kept) (butlast (lru_items c)) @ [last (lru_items c)]"
      using \<open>lru_items c \<noteq> []\<close> by (metis append_butlast_last_id drop_append diff_is_0_eq drop_0)
    then have "run_evicted (OnEvicted c) (drop (length kept) (lru_items c)) s =
        run_evicted (OnEvicted c1) (drop (length kept) (lru_items c1)) s1"
      by (metis run_evicted_snoc prod.collapse step(2,3,5))
    then show ?thesis
      using True R c' step(4,5) by (subst evict_loop.simps) auto
  qed
qed

lemma store_refines:
  assumes "lru_wf vlen c"
    and "total_size vlen (lru_items c) + item_size vlen (k, v) < 2 ^ 63"
  shows "lru_wf vlen (lru_store vlen k v c)"
    and "lru_items (lru_store vlen k v c) = recency_put k v (lru_items c)"
    and "maxBytes (lru_store vlen k v c) = maxBytes c"
    and "OnEvicted (lru_store vlen k v c) = OnEvicted c"
proof -
  have L: "lru_linked c" using assms by (simp add: lru_wf_def)
  note D = lru_linkedD [OF L]
  let ?c = "lru_store vlen k v c"
  show "maxBytes ?c = maxBytes c" "OnEvicted ?c = OnEvicted c"
    by (simp_all add: lru_store_def Let_def split: option.split)
  have "lru_linked ?c \<and> lru_items ?c = recency_put k v (lru_items c) \<and>
    nbytes ?c = word_of_int (total_size vlen (recency_put k v (lru_items c)))"
  proof (cases "cmap c k")
    case None
    have ll: "ll ?c = nxt c # ll c" and cm: "cmap ?c = (cmap c)(k \<mapsto> nxt c)"
      and el: "elems ?c = (elems c)(nxt c \<mapsto> \<lparr>e_key = k, e_value = v\<rparr>)"
      and nx: "nxt ?c = Suc (nxt c)"
      and nb: "nbytes ?c = nbytes c + word_of_int (item_size vlen (k, v))"
      using None by (simp_all add: lru_store_def Let_def list_PushFront_def item_size_def)
    have new: "nxt c \<notin> set (ll c)" using D(2) by blast
    have at: "item_at ?c a = (if a = nxt c then (k, v) else item_at c a)" for a
      by (simp add: item_at_def el)
    have absent: "\<forall>a \<in> set (ll c). fst (item_at c a) \<noteq> k"
      using None by (simp add: lru_cmap_None [OF L])
    then have "k \<notin> fst ` set (lru_items c)" by (auto simp: lru_items_def)
    then have put: "recency_put k v (lru_items c) = (k, v) # lru_items c"
      by (simp add: recency_put_def filter_absent_key)
    have "lru_items ?c = (k, v) # lru_items c"
      using new by (auto simp: lru_items_def ll at)
    then have items: "lru_items ?c = recency_put k v (lru_items c)"
      by (simp add: put)
    have "lru_linked ?c"
      using D absent new unfolding lru_linked_def ll cm nx at el
      by (auto simp: less_Suc_eq)
    then show ?thesis
      using items assms(1) by (simp add: put nb lru_wf_def)
  next
    case (Some a)
    then have a: "a \<in> set (ll c)" "fst (item_at c a) = k" by (simp_all add: D(4))
    have ll: "ll ?c = a # remove1 a (ll c)" and cm: "cmap ?c = cmap c" and nx: "nxt ?c = nxt c"
      and el: "elems ?c = (elems c)(a \<mapsto> (entry_at c a)\<lparr>e_value := v\<rparr>)"
      and nb: "nbytes ?c = nbytes c + word_of_int (vlen v - vlen (snd (item_at c a)))"
      using Some a by (simp_all add: lru_store_def Let_def list_MoveToFront_def item_at_def)
    have at: "item_at ?c b = (if b = a then (k, v) else item_at c b)" for b
      using a(2) by (auto simp: item_at_def el)
    have sets: "set (ll ?c) = set (ll c)" "distinct (ll ?c)"
      using a(1) D(1) by (auto simp: ll)
    have "map (item_at ?c) (remove1 a (ll c)) = map (item_at c) (remove1 a (ll c))"
      using D(1) by (simp add: at)
    then have items: "lru_items ?c = recency_put k v (lru_items c)"
      using items_remove_key [OF L Some] by (simp add: lru_items_def ll at recency_put_def)
    have "fst (item_at ?c b) = fst (item_at c b)" for b using a(2) by (simp add: at)
    then have "lru_linked ?c"
      using D sets unfolding lru_linked_def cm nx by (auto simp: el)
    have "map_of (lru_items c) k = Some (snd (item_at c a))"
      using Some by (simp add: lru_cmap_items [OF L])
    then have "total_size vlen (recency_put k v (lru_items c)) =
        total_size vlen (lru_items c) + (vlen v - vlen (snd (item_at c a)))"
      using total_size_filter_key [OF lru_keys_distinct [OF L], of k "snd (item_at c a)" vlen]
      by (simp add: recency_put_def item_size_def)
    moreover have "nbytes ?c =
        word_of_int (total_size vlen (lru_items c) + (vlen v - vlen (snd (item_at c a))))"
      using assms(1) by (simp add: nb lru_wf_def)
    ultimately show ?thesis using items \<open>lru_linked ?c\<close> by simp
  qed
  then show "lru_wf vlen ?c" and "lru_items ?c = recency_put k v (lru_items c)"
    using assms(2) total_size_filter_le [of "\<lambda>p. fst p \<noteq> k" "lru_items c"]
    by (auto simp: lru_wf_def recency_put_def)
qed

lemma Add_refines:
  assumes "lru_wf vlen c" and "0 \<le> sint (maxBytes c)"
    and "total_size vlen (lru_items c) + item_size vlen (k, v) < 2 ^ 63"
  defines "items' \<equiv> recency_add vlen (sint (maxBytes c)) k v (lru_items c)"
  shows "\<exists>c'. lru_Add vlen k v (c, s) =
      Some (c', run_evicted (OnEvicted c) (drop (length items') (recency_put k v (lru_items c))) s) \<and>
    lru_wf vlen c' \<and> lru_items c' = items' \<and> maxBytes c' = maxBytes c \<and> OnEvicted c' = OnEvicted c"
proof -
  note S = store_refines [OF assms(1,3)]
  have "sint (maxBytes c) = 0 \<longleftrightarrow> maxBytes c = 0"
    by (metis sint_0 word_of_int_sint_64 word_of_int_0)
  then have "items' = (if maxBytes c = 0 then recency_put k v (lru_items c)
      else fitting vlen (sint (maxBytes c)) (recency_put k v (lru_items c)))"
    by (simp add: items'_def recency_add_def)
  from evict_loop_refines [OF S(1), unfolded S, OF assms(2) this, of s] show ?thesis
    by (simp add: lru_Add_def)
qed

lemma negative_limit_loops:
  assumes "lru_wf vlen c" and "sint (maxBytes c) < 0"
  shows "evict_loop vlen (c, s) = None"
proof (rule ccontr)
  assume "evict_loop vlen (c, s) \<noteq> None"
  then obtain r where ret: "evict_loop vlen (c, s) = Some r" by blast
  have "\<not> (vlen = vlen \<and> lru_wf vlen (fst (c, s)) \<and> sint (maxBytes (fst (c, s))) < 0)"
  proof (rule evict_loop.raw_induct [where P = "\<lambda>vl cs r. \<not> (vl = vlen \<and>
        lru_wf vlen (fst cs) \<and> sint (maxBytes (fst cs)) < 0)", OF _ ret], rule notI, elim conjE)
    fix f :: "('v \<Rightarrow> int) \<Rightarrow> ('v, 'b) lru_cache \<times> 'b \<Rightarrow> (('v, 'b) lru_cache \<times> 'b) option"
      and vl :: "'v \<Rightarrow> int" and cs r
    assume IH: "\<And>vl cs r. f vl cs = Some r \<Longrightarrow> \<not> (vl = vlen \<and>
        lru_wf vlen (fst cs) \<and> sint (maxBytes (fst cs)) < 0)"
      and eq: "(if over_limit (fst cs) then f vl (RemoverOldest vl cs) else Some cs) = Some r"
      and vl: "vl = vlen" and wf: "lru_wf vlen (fst cs)" and neg: "sint (maxBytes (fst cs)) < 0"
    have "sint (maxBytes (fst cs)) < sint (nbytes (fst cs))"
      unfolding wf_nbytes [OF wf] by (rule order.strict_trans2 [OF neg total_size_nonneg])
    then have "over_limit (fst cs)" using neg by (auto simp: over_limit_def)
    with eq vl have "f vlen (RemoverOldest vlen cs) = Some r" by simp
    moreover have "lru_wf vlen (fst (RemoverOldest vlen cs)) \<and>
        sint (maxBytes (fst (RemoverOldest vlen cs))) < 0"
    proof (cases "ll (fst cs) = []")
      case True
      then show ?thesis using wf neg by (cases cs) (simp add: RemoverOldest_def list_Back_def)
    next
      case False
      then show ?thesis
        using wf neg RemoverOldest_refines(1,4) [of "fst cs" "snd cs"] by simp
    qed
    ultimately show False using IH by blast
  qed
  with assms show False by simp
qed

end

section \<open>Runs\<close>

text \<open>
  A run of the cache: any sequence of the operations its users call. The abstract run does
  the same on the recency list.
\<close>

datatype 'v lru_op = OpGet string | OpAdd string 'v

fun lru_run ::
  "('v \<Rightarrow> int) \<Rightarrow> 'v lru_op list \<Rightarrow> ('v, 's) lru_cache \<times> 's \<Rightarrow> (('v, 's) lru_cache \<times> 's) option" where
  "lru_run vlen [] cs = Some cs"
| "lru_run vlen (OpGet k # ops) cs = lru_run vlen ops (snd (lru_Get k (fst cs)), snd cs)"
| "lru_run vlen (OpAdd k v # ops) cs =
     (case lru_Add vlen k v cs of None \<Rightarrow> None | Some cs' \<Rightarrow> lru_run vlen ops cs')"

fun recency_run ::
  "('v \<Rightarrow> int) \<Rightarrow> int \<Rightarrow> 'v lru_op list \<Rightarrow> (string \<times> 'v) list \<Rightarrow> (string \<times> 'v) list" where
  "recency_run vlen m [] xs = xs"
| "recency_run vlen m (OpGet k # ops) xs = recency_run vlen m ops (snd (recency_get k xs))"
| "recency_run vlen m (OpAdd k v # ops) xs = recency_run vlen m ops (recency_add vlen m k v xs)"

definition op_fits :: "('v \<Rightarrow> int) \<Rightarrow> int \<Rightarrow> 'v lru_op \<Rightarrow> bool" where
  "op_fits vlen m op = (case op of OpGet k \<Rightarrow> True | OpAdd k v \<Rightarrow> m + item_size vlen (k, v) < 2 ^ 63)"

lemma recency_get_filter:
  assumes "distinct (map fst xs)"
  shows "total_size vlen (snd (recency_get k xs)) = total_size vlen xs"
proof (cases "map_of xs k")
  case None
  then show ?thesis by (simp add: recency_get_def)
next
  case (Some v)
  then show ?thesis
    using total_size_filter_key [OF assms Some, of vlen] by (simp add: recency_get_def)
qed

context sized_value
begin

lemma run_refines:
  assumes "lru_wf vlen c" and "0 < sint (maxBytes c)"
    and "total_size vlen (lru_items c) \<le> sint (maxBytes c)"
    and "\<forall>op \<in> set ops. op_fits vlen (sint (maxBytes c)) op"
  shows "\<exists>c' s'. lru_run vlen ops (c, s) = Some (c', s') \<and> lru_wf vlen c' \<and>
    lru_items c' = recency_run vlen (sint (maxBytes c)) ops (lru_items c) \<and>
    total_size vlen (lru_items c') \<le> sint (maxBytes c') \<and> maxBytes c' = maxBytes c"
  using assms
proof (induction ops arbitrary: c s)
  case Nil
  then show ?case by simp
next
  case (Cons op ops)
  have wf: "lru_wf vlen c" by fact
  show ?case
  proof (cases op)
    case (OpGet k)
    have "maxBytes (snd (lru_Get k c)) = maxBytes c"
      by (simp add: lru_Get_def Let_def split: option.split)
    moreover have items: "lru_items (snd (lru_Get k c)) = snd (recency_get k (lru_items c))"
      using Get_refines(2) [OF wf, of k] by (metis snd_conv)
    moreover have "total_size vlen (snd (recency_get k (lru_items c))) = total_size vlen (lru_items c)"
      using wf by (intro recency_get_filter lru_keys_distinct) (simp add: lru_wf_def)
    ultimately show ?thesis
      using Cons.IH [OF Get_refines(1) [OF wf], of k s] Cons.prems by (simp add: OpGet)
  next
    case (OpAdd k v)
    with Cons.prems have fits: "sint (maxBytes c) + item_size vlen (k, v) < 2 ^ 63"
      by (simp add: op_fits_def)
    with Cons.prems(3) have "total_size vlen (lru_items c) + item_size vlen (k, v) < 2 ^ 63"
      by linarith
    from Add_refines [OF wf _ this, of s] Cons.prems(2) obtain c1 s1 where
      A: "lru_Add vlen k v (c, s) = Some (c1, s1)" "lru_wf vlen c1" "maxBytes c1 = maxBytes c"
      "lru_items c1 = recency_add vlen (sint (maxBytes c)) k v (lru_items c)"
      by auto
    moreover have "total_size vlen (lru_items c1) \<le> sint (maxBytes c)"
      using Cons.prems(2) A(4) by (simp add: recency_add_def fitting_total)
    ultimately show ?thesis
      using Cons.IH [OF A(2), of s1] Cons.prems by (simp add: OpAdd)
  qed
qed

lemma put_head_kept:
  assumes "0 < m"
  shows "map_of (recency_add vlen m k v xs) k = Some v \<longleftrightarrow> item_size vlen (k, v) \<le> m"
    and "item_size vlen (k, v) > m \<Longrightarrow> recency_add vlen m k v xs = []"
  using assms by (auto simp: recency_add_def recency_put_def)

end

section \<open>Properties\<close>

text \<open>Strings are values whose length is their number of bytes, as in the package's own tests.\<close>

definition String_Len :: "string \<Rightarrow> int" where
  "String_Len d = int (length d)"

interpretation test_string: sized_value String_Len
  by unfold_locales (simp add: String_Len_def)

text \<open>
  \<open>Get\<close> implements the lookup of an LRU list: it returns the value last stored under the
  key, or a miss, moves the entry found to the front and changes nothing else; the map, the
  list and the byte counter still agree.
\<close>

theorem lru_Get_implements_recency:
  assumes "\<forall>v. 0 \<le> vlen v" and "lru_wf vlen c"
  shows "(fst (lru_Get k c), lru_items (snd (lru_Get k c))) = recency_get k (lru_items c) \<and>
    lru_wf vlen (snd (lru_Get k c))"
proof -
  have "sized_value vlen" using assms(1) by unfold_locales blast
  then show ?thesis using sized_value.Get_refines [of vlen c k] assms(2) by blast
qed

theorem lru_Get_implements_recency_witness:
  "\<exists>c :: (string, unit) lru_cache. lru_items c = [(''b'', ''2''), (''a'', ''1'')] \<and>
     fst (lru_Get ''a'' c) = Some ''1'' \<and>
     lru_items (snd (lru_Get ''a'' c)) = [(''a'', ''1''), (''b'', ''2'')]"
proof -
  let ?c0 = "lru_New 9 None :: (string, unit) lru_cache"
  let ?c1 = "lru_store String_Len ''a'' ''1'' ?c0"
  let ?c2 = "lru_store String_Len ''b'' ''2'' ?c1"
  have c1: "lru_wf String_Len ?c1" "lru_items ?c1 = [(''a'', ''1'')]"
    using test_string.store_refines(1,2) [OF test_string.New_wf, of 9 None "''a''" "''1''"]
    by (simp_all add: item_size_def String_Len_def recency_put_def)
  have c2: "lru_wf String_Len ?c2" "lru_items ?c2 = [(''b'', ''2''), (''a'', ''1'')]"
    using test_string.store_refines(1,2) [OF c1(1), of "''b''" "''2''"] c1(2)
    by (simp_all add: item_size_def String_Len_def recency_put_def)
  have "\<forall>v. 0 \<le> String_Len v" by (simp add: String_Len_def)
  from lru_Get_implements_recency [OF this c2(1), of "''a''"] c2(2) show ?thesis
    by (intro exI [of _ ?c2]) (simp add: recency_get_def)
qed

text \<open>
  \<open>Add\<close> implements the store of an LRU list with a byte limit. It returns; the new entry
  is in front, and of the entries behind it exactly the longest prefix that fits in the limit
  is kept (all of them when the limit is 0); the callback runs once for each evicted entry,
  the least recently used first; the map, the list and the byte counter still agree.
\<close>

theorem lru_Add_implements_recency:
  assumes "\<forall>v. 0 \<le> vlen v" and "lru_wf vlen c" and "0 \<le> sint (maxBytes c)"
    and "total_size vlen (lru_items c) + item_size vlen (k, v) < 2 ^ 63"
  shows "\<exists>c'. lru_Add vlen k v (c, s) =
      Some (c', run_evicted (OnEvicted c)
        (drop (length (recency_add vlen (sint (maxBytes c)) k v (lru_items c)))
           (recency_put k v (lru_items c))) s) \<and>
    lru_items c' = recency_add vlen (sint (maxBytes c)) k v (lru_items c) \<and>
    lru_wf vlen c' \<and> maxBytes c' = maxBytes c \<and> OnEvicted c' = OnEvicted c"
proof -
  have "sized_value vlen" using assms(1) by unfold_locales blast
  from sized_value.Add_refines [OF this assms(2-4), of s] show ?thesis by blast
qed

theorem lru_Add_implements_recency_witness:
  "\<exists>c'. lru_Add String_Len ''key1'' ''123456'' (lru_New 8 (Some (\<lambda>k v s. s @ [k])), []) =
      Some (c', [''key1'']) \<and> lru_items c' = []"
  using lru_Add_implements_recency [where k = "''key1''" and v = "''123456''" and s = "[]",
      OF _ test_string.New_wf [of 8 "Some (\<lambda>k v s. s @ [k])"]]
  by (auto simp: String_Len_def item_size_def recency_add_def recency_put_def run_evicted_def)

text \<open>
  C39: After an \<open>Add\<close> under a positive limit the entries fit in the limit, the stored counter
  is their exact size, and the key just added is found with its value exactly when the entry
  alone fits; an entry larger than the limit empties the cache.
\<close>

theorem lru_Add_within_limit:
  assumes "\<forall>v. 0 \<le> vlen v" and "lru_wf vlen c" and "0 < sint (maxBytes c)"
    and "total_size vlen (lru_items c) + item_size vlen (k, v) < 2 ^ 63"
    and "lru_Add vlen k v (c, s) = Some (c', s')"
  shows "sint (nbytes c') = total_size vlen (lru_items c') \<and>
    total_size vlen (lru_items c') \<le> sint (maxBytes c) \<and>
    (fst (lru_Get k c') = Some v \<longleftrightarrow> item_size vlen (k, v) \<le> sint (maxBytes c)) \<and>
    (sint (maxBytes c) < item_size vlen (k, v) \<longrightarrow> lru_Len c' = 0)"
proof -
  have sv: "sized_value vlen" using assms(1) by unfold_locales blast
  from sized_value.Add_refines [OF sv assms(2) _ assms(4), of s] assms(3,5)
  have wf: "lru_wf vlen c'"
    and items: "lru_items c' = recency_add vlen (sint (maxBytes c)) k v (lru_items c)"
    by auto
  have "fst (lru_Get k c') = map_of (lru_items c') k"
    using sized_value.Get_refines(2) [OF sv wf, of k]
    by (auto simp: recency_get_def split: option.splits)
  then show ?thesis
    using sized_value.put_head_kept [OF sv assms(3), of k v "lru_items c"] assms(3)
      sized_value.wf_nbytes [OF sv wf]
    by (auto simp: items recency_add_def fitting_total lru_Len_items)
qed

theorem lru_Add_within_limit_witness:
  "\<exists>c'. lru_Add String_Len ''k2'' ''k2'' (lru_New 10 None, ()) = Some (c', ()) \<and>
     sint (nbytes c') \<le> 10 \<and> fst (lru_Get ''k2'' c') = Some ''k2''"
proof -
  let ?c = "lru_New 10 None :: (string, unit) lru_cache"
  have c: "\<forall>v. 0 \<le> String_Len v" "lru_wf String_Len ?c" "0 < sint (maxBytes ?c)"
    "total_size String_Len (lru_items ?c) + item_size String_Len (''k2'', ''k2'') < 2 ^ 63"
    using test_string.New_wf
    by (simp_all add: String_Len_def item_size_def)
  from test_string.Add_refines [OF c(2) order.strict_implies_order [OF c(3)] c(4), of "()"]
  obtain c' where c': "lru_Add String_Len ''k2'' ''k2'' (?c, ()) = Some (c', ())" by auto
  from lru_Add_within_limit [OF c this] have "sint (nbytes c') \<le> 10"
    "fst (lru_Get ''k2'' c') = Some ''k2''"
    by (simp_all add: item_size_def String_Len_def)
  with c' show ?thesis by blast
qed



text \<open>
  C40: With a negative limit \<open>Add\<close> never returns: the eviction loop goes on over an empty list.
\<close>

theorem lru_Add_negative_limit_never_returns:
  assumes "\<forall>v. 0 \<le> vlen v" and "lru_wf vlen c" and "sint (maxBytes c) < 0"
    and "total_size vlen (lru_items c) + item_size vlen (k, v) < 2 ^ 63"
  shows "lru_Add vlen k v (c, s) = None"
proof -
  have sv: "sized_value vlen" using assms(1) by unfold_locales blast
  from sized_value.store_refines [OF sv assms(2,4)] assms(3) show ?thesis
    by (simp add: lru_Add_def sized_value.negative_limit_loops [OF sv])
qed

theorem lru_Add_negative_limit_never_returns_witness:
  "lru_Add String_Len ''k'' ''v'' (lru_New (- 1) None :: (string, unit) lru_cache, ()) = None"
  using lru_Add_negative_limit_never_returns [where k = "''k''" and v = "''v''",
      OF _ test_string.New_wf [of "- 1" None]]
  by (simp add: String_Len_def item_size_def)

end
