(* ===== verification/Cache_Interface.thy ===== *)
theory Cache_Interface
  imports Prelude
begin

text \<open>
  The contract between a keyed cache and its users. The users of the caches in MyCache call
  two operations, a lookup and a store; they rely on a lookup telling the truth about the
  contents and changing nothing, and on a store changing the contents at its key only, apart
  from entries it drops. The client lemmas say what follows for any property that relates
  the keys to the values a user puts in.
\<close>

locale key_cache =
  fixes contents :: "'c \<Rightarrow> string \<Rightarrow> 'v option"
    and inv :: "'c \<Rightarrow> bool"
    and room :: "string \<Rightarrow> 'v \<Rightarrow> bool"
    and get :: "string \<Rightarrow> 'c \<Rightarrow> 'v option \<times> 'c"
    and add :: "string \<Rightarrow> 'v \<Rightarrow> 'c \<Rightarrow> 'c option"
  assumes get_result: "inv c \<Longrightarrow> fst (get k c) = contents c k"
    and get_contents: "inv c \<Longrightarrow> contents (snd (get k c)) = contents c"
    and get_inv: "inv c \<Longrightarrow> inv (snd (get k c))"
    and add_returns: "inv c \<Longrightarrow> room k v \<Longrightarrow> add k v c \<noteq> None"
    and add_contents: "inv c \<Longrightarrow> room k v \<Longrightarrow> add k v c = Some c' \<Longrightarrow>
          contents c' \<subseteq>\<^sub>m (contents c)(k \<mapsto> v)"
    and add_inv: "inv c \<Longrightarrow> room k v \<Longrightarrow> add k v c = Some c' \<Longrightarrow> inv c'"
begin

text \<open>What holds of every entry holds of every hit.\<close>

lemma get_hit:
  assumes "inv c" and "get k c = (Some v, c')"
  shows "contents c k = Some v" and "inv c'" and "contents c' = contents c"
  using get_result [OF assms(1), of k] get_inv [OF assms(1), of k] get_contents [OF assms(1), of k]
  by (simp_all add: assms(2))

lemma get_miss:
  assumes "inv c" and "get k c = (None, c')"
  shows "contents c k = None" and "inv c'" and "contents c' = contents c"
  using get_result [OF assms(1), of k] get_inv [OF assms(1), of k] get_contents [OF assms(1), of k]
  by (simp_all add: assms(2))

lemma add_only_key:
  assumes "inv c" and "room k v" and "add k v c = Some c'" and "contents c' j = Some w"
  shows "j = k \<and> w = v \<or> j \<noteq> k \<and> contents c j = Some w"
proof -
  have "((contents c)(k \<mapsto> v)) j = Some w"
    using add_contents [OF assms(1-3)] assms(4) by (rule map_le_Some)
  then show ?thesis by (cases "j = k") auto
qed

lemma add_coherent:
  assumes "inv c" and "room k v" and "add k v c = Some c'"
    and "\<And>j w. contents c j = Some w \<Longrightarrow> P j w" and "P k v" and "contents c' j = Some w"
  shows "P j w"
  using add_only_key [OF assms(1-3,6)] assms(4,5) by blast

end

end
