(* ===== verification/Byte_Cache.thy ===== *)
theory Byte_Cache
  imports Lru Cache_Interface
begin

text \<open>
  MyCache/byteview.go and MyCache/cache.go: the read-only view of cached bytes, and the cache
  that a group of goroutines shares.

  A byte slice is a pointer into memory, and the view exists so that no caller can write to
  the cached bytes through it. The first section therefore has an explicit memory; the rest
  of the development passes views by value, which is what its theorem allows. The shared
  cache runs each method under its mutex from the first line to the return, so a method is
  one step and any concurrent use is some sequence of such steps.
\<close>

section \<open>Byte slices in memory\<close>

record memory =
  cells :: "nat \<Rightarrow> bytes option"
  mem_top :: nat

text \<open>A slice is the address of its backing array; a view holds one.\<close>

record byte_view_ref =
  b_ref :: nat

definition mem_ok :: "memory \<Rightarrow> bool" where
  "mem_ok m \<longleftrightarrow> (\<forall>a. cells m a \<noteq> None \<longrightarrow> a < mem_top m)"

definition mem_write :: "nat \<Rightarrow> bytes \<Rightarrow> memory \<Rightarrow> memory" where
  "mem_write a bs m = m\<lparr>cells := (cells m)(a \<mapsto> bs)\<rparr>"

text \<open>\<open>make\<close> of the length, then \<open>copy\<close> of every byte.\<close>

definition cloneBytes :: "nat \<Rightarrow> memory \<Rightarrow> nat \<times> memory" where
  "cloneBytes b m =
     (let bs = the (cells m b);
          c = mem_top m;
          m1 = m\<lparr>cells := (cells m)(c \<mapsto> replicate (length bs) (CHR 0x00)), mem_top := Suc c\<rparr>
      in (c, mem_write c bs m1))"

definition ByteSlice :: "byte_view_ref \<Rightarrow> memory \<Rightarrow> nat \<times> memory" where
  "ByteSlice v m = cloneBytes (b_ref v) m"

definition view_String :: "byte_view_ref \<Rightarrow> memory \<Rightarrow> string" where
  "view_String v m = the (cells m (b_ref v))"

section \<open>Views by value\<close>

record ByteView =
  bv_b :: bytes

definition ByteView_Len :: "ByteView \<Rightarrow> int" where
  "ByteView_Len v = int (length (bv_b v))"

interpretation bv: sized_value ByteView_Len
  by unfold_locales (simp add: ByteView_Len_def)

section \<open>The shared cache\<close>

record bcache =
  lru :: "(ByteView, unit) lru_cache option"
  cacheBytes :: int64

definition new_cache :: "int64 \<Rightarrow> bcache" where
  "new_cache n = \<lparr>lru = None, cacheBytes = n\<rparr>"

definition cache_add :: "string \<Rightarrow> ByteView \<Rightarrow> bcache \<Rightarrow> bcache option" where
  "cache_add key v c =
     (let c1 = (case lru c of None \<Rightarrow> c\<lparr>lru := Some (lru_New (cacheBytes c) None)\<rparr> | Some _ \<Rightarrow> c)
      in case lru_Add ByteView_Len key v (the (lru c1), ()) of
           None \<Rightarrow> None
         | Some (l, _) \<Rightarrow> Some (c1\<lparr>lru := Some l\<rparr>))"

definition cache_get :: "string \<Rightarrow> bcache \<Rightarrow> ByteView option \<times> bcache" where
  "cache_get key c =
     (case lru c of
        None \<Rightarrow> (None, c)
      | Some l \<Rightarrow>
          (case lru_Get key l of
             (Some v, l') \<Rightarrow> (Some v, c\<lparr>lru := Some l'\<rparr>)
           | (None, l') \<Rightarrow> (None, c\<lparr>lru := Some l'\<rparr>)))"

section \<open>Invariant and contract\<close>

definition cache_items :: "bcache \<Rightarrow> (string \<times> ByteView) list" where
  "cache_items c = (case lru c of None \<Rightarrow> [] | Some l \<Rightarrow> lru_items l)"

definition cache_find :: "bcache \<Rightarrow> string \<Rightarrow> ByteView option" where
  "cache_find c = map_of (cache_items c)"

text \<open>A limit is set; once the LRU exists it has that limit, is well formed and within it.\<close>

definition cache_inv :: "int64 \<Rightarrow> bcache \<Rightarrow> bool" where
  "cache_inv m c \<longleftrightarrow> 0 < sint m \<and> cacheBytes c = m \<and>
     (\<forall>l. lru c = Some l \<longrightarrow> lru_wf ByteView_Len l \<and> maxBytes l = m \<and>
        total_size ByteView_Len (lru_items l) \<le> sint m)"

definition cache_room :: "int64 \<Rightarrow> string \<Rightarrow> ByteView \<Rightarrow> bool" where
  "cache_room m k v \<longleftrightarrow> sint m + item_size ByteView_Len (k, v) < 2 ^ 63"

lemma new_cache_inv: "0 < sint m \<Longrightarrow> cache_inv m (new_cache m)"
  by (simp add: cache_inv_def new_cache_def)

lemma new_cache_find [simp]: "cache_find (new_cache m) = Map.empty"
  by (simp add: cache_find_def cache_items_def new_cache_def)

lemma map_of_fitting: "map_of (fitting vlen m xs) \<subseteq>\<^sub>m map_of xs"
  by (metis fitting_take map_of_take_le)

lemma recency_put_map_of:
  "map_of (recency_put k v xs) = (map_of xs)(k \<mapsto> v)"
  by (simp add: recency_put_def map_of_filter_fst)

lemma recency_get_find:
  "fst (recency_get k xs) = map_of xs k" "map_of (snd (recency_get k xs)) = map_of xs"
  by (auto simp: recency_get_def map_of_filter_fst fun_eq_iff split: option.split)

lemma cache_get_spec:
  assumes "cache_inv m c"
  shows "fst (cache_get k c) = cache_find c k"
    and "cache_find (snd (cache_get k c)) = cache_find c"
    and "cache_inv m (snd (cache_get k c))"
proof -
  have "fst (cache_get k c) = cache_find c k \<and> cache_find (snd (cache_get k c)) = cache_find c \<and>
    cache_inv m (snd (cache_get k c))"
  proof (cases "lru c")
    case None
    with assms show ?thesis by (simp add: cache_get_def cache_find_def cache_items_def)
  next
    case (Some l)
    with assms have wf: "lru_wf ByteView_Len l" by (simp add: cache_inv_def)
    have eq: "cache_get k c = (fst (lru_Get k l), c\<lparr>lru := Some (snd (lru_Get k l))\<rparr>)"
      by (simp add: cache_get_def Some split: prod.split option.split)
    note G = bv.Get_refines [OF wf, of k]
    have items: "lru_items (snd (lru_Get k l)) = snd (recency_get k (lru_items l))"
      and res: "fst (lru_Get k l) = fst (recency_get k (lru_items l))"
      using G(2) by (metis snd_conv, metis fst_conv)
    have "maxBytes (snd (lru_Get k l)) = maxBytes l"
      by (simp add: lru_Get_def Let_def split: option.split)
    moreover have "total_size ByteView_Len (snd (recency_get k (lru_items l))) =
        total_size ByteView_Len (lru_items l)"
      using wf by (intro recency_get_filter lru_keys_distinct) (simp add: lru_wf_def)
    ultimately show ?thesis
      using assms Some G(1)
      by (simp add: eq cache_inv_def cache_find_def cache_items_def items res recency_get_find)
  qed
  then show "fst (cache_get k c) = cache_find c k"
    and "cache_find (snd (cache_get k c)) = cache_find c"
    and "cache_inv m (snd (cache_get k c))"
    by blast+
qed

lemma cache_add_spec:
  assumes "cache_inv m c" and "cache_room m k v"
  shows "\<exists>c'. cache_add k v c = Some c' \<and> cache_inv m c' \<and>
    cache_items c' = recency_add ByteView_Len (sint m) k v (cache_items c)"
proof -
  define l where "l = (case lru c of None \<Rightarrow> lru_New (cacheBytes c) None | Some l \<Rightarrow> l)"
  have l: "lru_wf ByteView_Len l" "maxBytes l = m" "lru_items l = cache_items c"
    "total_size ByteView_Len (lru_items l) \<le> sint m"
    using assms(1) bv.New_wf [of m None]
    by (auto simp: l_def cache_inv_def cache_items_def split: option.split)
  have "total_size ByteView_Len (lru_items l) + item_size ByteView_Len (k, v) < 2 ^ 63"
    using assms(2) l(4) by (simp add: cache_room_def)
  from bv.Add_refines [OF l(1) _ this, of "()"] assms(1) obtain l' where
    l': "lru_Add ByteView_Len k v (l, ()) = Some (l', ())" "lru_wf ByteView_Len l'"
    "lru_items l' = recency_add ByteView_Len (sint m) k v (cache_items c)" "maxBytes l' = m"
    by (auto simp: l cache_inv_def)
  have "\<exists>c'. cache_add k v c = Some c' \<and> lru c' = Some l' \<and> cacheBytes c' = cacheBytes c"
    using l'(1) by (auto simp: cache_add_def l_def Let_def split: option.split)
  moreover have "total_size ByteView_Len (lru_items l') \<le> sint m"
    using assms(1) by (simp add: l'(3) recency_add_def fitting_total cache_inv_def)
  ultimately show ?thesis
    using assms(1) l' by (auto simp: cache_inv_def cache_items_def)
qed

lemma cache_add_find:
  assumes "cache_inv m c" and "cache_room m k v" and "cache_add k v c = Some c'"
  shows "cache_find c' \<subseteq>\<^sub>m (cache_find c)(k \<mapsto> v)"
proof -
  have "map_of (fitting ByteView_Len (sint m) (recency_put k v (cache_items c))) \<subseteq>\<^sub>m
      (cache_find c)(k \<mapsto> v)"
    unfolding cache_find_def recency_put_map_of [symmetric] by (rule map_of_fitting)
  then show ?thesis
    using cache_add_spec [OF assms(1,2)] assms(1,3)
    by (auto simp: cache_find_def recency_add_def cache_inv_def)
qed

lemma cache_add_keeps:
  assumes "cache_inv m c" and "cache_room m k v" and "item_size ByteView_Len (k, v) \<le> sint m"
    and "cache_add k v c = Some c'"
  shows "cache_find c' k = Some v"
proof -
  have "0 < sint m" using assms(1) by (simp add: cache_inv_def)
  from bv.put_head_kept(1) [OF this, of k v "cache_items c"] assms(3) show ?thesis
    using cache_add_spec [OF assms(1,2)] assms(4) by (auto simp: cache_find_def)
qed

interpretation bc: key_cache cache_find "cache_inv m" "cache_room m" cache_get cache_add for m
  using cache_get_spec cache_add_spec cache_add_find
  by unfold_locales fastforce+

section \<open>Properties\<close>

text \<open>
  The slice \<open>ByteSlice\<close> returns is a fresh copy of the view's bytes: whatever its owner
  then writes to it, the view still reads the bytes it read before, and so does every other
  slice of the program.
\<close>

theorem ByteSlice_isolates_view:
  assumes "mem_ok m" and "cells m (b_ref v) = Some bs" and "ByteSlice v m = (r, m1)"
  shows "cells m1 r = Some bs \<and> r \<noteq> b_ref v \<and> mem_ok m1 \<and>
    view_String v (mem_write r ws m1) = view_String v m \<and>
    (\<forall>a. a \<noteq> r \<longrightarrow> cells (mem_write r ws m1) a = cells m a)"
proof -
  have r: "r = mem_top m" and m1: "m1 = mem_write r bs
      (m\<lparr>cells := (cells m)(r \<mapsto> replicate (length bs) (CHR 0x00)), mem_top := Suc r\<rparr>)"
    using assms(2,3) by (auto simp: ByteSlice_def cloneBytes_def Let_def)
  have "b_ref v < r" using assms(1,2) by (simp add: mem_ok_def r)
  then show ?thesis
    using assms(1) by (auto simp: m1 mem_write_def mem_ok_def view_String_def r less_Suc_eq)
qed

theorem ByteSlice_isolates_view_witness:
  "\<exists>r m1. ByteSlice \<lparr>b_ref = 0\<rparr> \<lparr>cells = [0 \<mapsto> ''630''], mem_top = 1\<rparr> = (r, m1) \<and>
     view_String \<lparr>b_ref = 0\<rparr> (mem_write r ''xxx'' m1) = ''630''"
proof -
  let ?m = "\<lparr>cells = [0 \<mapsto> ''630''], mem_top = 1\<rparr>" and ?v = "\<lparr>b_ref = 0\<rparr>"
  obtain r m1 where r: "ByteSlice ?v ?m = (r, m1)" by fastforce
  have "mem_ok ?m" "cells ?m (b_ref ?v) = Some ''630''"
    by (simp_all add: mem_ok_def)
  from ByteSlice_isolates_view [OF this r, of "''xxx''"] r show ?thesis
    by (auto simp: view_String_def)
qed

text \<open>
  Any concurrent use of the cache is a sequence of its two methods. \<open>last_added\<close> is what the
  callers stored last under each key.
\<close>

fun cache_run :: "ByteView lru_op list \<Rightarrow> bcache \<Rightarrow> bcache option" where
  "cache_run [] c = Some c"
| "cache_run (OpGet k # ops) c = cache_run ops (snd (cache_get k c))"
| "cache_run (OpAdd k v # ops) c =
     (case cache_add k v c of None \<Rightarrow> None | Some c' \<Rightarrow> cache_run ops c')"

fun last_added :: "ByteView lru_op list \<Rightarrow> (string \<Rightarrow> ByteView option) \<Rightarrow> string \<Rightarrow> ByteView option" where
  "last_added [] m = m"
| "last_added (OpGet k # ops) m = last_added ops m"
| "last_added (OpAdd k v # ops) m = last_added ops (m(k \<mapsto> v))"

definition op_room :: "int64 \<Rightarrow> ByteView lru_op \<Rightarrow> bool" where
  "op_room m op = (case op of OpGet k \<Rightarrow> True | OpAdd k v \<Rightarrow> cache_room m k v)"

lemma cache_run_last_added:
  assumes "cache_inv m c" and "cache_find c \<subseteq>\<^sub>m f" and "\<forall>op \<in> set ops. op_room m op"
  shows "\<exists>c'. cache_run ops c = Some c' \<and> cache_inv m c' \<and> cache_find c' \<subseteq>\<^sub>m last_added ops f"
  using assms
proof (induction ops arbitrary: c f)
  case Nil
  then show ?case by simp
next
  case (Cons op ops)
  show ?case
  proof (cases op)
    case (OpGet k)
    then show ?thesis
      using Cons.IH [of "snd (cache_get k c)" f] cache_get_spec [OF Cons.prems(1), of k] Cons.prems
      by simp
  next
    case (OpAdd k v)
    with Cons.prems have room: "cache_room m k v" by (simp add: op_room_def)
    obtain c1 where c1: "cache_add k v c = Some c1" "cache_inv m c1"
      using cache_add_spec [OF Cons.prems(1) room] by blast
    have "cache_find c1 \<subseteq>\<^sub>m f(k \<mapsto> v)"
      using map_le_trans [OF bc.add_contents [OF Cons.prems(1) room c1(1)] map_le_upd [OF Cons.prems(2)]] .
    from Cons.IH [OF c1(2), of "f(k \<mapsto> v)", OF this] Cons.prems(3) c1(1) show ?thesis
      by (simp add: OpAdd del: fun_upd_apply)
  qed
qed

text \<open>
  Whatever the goroutines sharing a cache store and look up, in any order, every call
  returns and a lookup that hits gives the value stored last under that key, never an older
  one and never another key's; the contents stay within the byte limit.
\<close>

theorem cache_never_stale:
  assumes "0 < sint m" and "\<forall>op \<in> set ops. op_room m op"
  shows "\<exists>c'. cache_run ops (new_cache m) = Some c' \<and>
    (\<forall>k v. fst (cache_get k c') = Some v \<longrightarrow> last_added ops Map.empty k = Some v) \<and>
    total_size ByteView_Len (cache_items c') \<le> sint m"
proof -
  obtain c' where c': "cache_run ops (new_cache m) = Some c'" "cache_inv m c'"
    "cache_find c' \<subseteq>\<^sub>m last_added ops Map.empty"
    using cache_run_last_added [OF new_cache_inv [OF assms(1)] _ assms(2), of Map.empty] by auto
  have "total_size ByteView_Len (cache_items c') \<le> sint m"
    using c'(2) by (auto simp: cache_inv_def cache_items_def split: option.split)
  with c' bc.get_result [OF c'(2)] map_le_Some [OF c'(3)] show ?thesis by auto
qed

theorem cache_never_stale_witness:
  "\<exists>c'. cache_run [OpAdd ''Tom'' \<lparr>bv_b = ''630''\<rparr>, OpGet ''Tom'', OpAdd ''Tom'' \<lparr>bv_b = ''631''\<rparr>]
      (new_cache 2048) = Some c' \<and>
    (\<forall>v. fst (cache_get ''Tom'' c') = Some v \<longrightarrow> v = \<lparr>bv_b = ''631''\<rparr>)"
  using cache_never_stale [of 2048 "[OpAdd ''Tom'' \<lparr>bv_b = ''630''\<rparr>, OpGet ''Tom'',
      OpAdd ''Tom'' \<lparr>bv_b = ''631''\<rparr>]"]
  by (force simp: op_room_def cache_room_def item_size_def ByteView_Len_def)

end
