(* ===== verification/Machine.thy ===== *)
theory Machine
  imports Prelude
begin

text \<open>
  The contracts of the state machines of the development: an invariant that holds at the start
  and that every step keeps; steps that bring a machine closer to its end, and are possible
  until it has ended; a machine whose steps are steps of another one, or leave that as it is.
\<close>

lemmas reach_refl = rtranclp.rtrancl_refl

lemmas reach_step = rtranclp.rtrancl_into_rtrancl

locale machine =
  fixes starts :: "'s \<Rightarrow> bool"
    and step :: "'s \<Rightarrow> 's \<Rightarrow> bool"
    and inv :: "'s \<Rightarrow> bool"
  assumes inv_start: "starts s \<Longrightarrow> inv s"
    and inv_step: "step s t \<Longrightarrow> inv s \<Longrightarrow> inv t"
begin

lemma inv_steps: "step\<^sup>*\<^sup>* s t \<Longrightarrow> inv s \<Longrightarrow> inv t"
  by (induction rule: rtranclp_induct) (auto intro: inv_step)

lemma inv_reached: "step\<^sup>*\<^sup>* s t \<Longrightarrow> starts s \<Longrightarrow> inv t"
  by (blast intro: inv_steps inv_start)

end

locale ending_machine = machine +
  fixes ended :: "'a \<Rightarrow> bool" and left :: "'a \<Rightarrow> nat"
  assumes progress: "inv s \<Longrightarrow> \<not> ended s \<Longrightarrow> \<exists>t. step s t"
    and decrease: "inv s \<Longrightarrow> step s t \<Longrightarrow> left t < left s"
begin

lemma can_end: "inv s \<Longrightarrow> \<exists>t. step\<^sup>*\<^sup>* s t \<and> ended t"
proof (induction "left s" arbitrary: s rule: less_induct)
  case less
  show ?case
  proof (cases "ended s")
    case False
    then obtain t where t: "step s t" using progress less.prems by blast
    from less.hyps [OF decrease [OF less.prems t] inv_step [OF t less.prems]]
    obtain u where "step\<^sup>*\<^sup>* t u" "ended u" by blast
    with t show ?thesis by (blast intro: converse_rtranclp_into_rtranclp)
  qed blast
qed

lemma run_bound: "(step ^^ n) s t \<Longrightarrow> inv s \<Longrightarrow> inv t \<and> n + left t \<le> left s"
proof (induction n arbitrary: t)
  case (Suc n)
  from Suc.prems(1) obtain u where u: "(step ^^ n) s u" "step u t" by auto
  from Suc.IH [OF u(1) Suc.prems(2)] decrease [OF _ u(2)] inv_step [OF u(2)] show ?case by force
qed simp

end

locale simulation =
  fixes concrete :: "'c \<Rightarrow> 'c \<Rightarrow> bool"
    and abstract :: "'a \<Rightarrow> 'a \<Rightarrow> bool"
    and abs :: "'c \<Rightarrow> 'a"
  assumes abs_step: "concrete s t \<Longrightarrow> abs t = abs s \<or> abstract (abs s) (abs t)"
begin

lemma abs_steps: "concrete\<^sup>*\<^sup>* s t \<Longrightarrow> abstract\<^sup>*\<^sup>* (abs s) (abs t)"
proof (induction rule: rtranclp_induct)
  case (step t u)
  then show ?case using abs_step [OF step.hyps(2)] by (auto intro: reach_step)
qed simp

end

end
