(* ===== verification/Singleflight.thy ===== *)
theory Singleflight
  imports Machine
begin

text \<open>
  MyCache/singleflight/singleflight.go: concurrent calls of \<open>Do\<close> for one key share one run of
  the function. Any number of goroutines call \<open>Do\<close>; each call has a number. A goroutine moves
  in the blocks the mutex and the wait group delimit, one block a step, in any order:

  \<^item> \<open>Do_enter\<close> (the first critical section): join the call in flight, or open one;
  \<^item> \<open>Do_assign\<close>: the leader's function returns and its result is written to the call;
  \<^item> \<open>Do_done\<close>: the wait group drops to 0;
  \<^item> \<open>Do_delete\<close> (the second critical section): the key leaves the map, the leader returns;
  \<^item> \<open>Do_wake\<close>: a waiter finds the wait group at 0 and returns what the call holds.

  The function may also panic; then nothing after it runs. Two fields of a call, its leader
  and its key, and the log of runs are for the proofs only.
\<close>

section \<open>State\<close>

datatype 'r sf_pc =
    Idle
  | Calling string
  | Waiting string nat
  | Running string nat
  | Ran string nat
  | Finishing string nat
  | Returned string nat 'r
  | Panicked string nat

record 'r sf_call =
  wg :: nat
  val_err :: "'r option"
  leader :: nat
  call_key :: string

record 'r sf_group =
  sf_m :: "string \<Rightarrow> nat option"
  sf_heap :: "nat \<Rightarrow> 'r sf_call option"
  sf_nxt :: nat
  sf_pc :: "nat \<Rightarrow> 'r sf_pc"
  sf_runs :: "(nat \<times> nat) list"

definition sf_init :: "'r sf_group" where
  "sf_init = \<lparr>sf_m = Map.empty, sf_heap = Map.empty, sf_nxt = 0, sf_pc = (\<lambda>_. Idle), sf_runs = []\<rparr>"

section \<open>The blocks of Do\<close>

definition set_pc :: "nat \<Rightarrow> 'r sf_pc \<Rightarrow> 'r sf_group \<Rightarrow> 'r sf_group" where
  "set_pc t p g = g\<lparr>sf_pc := (sf_pc g)(t := p)\<rparr>"

definition Do_enter :: "nat \<Rightarrow> string \<Rightarrow> 'r sf_group \<Rightarrow> 'r sf_group" where
  "Do_enter t key g =
     (case sf_m g key of
        Some c \<Rightarrow> set_pc t (Waiting key c) g
      | None \<Rightarrow>
          let c = sf_nxt g;
              g1 = g\<lparr>sf_heap := (sf_heap g)(c \<mapsto>
                       \<lparr>wg = 1, val_err = None, leader = t, call_key = key\<rparr>),
                     sf_nxt := Suc c\<rparr>;
              g2 = g1\<lparr>sf_m := (sf_m g1)(key \<mapsto> c)\<rparr>
          in set_pc t (Running key c) g2)"

definition Do_assign :: "nat \<Rightarrow> string \<Rightarrow> nat \<Rightarrow> 'r \<Rightarrow> 'r sf_group \<Rightarrow> 'r sf_group" where
  "Do_assign t key c r g =
     (let x = the (sf_heap g c);
          g1 = g\<lparr>sf_heap := (sf_heap g)(c \<mapsto> x\<lparr>val_err := Some r\<rparr>), sf_runs := (t, c) # sf_runs g\<rparr>
      in set_pc t (Ran key c) g1)"

definition Do_done :: "nat \<Rightarrow> string \<Rightarrow> nat \<Rightarrow> 'r sf_group \<Rightarrow> 'r sf_group" where
  "Do_done t key c g =
     (let x = the (sf_heap g c);
          g1 = g\<lparr>sf_heap := (sf_heap g)(c \<mapsto> x\<lparr>wg := wg x - 1\<rparr>)\<rparr>
      in set_pc t (Finishing key c) g1)"

definition call_result :: "nat \<Rightarrow> 'r sf_group \<Rightarrow> 'r" where
  "call_result c g = the (val_err (the (sf_heap g c)))"

definition Do_delete :: "nat \<Rightarrow> string \<Rightarrow> nat \<Rightarrow> 'r sf_group \<Rightarrow> 'r sf_group" where
  "Do_delete t key c g =
     (let g1 = g\<lparr>sf_m := (sf_m g)(key := None)\<rparr>
      in set_pc t (Returned key c (call_result c g1)) g1)"

definition Do_wake :: "nat \<Rightarrow> string \<Rightarrow> nat \<Rightarrow> 'r sf_group \<Rightarrow> 'r sf_group" where
  "Do_wake t key c g = set_pc t (Returned key c (call_result c g)) g"

text \<open>
  The steps of the calls in \<open>T\<close>. The first argument says whether the function may panic.
\<close>

inductive sf_step :: "bool \<Rightarrow> nat set \<Rightarrow> 'r sf_group \<Rightarrow> 'r sf_group \<Rightarrow> bool"
  for pan :: bool and T :: "nat set" where
  invoke: "t \<in> T \<Longrightarrow> sf_pc g t = Idle \<Longrightarrow> sf_step pan T g (set_pc t (Calling key) g)"
| enter: "t \<in> T \<Longrightarrow> sf_pc g t = Calling key \<Longrightarrow> sf_step pan T g (Do_enter t key g)"
| assign: "t \<in> T \<Longrightarrow> sf_pc g t = Running key c \<Longrightarrow> sf_step pan T g (Do_assign t key c r g)"
| panic: "t \<in> T \<Longrightarrow> pan \<Longrightarrow> sf_pc g t = Running key c \<Longrightarrow>
     sf_step pan T g (set_pc t (Panicked key c) g)"
| wg_done: "t \<in> T \<Longrightarrow> sf_pc g t = Ran key c \<Longrightarrow> sf_step pan T g (Do_done t key c g)"
| delete: "t \<in> T \<Longrightarrow> sf_pc g t = Finishing key c \<Longrightarrow> sf_step pan T g (Do_delete t key c g)"
| wake: "t \<in> T \<Longrightarrow> sf_pc g t = Waiting key c \<Longrightarrow> wg (the (sf_heap g c)) = 0 \<Longrightarrow>
     sf_step pan T g (Do_wake t key c g)"

abbreviation sf_steps :: "bool \<Rightarrow> nat set \<Rightarrow> 'r sf_group \<Rightarrow> 'r sf_group \<Rightarrow> bool" where
  "sf_steps pan T \<equiv> (sf_step pan T)\<^sup>*\<^sup>*"

abbreviation sf_reach :: "bool \<Rightarrow> nat set \<Rightarrow> 'r sf_group \<Rightarrow> bool" where
  "sf_reach pan T \<equiv> sf_steps pan T sf_init"

section \<open>Invariant\<close>

fun leads :: "'r sf_pc \<Rightarrow> (string \<times> nat) option" where
  "leads (Running k c) = Some (k, c)"
| "leads (Ran k c) = Some (k, c)"
| "leads (Finishing k c) = Some (k, c)"
| "leads (Panicked k c) = Some (k, c)"
| "leads p = None"

text \<open>What the state of a call says, given where its leader is.\<close>

fun flight_ok :: "'r sf_pc \<Rightarrow> nat \<Rightarrow> 'r sf_call \<Rightarrow> string \<Rightarrow> bool \<Rightarrow> bool" where
  "flight_ok (Running k c') c x key inmap \<longleftrightarrow>
     k = key \<and> c' = c \<and> inmap \<and> wg x = 1 \<and> val_err x = None"
| "flight_ok (Panicked k c') c x key inmap \<longleftrightarrow>
     k = key \<and> c' = c \<and> inmap \<and> wg x = 1 \<and> val_err x = None"
| "flight_ok (Ran k c') c x key inmap \<longleftrightarrow>
     k = key \<and> c' = c \<and> inmap \<and> wg x = 1 \<and> val_err x \<noteq> None"
| "flight_ok (Finishing k c') c x key inmap \<longleftrightarrow>
     k = key \<and> c' = c \<and> inmap \<and> wg x = 0 \<and> val_err x \<noteq> None"
| "flight_ok (Returned k c' r) c x key inmap \<longleftrightarrow>
     k = key \<and> c' = c \<and> \<not> inmap \<and> wg x = 0 \<and> val_err x = Some r"
| "flight_ok p c x key inmap \<longleftrightarrow> False"

definition runs_of :: "'r sf_group \<Rightarrow> nat \<Rightarrow> nat list" where
  "runs_of g c = map fst (filter (\<lambda>p. snd p = c) (sf_runs g))"

definition sf_inv :: "'r sf_group \<Rightarrow> bool" where
  "sf_inv g \<longleftrightarrow>
     (\<forall>c. sf_heap g c = None \<longleftrightarrow> sf_nxt g \<le> c) \<and>
     (\<forall>c x. sf_heap g c = Some x \<longrightarrow>
        flight_ok (sf_pc g (leader x)) c x (call_key x) (sf_m g (call_key x) = Some c) \<and>
        runs_of g c = (if val_err x = None then [] else [leader x])) \<and>
     (\<forall>k c. sf_m g k = Some c \<longrightarrow> (\<exists>x. sf_heap g c = Some x \<and> call_key x = k)) \<and>
     (\<forall>t k c. leads (sf_pc g t) = Some (k, c) \<longrightarrow>
        (\<exists>x. sf_heap g c = Some x \<and> call_key x = k \<and> leader x = t)) \<and>
     (\<forall>t k c. sf_pc g t = Waiting k c \<longrightarrow> (\<exists>x. sf_heap g c = Some x \<and> call_key x = k)) \<and>
     (\<forall>t k c r. sf_pc g t = Returned k c r \<longrightarrow>
        (\<exists>x. sf_heap g c = Some x \<and> call_key x = k \<and> wg x = 0 \<and> val_err x = Some r)) \<and>
     (\<forall>p \<in> set (sf_runs g). snd p < sf_nxt g)"

lemma sf_invD:
  assumes "sf_inv g"
  shows "sf_heap g c = None \<longleftrightarrow> sf_nxt g \<le> c"
    and "sf_heap g c = Some x \<Longrightarrow>
        flight_ok (sf_pc g (leader x)) c x (call_key x) (sf_m g (call_key x) = Some c)"
    and "sf_heap g c = Some x \<Longrightarrow> runs_of g c = (if val_err x = None then [] else [leader x])"
    and "sf_m g k = Some c \<Longrightarrow> \<exists>x. sf_heap g c = Some x \<and> call_key x = k"
    and "leads (sf_pc g t) = Some (k, c) \<Longrightarrow>
        \<exists>x. sf_heap g c = Some x \<and> call_key x = k \<and> leader x = t"
    and "sf_pc g t = Waiting k c \<Longrightarrow> \<exists>x. sf_heap g c = Some x \<and> call_key x = k"
    and "sf_pc g t = Returned k c r \<Longrightarrow>
        \<exists>x. sf_heap g c = Some x \<and> call_key x = k \<and> wg x = 0 \<and> val_err x = Some r"
    and "p \<in> set (sf_runs g) \<Longrightarrow> snd p < sf_nxt g"
  using assms unfolding sf_inv_def by blast+

lemma sf_inv_init: "sf_inv sf_init"
  by (simp add: sf_inv_def sf_init_def runs_of_def)

subsection \<open>Every block keeps the invariant\<close>

lemma sf_pc_set [simp]: "sf_pc (set_pc t p g) = (sf_pc g)(t := p)" "sf_m (set_pc t p g) = sf_m g"
  "sf_heap (set_pc t p g) = sf_heap g" "sf_nxt (set_pc t p g) = sf_nxt g" "sf_runs (set_pc t p g) = sf_runs g"
  "runs_of (set_pc t p g) = runs_of g"
  by (simp_all add: set_pc_def runs_of_def fun_eq_iff)

lemma not_leader:
  assumes "sf_inv g" and "sf_heap g c = Some x" and "\<And>k c' r. sf_pc g t \<noteq> Returned k c' r" and "leads (sf_pc g t) = None"
  shows "leader x \<noteq> t"
  using sf_invD(2) [OF assms(1,2)] assms(3,4) by (cases "sf_pc g t") auto

lemma no_runs: "sf_inv g \<Longrightarrow> sf_nxt g \<le> c \<Longrightarrow> runs_of g c = []"
  using sf_invD(8) [of g] by (force simp: runs_of_def filter_empty_conv)

lemma sf_fresh:
  assumes "sf_inv g"
  shows "sf_m g k \<noteq> Some (sf_nxt g)" "leads (sf_pc g t) \<noteq> Some (k, sf_nxt g)"
    "sf_pc g t \<noteq> Waiting k (sf_nxt g)" "sf_pc g t \<noteq> Returned k (sf_nxt g) r"
proof -
  have N: "sf_heap g (sf_nxt g) = None" using sf_invD(1) [OF assms] by simp
  show "sf_m g k \<noteq> Some (sf_nxt g)" "leads (sf_pc g t) \<noteq> Some (k, sf_nxt g)"
    "sf_pc g t \<noteq> Waiting k (sf_nxt g)" "sf_pc g t \<noteq> Returned k (sf_nxt g) r"
    using sf_invD(4-7) [OF assms] N by (metis option.distinct(1))+
qed

lemma inv_invoke:
  assumes "sf_inv g" "sf_pc g t = Idle"
  shows "sf_inv (set_pc t (Calling key) g)"
proof -
  have "leader x \<noteq> t" if "sf_heap g c = Some x" for c x
    using not_leader [OF assms(1) that] assms(2) by simp
  then show ?thesis using assms unfolding sf_inv_def by auto
qed

lemma inv_wait:
  assumes "sf_inv g" "sf_pc g t = Calling key" "sf_m g key = Some c"
  shows "sf_inv (set_pc t (Waiting key c) g)"
proof -
  have "leader x \<noteq> t" if "sf_heap g c = Some x" for c x
    using not_leader [OF assms(1) that] assms(2) by simp
  then show ?thesis using assms unfolding sf_inv_def by auto
qed

lemma inv_lead:
  assumes "sf_inv g" "sf_pc g t = Calling key" "sf_m g key = None"
  shows "sf_inv (Do_enter t key g)"
proof -
  have L: "leader x \<noteq> t" if "sf_heap g c = Some x" for c x
    using not_leader [OF assms(1) that] assms(2) by simp
  have N: "sf_heap g (sf_nxt g) = None" using sf_invD(1) [OF assms(1)] by simp
  have R: "runs_of (Do_enter t key g) = runs_of g"
    by (simp add: Do_enter_def assms(3) Let_def runs_of_def fun_eq_iff)
  have K: "\<And>x c. sf_heap g c = Some x \<Longrightarrow> call_key x = key \<Longrightarrow> 
    flight_ok (sf_pc g (leader x)) c x key False"
    using sf_invD(2) [OF assms(1)] assms(3) by fastforce
  show ?thesis
    using assms(1) L N no_runs [OF assms(1) order_refl] assms(2) K sf_fresh [OF assms(1)]
    unfolding sf_inv_def R
    by (auto simp: Do_enter_def assms(3) Let_def less_Suc_eq split: if_splits)
qed

lemma leader_unique:
  assumes "sf_inv g" and "leads (sf_pc g t) = Some (k, c)" and "sf_heap g c' = Some x" and "leader x = t"
  shows "c' = c"
  using sf_invD(2) [OF assms(1,3)] assms(2,4) by (cases "sf_pc g t") auto

lemma block_pcs:
  "sf_pc (Do_assign t key c r g) = (sf_pc g)(t := Ran key c)"
  "sf_pc (Do_done t key c g) = (sf_pc g)(t := Finishing key c)"
  "sf_pc (Do_delete t key c g) =
     (sf_pc g)(t := Returned key c (call_result c (g\<lparr>sf_m := (sf_m g)(key := None)\<rparr>)))"
  "sf_pc (Do_wake t key c g) = (sf_pc g)(t := Returned key c (call_result c g))"
  by (simp_all add: Do_assign_def Do_done_def Do_delete_def Do_wake_def Let_def)

text \<open>Everything that refers to a call agrees with the call's own key and leader.\<close>

lemma call_refs:
  assumes "sf_inv g" and "sf_heap g c = Some x"
  shows "sf_m g k = Some c \<Longrightarrow> k = call_key x"
    and "leads (sf_pc g t) = Some (k, c) \<Longrightarrow> k = call_key x \<and> t = leader x"
    and "sf_pc g t = Waiting k c \<Longrightarrow> k = call_key x"
    and "sf_pc g t = Returned k c r \<Longrightarrow> k = call_key x \<and> wg x = 0 \<and> val_err x = Some r"
  using sf_invD(4) [OF assms(1), of k c] sf_invD(5) [OF assms(1), of t k c]
    sf_invD(6) [OF assms(1), of t k c] sf_invD(7) [OF assms(1), of t k c r] assms(2)
  by auto

text \<open>The call a goroutine leads.\<close>

lemma led_call:
  assumes "sf_inv g" and "leads (sf_pc g t) = Some (key, c)"
  obtains x where "sf_heap g c = Some x" "call_key x = key" "leader x = t" "sf_m g key = Some c"
    "flight_ok (sf_pc g t) c x key True"
proof -
  obtain x where x: "sf_heap g c = Some x" "call_key x = key" "leader x = t"
    using sf_invD(5) [OF assms] by blast
  have "flight_ok (sf_pc g t) c x key (sf_m g key = Some c)"
    using sf_invD(2) [OF assms(1) x(1)] x(2,3) by simp
  moreover from this have "sf_m g key = Some c" using assms(2) by (cases "sf_pc g t") auto
  ultimately show ?thesis using that x by simp
qed

lemma leader_iff:
  assumes "sf_inv g" and "leads (sf_pc g t) = Some (k, c)" and "sf_heap g c' = Some y"
  shows "leader y = t \<longleftrightarrow> c' = c" and "t = leader y \<longleftrightarrow> c' = c"
  using leader_unique [OF assms(1,2,3)] sf_invD(5) [OF assms(1,2)] assms(3) by auto

lemma inv_assign:
  assumes "sf_inv g" and "sf_pc g t = Running key c"
  shows "sf_inv (Do_assign t key c r g)"
proof -
  have T: "leads (sf_pc g t) = Some (key, c)" using assms(2) by simp
  from led_call [OF assms(1) T] obtain x where x: "sf_heap g c = Some x" "call_key x = key"
    "leader x = t" "sf_m g key = Some c" and ok: "flight_ok (sf_pc g t) c x key True" .
  have F: "wg x = 1" "val_err x = None" using ok assms(2) by auto
  have R: "runs_of (Do_assign t key c r g) c' = (if c' = c then [t] else runs_of g c')" for c'
    using sf_invD(3) [OF assms(1) x(1)] F(2) by (simp add: Do_assign_def Let_def runs_of_def)
  have c: "\<not> sf_nxt g \<le> c" "c < sf_nxt g" using sf_invD(1) [OF assms(1), of c] x(1) by auto
  show ?thesis
    using assms(1) unfolding sf_inv_def R
    by (auto simp: Do_assign_def Let_def x F c assms(2) leader_iff [OF assms(1) T]
        split: if_splits dest: call_refs [OF assms(1) x(1)])
qed

lemma inv_panic:
  assumes "sf_inv g" and "sf_pc g t = Running key c"
  shows "sf_inv (set_pc t (Panicked key c) g)"
proof -
  have T: "leads (sf_pc g t) = Some (key, c)" using assms(2) by simp
  from led_call [OF assms(1) T] obtain x where x: "sf_heap g c = Some x" "call_key x = key"
    "leader x = t" "sf_m g key = Some c" and ok: "flight_ok (sf_pc g t) c x key True" .
  have F: "wg x = 1" "val_err x = None" using ok assms(2) by auto
  show ?thesis
    using assms(1) unfolding sf_inv_def
    by (auto simp: x F assms(2) leader_iff [OF assms(1) T]
        split: if_splits dest: call_refs [OF assms(1) x(1)])
qed

lemma inv_done:
  assumes "sf_inv g" and "sf_pc g t = Ran key c"
  shows "sf_inv (Do_done t key c g)"
proof -
  have T: "leads (sf_pc g t) = Some (key, c)" using assms(2) by simp
  from led_call [OF assms(1) T] obtain x where x: "sf_heap g c = Some x" "call_key x = key"
    "leader x = t" "sf_m g key = Some c" and ok: "flight_ok (sf_pc g t) c x key True" .
  have F: "wg x = 1" "val_err x \<noteq> None" using ok assms(2) by auto
  have R: "runs_of (Do_done t key c g) = runs_of g"
    by (simp add: Do_done_def Let_def runs_of_def fun_eq_iff)
  have c: "\<not> sf_nxt g \<le> c" using sf_invD(1) [OF assms(1), of c] x(1) by auto
  show ?thesis
    using assms(1) sf_invD(3) [OF assms(1) x(1)] F(2) unfolding sf_inv_def R
    by (auto simp: Do_done_def Let_def x F(1) c assms(2) leader_iff [OF assms(1) T]
        split: if_splits dest: call_refs [OF assms(1) x(1)])
qed

lemma inv_delete:
  assumes "sf_inv g" and "sf_pc g t = Finishing key c"
  shows "sf_inv (Do_delete t key c g)"
proof -
  have T: "leads (sf_pc g t) = Some (key, c)" using assms(2) by simp
  from led_call [OF assms(1) T] obtain x where x: "sf_heap g c = Some x" "call_key x = key"
    "leader x = t" "sf_m g key = Some c" and ok: "flight_ok (sf_pc g t) c x key True" .
  obtain r where F: "wg x = 0" "val_err x = Some r" using ok assms(2) by auto
  have R: "runs_of (Do_delete t key c g) = runs_of g"
    by (simp add: Do_delete_def Let_def runs_of_def fun_eq_iff)
  have K: "flight_ok (sf_pc g (leader y)) c' y (call_key y) False"
    if "sf_heap g c' = Some y" "c' \<noteq> c" "key = call_key y" for y c'
    using sf_invD(2) [OF assms(1) that(1)] that x(4) by simp
  show ?thesis
    using assms(1) unfolding sf_inv_def R
    by (auto simp: Do_delete_def Let_def x F call_result_def assms(2) leader_iff [OF assms(1) T]
        split: if_splits dest: call_refs [OF assms(1) x(1)] intro: K)
qed

lemma inv_wake:
  assumes "sf_inv g" and "sf_pc g t = Waiting key c" and "wg (the (sf_heap g c)) = 0"
  shows "sf_inv (Do_wake t key c g)"
proof -
  have L: "leader x \<noteq> t" if "sf_heap g c = Some x" for c x
    using not_leader [OF assms(1) that] assms(2) by simp
  obtain x where x: "sf_heap g c = Some x" "call_key x = key"
    using sf_invD(6) [OF assms(1,2)] by blast
  then obtain r where r: "val_err x = Some r" and "wg x = 0"
    using sf_invD(2) [OF assms(1) x(1)] assms(3) by (cases "sf_pc g (leader x)") auto
  have "runs_of (Do_wake t key c g) = runs_of g"
    by (simp add: Do_wake_def fun_eq_iff)
  then show ?thesis
    using assms(1) L x r \<open>wg x = 0\<close> unfolding sf_inv_def
    by (auto simp: Do_wake_def call_result_def assms(2) split: if_splits)
qed

lemma step_inv: "sf_step pan T g g' \<Longrightarrow> sf_inv g \<Longrightarrow> sf_inv g'"
proof (induction rule: sf_step.induct)
  case (enter t g key)
  show ?case
  proof (cases "sf_m g key")
    case None
    with enter show ?thesis by (simp add: inv_lead)
  next
    case (Some c)
    with enter inv_wait [of g t key c] show ?thesis by (simp add: Do_enter_def)
  qed
qed (simp_all add: inv_invoke inv_assign inv_panic inv_done inv_delete inv_wake)

interpretation sf: machine "\<lambda>g. g = sf_init" "sf_step pan T" sf_inv for pan T
  by unfold_locales (simp_all add: sf_inv_init step_inv)

lemma reach_inv: "sf_reach pan T g \<Longrightarrow> sf_inv g"
  by (rule sf.inv_reached) simp_all

lemma sf_step_pan: "sf_step pan T g g' \<Longrightarrow> sf_step True T g g'"
  by (erule sf_step.cases) (auto intro: sf_step.intros)

inductive_cases sf_stepE: "sf_step pan T g g'"

text \<open>What a leader about to return, or a waiter about to wake, finds in its call.\<close>

lemma finished_result:
  assumes "sf_inv g"
    and "sf_pc g t = Finishing k c \<or> sf_pc g t = Waiting k c \<and> wg (the (sf_heap g c)) = 0"
  shows "\<exists>x. sf_heap g c = Some x \<and> call_key x = k \<and> val_err x = Some (call_result c g)"
  using assms(2)
proof
  assume fin: "sf_pc g t = Finishing k c"
  then have "leads (sf_pc g t) = Some (k, c)" by simp
  from led_call [OF assms(1) this] fin show ?thesis by (fastforce simp: call_result_def)
next
  assume wait: "sf_pc g t = Waiting k c \<and> wg (the (sf_heap g c)) = 0"
  then obtain x where x: "sf_heap g c = Some x" "call_key x = k" "wg x = 0"
    using sf_invD(6) [OF assms(1), of t k c] by auto
  then have "val_err x \<noteq> None"
    using sf_invD(2) [OF assms(1) x(1)] by (cases "sf_pc g (leader x)") auto
  with x show ?thesis by (auto simp: call_result_def)
qed

lemma waits_for_leader:
  assumes "sf_inv g" and "sf_pc g t = Waiting k c" and "wg (the (sf_heap g c)) \<noteq> 0"
  shows "\<exists>u. leads (sf_pc g u) = Some (k, c)"
proof -
  obtain x where x: "sf_heap g c = Some x" "call_key x = k" using sf_invD(6) [OF assms(1,2)] by blast
  then show ?thesis
    using sf_invD(2) [OF assms(1) x(1)] assms(3)
    by (intro exI [of _ "leader x"]) (cases "sf_pc g (leader x)"; auto)
qed

lemma one_leader:
  assumes "sf_reach pan T g" and "leads (sf_pc g t) = Some (k, c)" and "leads (sf_pc g t') = Some (k, c')"
  shows "t = t' \<and> c = c'"
proof -
  have inv: "sf_inv g" by (rule reach_inv [OF assms(1)])
  obtain x where x: "sf_heap g c = Some x" "leader x = t" "sf_m g k = Some c"
    by (rule led_call [OF inv assms(2)])
  obtain x' where "sf_heap g c' = Some x'" "leader x' = t'" "sf_m g k = Some c'"
    by (rule led_call [OF inv assms(3)])
  with x show ?thesis by auto
qed

section \<open>Progress\<close>

fun pc_weight :: "'r sf_pc \<Rightarrow> nat" where
  "pc_weight Idle = 6"
| "pc_weight (Calling k) = 5"
| "pc_weight (Running k c) = 4"
| "pc_weight (Ran k c) = 3"
| "pc_weight (Finishing k c) = 2"
| "pc_weight (Waiting k c) = 1"
| "pc_weight (Returned k c r) = 0"
| "pc_weight (Panicked k c) = 0"

definition sf_measure :: "nat set \<Rightarrow> 'r sf_group \<Rightarrow> nat" where
  "sf_measure T g = (\<Sum>t \<in> T. pc_weight (sf_pc g t))"

lemma step_one_pc:
  "sf_step pan T g g' \<Longrightarrow> \<exists>t \<in> T. \<exists>p. sf_pc g' = (sf_pc g)(t := p) \<and> pc_weight p < pc_weight (sf_pc g t)"
  by (induction rule: sf_step.induct)
    (force simp: Do_enter_def Do_assign_def Do_done_def Do_delete_def Do_wake_def Let_def split: option.split)+

lemma step_measure: "finite T \<Longrightarrow> sf_step pan T g g' \<Longrightarrow> sf_measure T g' < sf_measure T g"
  unfolding sf_measure_def
  by (drule step_one_pc, elim bexE exE conjE, rule sum_strict_mono_ex1) auto

lemma step_frame: "sf_step pan T g g' \<Longrightarrow> t \<notin> T \<Longrightarrow> sf_pc g' t = sf_pc g t"
  using step_one_pc [of pan T g g'] by auto

lemma outside_idle: "sf_reach pan T g \<Longrightarrow> t \<notin> T \<Longrightarrow> sf_pc g t = Idle"
  by (induction rule: rtranclp_induct) (simp_all add: sf_init_def step_frame)

lemma no_panic: "sf_reach False T g \<Longrightarrow> sf_pc g t \<noteq> Panicked k c"
proof (induction rule: rtranclp_induct)
  case base
  then show ?case by (simp add: sf_init_def)
next
  case (step g g')
  from step.hyps(2) step.IH show ?case
    by (cases rule: sf_step.cases)
      (auto simp: Do_enter_def Do_assign_def Do_done_def Do_delete_def Do_wake_def Let_def split: option.split)
qed

definition returned :: "'r sf_pc \<Rightarrow> bool" where
  "returned p = (case p of Returned k c r \<Rightarrow> True | _ \<Rightarrow> False)"

lemma not_stuck:
  assumes "sf_reach False T g" and "t \<in> T" and "\<not> returned (sf_pc g t)"
  shows "\<exists>g'. sf_step False T g g'"
proof (cases "sf_pc g t")
  case (Waiting k c)
  have inv: "sf_inv g" by (rule reach_inv [OF assms(1)])
  obtain x where x: "sf_heap g c = Some x" "call_key x = k"
    using sf_invD(6) [OF inv Waiting] by blast
  show ?thesis
  proof (cases "wg x = 0")
    case True
    with x Waiting assms(2) show ?thesis by (metis option.sel sf_step.wake)
  next
    case False
    let ?l = "leader x"
    have ok: "flight_ok (sf_pc g ?l) c x (call_key x) (sf_m g (call_key x) = Some c)"
      by (rule sf_invD(2) [OF inv x(1)])
    have "?l \<in> T" using outside_idle [OF assms(1), of ?l] ok by (rule_tac ccontr) simp
    then show ?thesis
      using ok False no_panic [OF assms(1)] by (cases "sf_pc g ?l") (auto intro: sf_step.intros)
  qed
qed (use assms(2,3) no_panic [OF assms(1)] in \<open>auto simp: returned_def intro: sf_step.intros\<close>)

interpretation sf_calls: ending_machine "\<lambda>g. finite T \<and> g = sf_init" "sf_step False T"
  "\<lambda>g. finite T \<and> sf_reach False T g" "\<lambda>g. \<forall>t \<in> T. returned (sf_pc g t)" "sf_measure T" for T
proof unfold_locales
  fix g g' :: "'r sf_group"
  show "sf_measure T g' < sf_measure T g" if "finite T \<and> sf_reach False T g" and "sf_step False T g g'"
    using that step_measure by blast
qed (use not_stuck in \<open>blast intro: reach_step\<close>)+

section \<open>A panicking function\<close>

text \<open>
  What stays true once the leader of \<open>k\<close> has panicked: the call is never taken off the map,
  and a goroutine that had not yet entered \<open>Do\<close> with \<open>k\<close> can only wait for it.
\<close>

definition stuck_for :: "string \<Rightarrow> nat \<Rightarrow> nat \<Rightarrow> 'r sf_pc \<Rightarrow> bool" where
  "stuck_for k c l p \<longleftrightarrow> (\<forall>c' r. p \<noteq> Returned k c' r) \<and> (\<forall>c'. p = Waiting k c' \<longrightarrow> c' = c) \<and>
     (\<forall>c'. leads p \<noteq> Some (k, c'))"

lemma panicked_step:
  assumes "sf_step pan T g g'" and "sf_inv g" and "sf_pc g l = Panicked k c"
    and "stuck_for k c l (sf_pc g t)"
  shows "sf_pc g' l = Panicked k c \<and> stuck_for k c l (sf_pc g' t)"
proof -
  from led_call [OF assms(2), of l k c] assms(3) obtain x where
    x: "sf_heap g c = Some x" "sf_m g k = Some c" "wg x = 1" by auto
  from assms(1) show ?thesis
    by (cases rule: sf_step.cases)
      (use assms(3,4) x in \<open>auto simp: stuck_for_def Do_enter_def Do_assign_def Do_done_def
        Do_delete_def Do_wake_def Let_def split: option.splits if_splits\<close>)
qed

lemma panicked_steps:
  assumes "sf_steps pan T g g'" and "sf_inv g" and "sf_pc g l = Panicked k c"
    and "stuck_for k c l (sf_pc g t)"
  shows "sf_inv g' \<and> sf_pc g' l = Panicked k c \<and> stuck_for k c l (sf_pc g' t)"
  using assms
  by (induction rule: rtranclp_induct) (auto simp: step_inv dest: panicked_step)

section \<open>Properties\<close>


text \<open>Two goroutines ask for one key: the first leads, the second joins.\<close>

definition demo_join :: "nat sf_group" where
  "demo_join = Do_enter 1 ''k'' (set_pc 1 (Calling ''k'') (Do_enter 0 ''k'' (set_pc 0 (Calling ''k'') sf_init)))"

lemma demo_join_reach: "sf_reach pan {0, 1} demo_join"
proof -
  let ?g1 = "set_pc 0 (Calling ''k'') sf_init :: nat sf_group"
  let ?g2 = "Do_enter 0 ''k'' ?g1"
  let ?g3 = "set_pc 1 (Calling ''k'') ?g2"
  have "sf_reach pan {0, 1} ?g1"
    by (rule reach_step [OF reach_refl], rule sf_step.invoke) (simp_all add: sf_init_def)
  then have "sf_reach pan {0, 1} ?g2"
    by (rule reach_step, intro sf_step.enter) simp_all
  then have "sf_reach pan {0, 1} ?g3"
    by (rule reach_step, intro sf_step.invoke) (simp_all add: Do_enter_def sf_init_def Let_def)
  then show ?thesis
    unfolding demo_join_def by (rule reach_step, intro sf_step.enter) simp_all
qed

lemma demo_join_pcs: "sf_pc demo_join 0 = Running ''k'' 0" "sf_pc demo_join 1 = Waiting ''k'' 0"
  by (simp_all add: demo_join_def Do_enter_def sf_init_def Let_def set_pc_def)


text \<open>
  All goroutines that return from the same call, the leader and those that waited, return
  the same value and error: what the one run of the function produced.
\<close>

theorem Do_callers_agree:
  assumes "sf_reach pan T g" and "sf_pc g t = Returned k c r" and "sf_pc g t' = Returned k' c r'"
  shows "k' = k \<and> r' = r \<and> (\<exists>l. runs_of g c = [l] \<and> sf_pc g l \<in> {Returned k c r, Finishing k c})"
proof -
  have inv: "sf_inv g" by (rule reach_inv [OF assms(1)])
  obtain x where x: "sf_heap g c = Some x" "call_key x = k" "wg x = 0" "val_err x = Some r"
    using sf_invD(7) [OF inv assms(2)] by blast
  moreover have "k' = k" "r' = r" using sf_invD(7) [OF inv assms(3)] x by auto
  moreover have "runs_of g c = [leader x]" using sf_invD(3) [OF inv x(1)] x(4) by simp
  moreover have "sf_pc g (leader x) = Returned k c r \<or> sf_pc g (leader x) = Finishing k c"
    using sf_invD(2) [OF inv x(1)] x by (cases "sf_pc g (leader x)") auto
  ultimately show ?thesis by auto
qed

text \<open>The leader of the first example runs, finishes and returns; then the waiter wakes.\<close>

definition demo_returned :: "nat sf_group" where
  "demo_returned = Do_wake 1 ''k'' 0 (Do_delete 0 ''k'' 0 (Do_done 0 ''k'' 0 (Do_assign 0 ''k'' 0 42 demo_join)))"

lemma demo_heap: "sf_heap demo_join 0 = Some \<lparr>wg = 1, val_err = None, leader = 0, call_key = ''k''\<rparr>"
  by (simp add: demo_join_def Do_enter_def sf_init_def Let_def set_pc_def)

lemma demo_returned_reach: "sf_reach pan {0, 1} demo_returned"
proof -
  let ?g1 = "Do_assign 0 ''k'' 0 42 demo_join"
  let ?g2 = "Do_done 0 ''k'' 0 ?g1"
  let ?g3 = "Do_delete 0 ''k'' 0 ?g2"
  have "sf_reach pan {0, 1} ?g1"
    by (rule reach_step [OF demo_join_reach], rule sf_step.assign) (simp_all add: demo_join_pcs)
  then have "sf_reach pan {0, 1} ?g2"
    by (rule reach_step, intro sf_step.wg_done) (simp_all add: block_pcs)
  then have "sf_reach pan {0, 1} ?g3"
    by (rule reach_step, intro sf_step.delete) (simp_all add: block_pcs)
  then show ?thesis
    unfolding demo_returned_def
    by (rule reach_step, intro sf_step.wake)
      (simp_all add: block_pcs Let_def Do_delete_def Do_done_def Do_assign_def demo_join_pcs [simplified] demo_heap)
qed

lemma demo_returned_pcs:
  "sf_pc demo_returned 0 = Returned ''k'' 0 42" "sf_pc demo_returned 1 = Returned ''k'' 0 42"
  by (simp_all add: demo_returned_def Do_wake_def Do_delete_def Do_done_def Do_assign_def
      call_result_def demo_heap Let_def)

theorem Do_callers_agree_witness:
  "\<exists>l. runs_of demo_returned 0 = [l] \<and> sf_pc demo_returned l \<in> {Returned ''k'' 0 42, Finishing ''k'' 0}"
  using Do_callers_agree [OF demo_returned_reach [of False] demo_returned_pcs] by blast

text \<open>
  When no function panics, \<open>Do\<close> never deadlocks and always ends: from any reachable state
  in which some of the finitely many calls has not returned a step is possible, and every step
  brings the calls closer to all having returned, a state that some run reaches; once it is
  reached, no key is left in flight.
\<close>

theorem Do_always_returns:
  assumes "finite T" and "sf_reach False T g"
  shows "((\<exists>t \<in> T. \<not> returned (sf_pc g t)) \<longrightarrow> (\<exists>g'. sf_step False T g g')) \<and>
    (\<forall>g'. sf_step False T g g' \<longrightarrow> sf_measure T g' < sf_measure T g) \<and>
    (\<exists>g'. sf_steps False T g g' \<and> (\<forall>t \<in> T. returned (sf_pc g' t))) \<and>
    ((\<forall>t \<in> T. returned (sf_pc g t)) \<longrightarrow> (\<forall>k. sf_m g k = None))"
proof (intro conjI impI allI)
  show "\<exists>g'. sf_steps False T g g' \<and> (\<forall>t \<in> T. returned (sf_pc g' t))"
    by (rule sf_calls.can_end) (simp add: assms)
next
  fix k
  assume all: "\<forall>t \<in> T. returned (sf_pc g t)"
  have inv: "sf_inv g" by (rule reach_inv [OF assms(2)])
  show "sf_m g k = None"
  proof (rule ccontr)
    assume "sf_m g k \<noteq> None"
    then obtain c x where x: "sf_m g k = Some c" "sf_heap g c = Some x" "call_key x = k"
      using sf_invD(4) [OF inv] by blast
    then have ok: "flight_ok (sf_pc g (leader x)) c x k True"
      using sf_invD(2) [OF inv x(2)] by simp
    then have "\<not> returned (sf_pc g (leader x))" and "sf_pc g (leader x) \<noteq> Idle"
      by (cases "sf_pc g (leader x)"; simp add: returned_def)+
    then show False using all outside_idle [OF assms(2)] by blast
  qed
qed (use assms not_stuck step_measure in blast)+

theorem Do_always_returns_witness:
  "(\<exists>g'. sf_step False {0, 1} demo_join g') \<and> (\<forall>k. sf_m demo_returned k = None)"
proof -
  have "finite {0, 1 :: nat}" by simp
  note P = Do_always_returns [OF this demo_join_reach] Do_always_returns [OF this demo_returned_reach]
  have "\<not> returned (sf_pc demo_join 0)" "\<forall>t \<in> {0, 1}. returned (sf_pc demo_returned t)"
    by (simp_all add: returned_def demo_join_pcs demo_returned_pcs [simplified])
  with P show ?thesis by blast
qed

lemma step_mono: "sf_step pan S g g' \<Longrightarrow> S \<subseteq> T \<Longrightarrow> sf_step pan T g g'"
  by (erule sf_step.cases) (blast intro: sf_step.intros)+

lemma reach_mono: "sf_reach pan S g \<Longrightarrow> S \<subseteq> T \<Longrightarrow> sf_reach pan T g"
  by (induction rule: rtranclp_induct) (auto intro: reach_step step_mono)

text \<open>
  A function that panics breaks this. If the leader of a key panics, the call stays in the
  map for good, and every goroutine that calls \<open>Do\<close> with that key afterwards never returns,
  whatever happens next.
\<close>

theorem Do_panic_blocks_key:
  assumes "sf_reach pan T g" and "sf_pc g l = Panicked k c"
    and "sf_pc g t = Idle \<or> sf_pc g t = Calling k" and "sf_steps pan T g g'"
  shows "sf_m g' k = Some c \<and> (\<forall>c' r. sf_pc g' t \<noteq> Returned k c' r)"
proof -
  have "stuck_for k c l (sf_pc g t)" using assms(3) by (auto simp: stuck_for_def)
  from panicked_steps [OF assms(4) reach_inv [OF assms(1)] assms(2) this]
  have inv: "sf_inv g'" and "leads (sf_pc g' l) = Some (k, c)" and "stuck_for k c l (sf_pc g' t)"
    by simp_all
  from led_call [OF this(1,2)] this(3) show ?thesis
    unfolding stuck_for_def by blast
qed

definition demo_blocked :: "nat sf_group" where
  "demo_blocked = Do_enter 2 ''k'' (set_pc 2 (Calling ''k'') (set_pc 0 (Panicked ''k'' 0) demo_join))"

theorem Do_panic_blocks_key_witness:
  "sf_m demo_blocked ''k'' = Some 0 \<and> (\<forall>c r. sf_pc demo_blocked 2 \<noteq> Returned ''k'' c r)"
proof -
  let ?g = "set_pc 0 (Panicked ''k'' 0) demo_join"
  have "sf_reach True {0, 1, 2} demo_join" by (rule reach_mono [OF demo_join_reach]) blast
  then have "sf_reach True {0, 1, 2} ?g"
    by (rule reach_step, intro sf_step.panic) (simp_all add: demo_join_pcs)
  moreover have idle: "sf_pc ?g 2 = Idle"
    by (simp add: demo_join_def Do_enter_def sf_init_def Let_def set_pc_def)
  moreover have "sf_steps True {0, 1, 2} ?g demo_blocked"
  proof (rule reach_step)
    show "sf_steps True {0, 1, 2} ?g (set_pc 2 (Calling ''k'') ?g)"
      by (rule r_into_rtranclp, rule sf_step.invoke) (simp_all add: idle [simplified])
    show "sf_step True {0, 1, 2} (set_pc 2 (Calling ''k'') ?g) demo_blocked"
      unfolding demo_blocked_def by (rule sf_step.enter) simp_all
  qed
  ultimately show ?thesis
    using Do_panic_blocks_key [of True "{0, 1, 2}" ?g 0 "''k''" 0 2 demo_blocked] by simp
qed

section \<open>Do without contention\<close>

text \<open>
  A call of \<open>Do\<close> with nobody else in flight for the key: the blocks run in a row, the
  function runs once, its result is returned and the map is as it was. This is the way the
  cache group, which is modelled one request at a time, uses it.
\<close>

definition Do_alone :: "nat \<Rightarrow> string \<Rightarrow> 'r \<Rightarrow> 'r sf_group \<Rightarrow> 'r sf_group" where
  "Do_alone t key r g =
     (let c = sf_nxt g in Do_delete t key c (Do_done t key c (Do_assign t key c r (Do_enter t key g))))"

lemma Do_alone_result:
  assumes "sf_m g key = None"
  shows "sf_pc (Do_alone t key r g) t = Returned key (sf_nxt g) r"
    and "sf_m (Do_alone t key r g) = sf_m g"
    and "sf_runs (Do_alone t key r g) = (t, sf_nxt g) # sf_runs g"
  using assms
  by (simp_all add: Do_alone_def Do_enter_def block_pcs call_result_def Do_assign_def Do_done_def
      Do_delete_def Let_def fun_upd_idem)

end
