(* ===== verification/Cache_Group.thy ===== *)
theory Cache_Group
  imports Byte_Cache Singleflight
begin

text \<open>
  MyCache/mycache.go and MyCache/peers.go: a group is a namespace of the cache. \<open>Get\<close> looks in
  the group's cache, then, through the singleflight loader, asks the peer that owns the key
  and, failing that, the user's source, whose answer it caches.

  A request runs to its end before the next one starts; what concurrent requests for one key
  do to each other is the subject of the loader's own theory, whose blocks \<open>load\<close> goes through
  here. The user's source, the peers and everything they touch (other processes, a database)
  are functions of a world that every call threads. A source or a peer may return, panic or
  never return; the state that a panic leaves behind is kept, because the HTTP server that
  runs a request recovers and goes on.
\<close>

section \<open>State\<close>

record pb_request =
  req_Group :: string
  req_Key :: string

record pb_response =
  resp_Value :: bytes

text \<open>The interfaces \<open>Getter\<close>, \<open>PeerGetter\<close> and \<open>PeerPicker\<close>.\<close>

type_synonym 'w getter = "string \<Rightarrow> 'w \<Rightarrow> (string + bytes) outcome \<times> 'w"
type_synonym 'w peer_getter = "pb_request \<Rightarrow> 'w \<Rightarrow> (string + pb_response) outcome \<times> 'w"
type_synonym 'w peer_picker = "string \<Rightarrow> 'w \<Rightarrow> 'w peer_getter option outcome"

record 'w Group =
  gname :: string
  getter_fn :: "'w getter"
  mainCache :: bcache
  peers :: "'w peer_picker option"
  loader :: "(string + ByteView) sf_group"

type_synonym ('w, 'a) group_run = "'a outcome \<times> 'w Group \<times> 'w"

section \<open>Operations\<close>

definition GetterFunc_Get :: "'w getter \<Rightarrow> 'w getter" where
  "GetterFunc_Get f key w = f key w"

definition populateCache :: "string \<Rightarrow> ByteView \<Rightarrow> 'w Group \<times> 'w \<Rightarrow> ('w, unit) group_run" where
  "populateCache key v = (\<lambda>(g, w).
     case cache_add key v (mainCache g) of
       None \<Rightarrow> (Hang, g, w)
     | Some c \<Rightarrow> (Ret (), g\<lparr>mainCache := c\<rparr>, w))"

definition getLocally :: "string \<Rightarrow> 'w Group \<times> 'w \<Rightarrow> ('w, string + ByteView) group_run" where
  "getLocally key = (\<lambda>(g, w).
     let (r, w1) = getter_fn g key w
     in bind_run (r, g, w1) (\<lambda>x s.
          case x of
            Inl e \<Rightarrow> (Ret (Inl e), s)
          | Inr bs \<Rightarrow>
              let v = \<lparr>bv_b = bs\<rparr>
              in bind_run (populateCache key v s) (\<lambda>_ s1. (Ret (Inr v), s1))))"

definition getFromPeer :: "'w peer_getter \<Rightarrow> string \<Rightarrow> 'w Group \<times> 'w \<Rightarrow> ('w, string + ByteView) group_run" where
  "getFromPeer peer key = (\<lambda>(g, w).
     let req = \<lparr>req_Group = gname g, req_Key = key\<rparr>;
         (r, w1) = peer req w
     in bind_run (r, g, w1) (\<lambda>x s.
          case x of
            Inl e \<Rightarrow> (Ret (Inl e), s)
          | Inr res \<Rightarrow> (Ret (Inr \<lparr>bv_b = resp_Value res\<rparr>), s)))"

text \<open>The function literal that \<open>load\<close> hands to \<open>Do\<close>.\<close>

definition load_fn :: "string \<Rightarrow> 'w Group \<times> 'w \<Rightarrow> ('w, string + ByteView) group_run" where
  "load_fn key = (\<lambda>(g, w).
     case peers g of
       None \<Rightarrow> getLocally key (g, w)
     | Some pick \<Rightarrow>
         bind_run (pick key w, g, w) (\<lambda>picked s.
           case picked of
             None \<Rightarrow> getLocally key s
           | Some peer \<Rightarrow>
               bind_run (getFromPeer peer key s) (\<lambda>x s1.
                 case x of
                   Inr v \<Rightarrow> (Ret (Inr v), s1)
                 | Inl e \<Rightarrow> getLocally key s1)))"

text \<open>
  \<open>load\<close>: the blocks of \<open>Do\<close> around the function. The call gets a number of its own. If it has
  to wait for another call there is none that would finish while it does, so it hangs; if the
  function panics, the blocks after it do not run.
\<close>

definition load :: "string \<Rightarrow> 'w Group \<times> 'w \<Rightarrow> ('w, string + ByteView) group_run" where
  "load key = (\<lambda>(g, w).
     let t = sf_nxt (loader g);
         g1 = g\<lparr>loader := Do_enter t key (loader g)\<rparr>
     in case sf_pc (loader g1) t of
          Running k c \<Rightarrow>
            (case load_fn key (g1, w) of
               (Ret r, g2, w2) \<Rightarrow>
                 let l = Do_delete t k c (Do_done t k c (Do_assign t k c r (loader g2)))
                 in (Ret (call_result c l), g2\<lparr>loader := l\<rparr>, w2)
             | (Panic m, g2, w2) \<Rightarrow> (Panic m, g2\<lparr>loader := set_pc t (Panicked k c) (loader g2)\<rparr>, w2)
             | (Hang, g2, w2) \<Rightarrow> (Hang, g2, w2))
        | _ \<Rightarrow> (Hang, g1, w))"

definition need_key :: string where
  "need_key = [CHR 0xE9, CHR 0x9C, CHR 0x80, CHR 0xE8, CHR 0xA6, CHR 0x81] @ ''key''"

definition Group_Get :: "string \<Rightarrow> 'w Group \<times> 'w \<Rightarrow> ('w, string + ByteView) group_run" where
  "Group_Get key = (\<lambda>(g, w).
     if key = '''' then (Ret (Inl need_key), g, w)
     else case cache_get key (mainCache g) of
            (Some v, c) \<Rightarrow> (Ret (Inr v), g\<lparr>mainCache := c\<rparr>, w)
          | (None, c) \<Rightarrow> load key (g\<lparr>mainCache := c\<rparr>, w))"

definition registered_twice :: string where
  "registered_twice = ''RegisterPeerPicker'' @
     [CHR 0xE8, CHR 0xB0, CHR 0x83, CHR 0xE7, CHR 0x94, CHR 0xA8, CHR 0xE4, CHR 0xBA, CHR 0x86,
      CHR 0xE5, CHR 0xA4, CHR 0x9A, CHR 0xE6, CHR 0xAC, CHR 0xA1]"

definition RegisterPeers :: "'w peer_picker option \<Rightarrow> 'w Group \<Rightarrow> unit outcome \<times> 'w Group" where
  "RegisterPeers ps g =
     (if peers g \<noteq> None then (Panic registered_twice, g)
      else (Ret (), g\<lparr>peers := ps\<rparr>))"

section \<open>The table of groups\<close>

text \<open>The package's map from names to pointers, and what the pointers point to.\<close>

record 'w group_table =
  groups :: "string \<Rightarrow> nat option"
  group_at :: "nat \<Rightarrow> 'w Group option"
  group_nxt :: nat

definition no_groups :: "'w group_table" where
  "no_groups = \<lparr>groups = Map.empty, group_at = Map.empty, group_nxt = 0\<rparr>"

definition NewGroup ::
  "string \<Rightarrow> int64 \<Rightarrow> 'w getter option \<Rightarrow> 'w group_table \<Rightarrow> nat outcome \<times> 'w group_table" where
  "NewGroup nm cap gt T =
     (case gt of
        None \<Rightarrow> (Panic ''nil Getter'', T)
      | Some f \<Rightarrow>
          let p = group_nxt T;
              g = \<lparr>gname = nm, getter_fn = f, mainCache = new_cache cap, peers = None, loader = sf_init\<rparr>;
              T1 = T\<lparr>group_at := (group_at T)(p \<mapsto> g), group_nxt := Suc p\<rparr>
          in (Ret p, T1\<lparr>groups := (groups T1)(nm \<mapsto> p)\<rparr>))"

definition GetGroup :: "string \<Rightarrow> 'w group_table \<Rightarrow> nat option" where
  "GetGroup nm T = groups T nm"

section \<open>One load\<close>

lemma populateCache_loader:
  "populateCache key v (g\<lparr>loader := l\<rparr>, w) =
     (let (r, g', w') = populateCache key v (g, w) in (r, g'\<lparr>loader := l\<rparr>, w'))"
  by (simp add: populateCache_def split: option.split)

lemma getLocally_loader:
  "getLocally key (g\<lparr>loader := l\<rparr>, w) =
     (let (r, g', w') = getLocally key (g, w) in (r, g'\<lparr>loader := l\<rparr>, w'))"
proof (cases "getter_fn g key w")
  case (Pair r w1)
  then show ?thesis
    by (cases r)
      (auto simp: getLocally_def populateCache_def Let_def split: sum.split option.split)
qed

lemma getFromPeer_result:
  "getFromPeer p key (g, w) =
     (let (r, w') = p \<lparr>req_Group = gname g, req_Key = key\<rparr> w
      in (bind_outcome r (\<lambda>x. Ret (map_sum id (\<lambda>res. \<lparr>bv_b = resp_Value res\<rparr>) x)), g, w'))"
proof (cases "p \<lparr>req_Group = gname g, req_Key = key\<rparr> w")
  case (Pair r w1)
  then show ?thesis
    by (cases r) (auto simp: getFromPeer_def split: sum.split)
qed

lemma getFromPeer_loader:
  "getFromPeer p key (g\<lparr>loader := l\<rparr>, w) =
     (let (r, g', w') = getFromPeer p key (g, w) in (r, g'\<lparr>loader := l\<rparr>, w'))"
  by (simp add: getFromPeer_result split: prod.split)

lemma load_fn_loader:
  "load_fn key (g\<lparr>loader := l\<rparr>, w) =
     (let (r, g', w') = load_fn key (g, w) in (r, g'\<lparr>loader := l\<rparr>, w'))"
proof (cases "peers g")
  case None
  then show ?thesis by (simp add: load_fn_def getLocally_loader)
next
  case (Some pick)
  show ?thesis
  proof (cases "pick key w")
    case (Ret picked)
    show ?thesis
    proof (cases picked)
      case None
      then show ?thesis by (simp add: load_fn_def Some Ret getLocally_loader)
    next
      case peer: (Some p)
      obtain r g1 w1 where E: "getFromPeer p key (g, w) = (r, g1, w1)" by (metis prod.collapse)
      show ?thesis
        by (cases r) (auto simp: load_fn_def Some Ret peer getFromPeer_loader E getLocally_loader
            split: sum.split)
    qed
  qed (simp_all add: load_fn_def Some)
qed

text \<open>With no call for the key in flight, \<open>load\<close> is its function, run once.\<close>

lemma load_idle:
  assumes "sf_m (loader g) key = None"
  shows "load key (g, w) =
    (let c = sf_nxt (loader g) in
     case load_fn key (g, w) of
       (Ret r, g', w') \<Rightarrow> (Ret r, g'\<lparr>loader := Do_alone c key r (loader g)\<rparr>, w')
     | (Panic m, g', w') \<Rightarrow>
         (Panic m, g'\<lparr>loader := set_pc c (Panicked key c) (Do_enter c key (loader g))\<rparr>, w')
     | (Hang, g', w') \<Rightarrow> (Hang, g'\<lparr>loader := Do_enter c key (loader g)\<rparr>, w'))"
proof -
  let ?c = "sf_nxt (loader g)"
  have pc: "sf_pc (Do_enter ?c key (loader g)) ?c = Running key ?c"
    by (simp add: Do_enter_def assms Let_def)
  have res: "call_result ?c (Do_alone ?c key r (loader g)) = r" for r
    by (simp add: Do_alone_def Do_enter_def assms call_result_def Do_assign_def Do_done_def
        Do_delete_def Let_def)
  then show ?thesis
    by (simp add: load_def Let_def pc load_fn_loader Do_alone_def split: prod.split outcome.split)
qed

lemma load_busy:
  assumes "sf_m (loader g) key = Some c"
  shows "\<exists>g'. load key (g, w) = (Hang, g', w)"
  by (simp add: load_def Let_def Do_enter_def assms)

lemma getLocally_caches:
  assumes "cache_inv m (mainCache g)" and "cache_room m key \<lparr>bv_b = bs\<rparr>"
    and "getter_fn g key w = (Ret (Inr bs), w')"
  shows "\<exists>c. cache_add key \<lparr>bv_b = bs\<rparr> (mainCache g) = Some c \<and>
    getLocally key (g, w) = (Ret (Inr \<lparr>bv_b = bs\<rparr>), g\<lparr>mainCache := c\<rparr>, w')"
  using bc.add_returns [OF assms(1,2)] assms(3)
  by (auto simp: getLocally_def populateCache_def Let_def)

section \<open>Transparency\<close>

text \<open>
  \<open>src\<close> is what the source answers; the peers, when they answer, answer with the same; what
  the cache holds came from the source. \<open>W\<close> is what the source and the peers rely on in the
  world, and keep.
\<close>

definition source_is :: "(string \<Rightarrow> string + bytes) \<Rightarrow> ('w \<Rightarrow> bool) \<Rightarrow> 'w Group \<Rightarrow> bool" where
  "source_is src W g \<longleftrightarrow> (\<forall>k w. W w \<longrightarrow> (\<exists>w'. getter_fn g k w = (Ret (src k), w') \<and> W w'))"

definition peer_agrees ::
  "(string \<Rightarrow> string + bytes) \<Rightarrow> ('w \<Rightarrow> bool) \<Rightarrow> string \<Rightarrow> string \<Rightarrow> 'w peer_getter \<Rightarrow> bool" where
  "peer_agrees src W nm k p \<longleftrightarrow>
     (\<forall>w. W w \<longrightarrow> (\<exists>x w'. p \<lparr>req_Group = nm, req_Key = k\<rparr> w = (Ret x, w') \<and> W w' \<and>
        (\<forall>res. x = Inr res \<longrightarrow> src k = Inr (resp_Value res))))"

definition peers_agree :: "(string \<Rightarrow> string + bytes) \<Rightarrow> ('w \<Rightarrow> bool) \<Rightarrow> 'w Group \<Rightarrow> bool" where
  "peers_agree src W g \<longleftrightarrow> (\<forall>pick k w. peers g = Some pick \<longrightarrow> W w \<longrightarrow>
     (\<exists>x. pick k w = Ret x \<and> (\<forall>p. x = Some p \<longrightarrow> peer_agrees src W (gname g) k p)))"

definition group_ok ::
  "int64 \<Rightarrow> (string \<Rightarrow> string + bytes) \<Rightarrow> ('w \<Rightarrow> bool) \<Rightarrow> 'w Group \<Rightarrow> bool" where
  "group_ok m src W g \<longleftrightarrow> cache_inv m (mainCache g) \<and> (\<forall>k. sf_m (loader g) k = None) \<and>
     source_is src W g \<and> peers_agree src W g \<and>
     (\<forall>k v. cache_find (mainCache g) k = Some v \<longrightarrow> src k = Inr (bv_b v))"

definition src_room :: "int64 \<Rightarrow> (string \<Rightarrow> string + bytes) \<Rightarrow> bool" where
  "src_room m src \<longleftrightarrow> (\<forall>k bs. src k = Inr bs \<longrightarrow> cache_room m k \<lparr>bv_b = bs\<rparr>)"

definition as_view :: "string + bytes \<Rightarrow> string + ByteView" where
  "as_view = map_sum id (\<lambda>bs. \<lparr>bv_b = bs\<rparr>)"

lemma group_ok_upd:
  assumes "group_ok m src W g" and "cache_inv m c"
    and "\<And>k v. cache_find c k = Some v \<Longrightarrow> src k = Inr (bv_b v)"
  shows "group_ok m src W (g\<lparr>mainCache := c\<rparr>)"
  using assms by (simp add: group_ok_def source_is_def peers_agree_def)

lemma getLocally_ok:
  assumes "group_ok m src W g" and "src_room m src" and "W w"
  shows "\<exists>g' w'. getLocally key (g, w) = (Ret (as_view (src key)), g', w') \<and> group_ok m src W g' \<and> W w' \<and>
    loader g' = loader g"
proof -
  have inv: "cache_inv m (mainCache g)" using assms(1) by (simp add: group_ok_def)
  obtain w' where w': "getter_fn g key w = (Ret (src key), w')" "W w'"
    using assms(1,3) unfolding group_ok_def source_is_def by metis
  show ?thesis
  proof (cases "src key")
    case (Inl e)
    with w' assms(1) show ?thesis by (simp add: getLocally_def as_view_def)
  next
    case (Inr bs)
    then have room: "cache_room m key \<lparr>bv_b = bs\<rparr>" using assms(2) by (simp add: src_room_def)
    obtain c where c: "cache_add key \<lparr>bv_b = bs\<rparr> (mainCache g) = Some c"
      "getLocally key (g, w) = (Ret (Inr \<lparr>bv_b = bs\<rparr>), g\<lparr>mainCache := c\<rparr>, w')"
      using getLocally_caches [OF inv room] w' Inr by auto
    have "src k = Inr (bv_b v)" if "cache_find c k = Some v" for k v
      by (rule bc.add_coherent [OF inv room c(1) _ _ that, of "\<lambda>k v. src k = Inr (bv_b v)"])
        (use assms(1) Inr in \<open>simp_all add: group_ok_def\<close>)
    then have "group_ok m src W (g\<lparr>mainCache := c\<rparr>)"
      using group_ok_upd [OF assms(1) bc.add_inv [OF inv room c(1)]] by blast
    with c(2) Inr w'(2) show ?thesis by (simp add: as_view_def)
  qed
qed

lemma load_fn_ok:
  assumes "group_ok m src W g" and "src_room m src" and "W w"
  shows "\<exists>g' w'. load_fn key (g, w) = (Ret (as_view (src key)), g', w') \<and> group_ok m src W g' \<and> W w' \<and>
    loader g' = loader g"
proof (cases "peers g")
  case None
  with getLocally_ok [OF assms] show ?thesis by (simp add: load_fn_def)
next
  case (Some pick)
  with assms(1) obtain picked where p: "pick key w = Ret picked"
    "\<And>p. picked = Some p \<Longrightarrow> peer_agrees src W (gname g) key p"
    using assms(3) unfolding group_ok_def peers_agree_def by metis
  show ?thesis
  proof (cases picked)
    case None
    with getLocally_ok [OF assms] p(1) show ?thesis by (simp add: load_fn_def Some)
  next
    case peer: (Some pr)
    from p(2) [OF peer] assms(3) obtain x w1 where
      x: "pr \<lparr>req_Group = gname g, req_Key = key\<rparr> w = (Ret x, w1)"
      "\<And>res. x = Inr res \<Longrightarrow> src key = Inr (resp_Value res)" "W w1"
      unfolding peer_agrees_def by metis
    show ?thesis
    proof (cases x)
      case (Inl e)
      with getLocally_ok [OF assms(1,2) x(3)] p(1) x(1) peer show ?thesis
        by (simp add: load_fn_def Some getFromPeer_result)
    next
      case (Inr res)
      with assms(1) p(1) x peer show ?thesis
        by (simp add: load_fn_def Some getFromPeer_result as_view_def)
    qed
  qed
qed

lemma Do_alone_m: "sf_m l key = None \<Longrightarrow> sf_m (Do_alone t key r l) = sf_m l"
  by (rule Do_alone_result)

lemma load_ok:
  assumes "group_ok m src W g" and "src_room m src" and "W w"
  shows "\<exists>g' w'. load key (g, w) = (Ret (as_view (src key)), g', w') \<and> group_ok m src W g' \<and> W w'"
proof -
  have idle: "sf_m (loader g) k = None" for k using assms(1) by (simp add: group_ok_def)
  from load_fn_ok [OF assms, of key] obtain g' w' where
    F: "load_fn key (g, w) = (Ret (as_view (src key)), g', w')" "group_ok m src W g'" "W w'" by blast
  let ?l = "Do_alone (sf_nxt (loader g)) key (as_view (src key)) (loader g)"
  have "load key (g, w) = (Ret (as_view (src key)), g'\<lparr>loader := ?l\<rparr>, w')"
    by (simp add: load_idle idle F(1) Let_def)
  moreover have "group_ok m src W (g'\<lparr>loader := ?l\<rparr>)"
    using F(2) idle by (simp add: group_ok_def source_is_def peers_agree_def Do_alone_m)
  ultimately show ?thesis using F(3) by blast
qed

lemma Get_ok:
  assumes "group_ok m src W g" and "src_room m src" and "W w"
  shows "\<exists>g' w'. Group_Get key (g, w) =
      (Ret (if key = '''' then Inl need_key else as_view (src key)), g', w') \<and> group_ok m src W g' \<and> W w'"
proof (cases "key = ''''")
  case True
  with assms(1,3) show ?thesis by (simp add: Group_Get_def)
next
  case False
  have inv: "cache_inv m (mainCache g)" using assms(1) by (simp add: group_ok_def)
  obtain r c where C: "cache_get key (mainCache g) = (r, c)" by fastforce
  have ok: "group_ok m src W (g\<lparr>mainCache := c\<rparr>)"
    using group_ok_upd [OF assms(1), of c] bc.get_inv [OF inv, of key] bc.get_contents [OF inv, of key]
      assms(1) C by (simp add: group_ok_def)
  show ?thesis
  proof (cases r)
    case None
    with load_ok [OF ok assms(2,3), of key] False C show ?thesis by (simp add: Group_Get_def)
  next
    case (Some v)
    have "src key = Inr (bv_b v)"
      using bc.get_result [OF inv, of key] C Some assms(1) by (simp add: group_ok_def)
    then have "as_view (src key) = Inr v" by (simp add: as_view_def)
    with ok False C Some assms(3) show ?thesis by (simp add: Group_Get_def)
  qed
qed

fun Group_Gets :: "string list \<Rightarrow> 'w Group \<times> 'w \<Rightarrow> (string + ByteView) outcome list \<times> 'w Group \<times> 'w" where
  "Group_Gets [] s = ([], s)"
| "Group_Gets (k # ks) s =
     (let (r, s1) = Group_Get k s; (rs, s2) = Group_Gets ks s1 in (r # rs, s2))"

lemma Gets_ok:
  assumes "group_ok m src W g" and "src_room m src" and "W w"
  shows "fst (Group_Gets ks (g, w)) =
    map (\<lambda>k. Ret (if k = '''' then Inl need_key else as_view (src k))) ks"
  using assms(1,3)
proof (induction ks arbitrary: g w)
  case Nil
  then show ?case by simp
next
  case (Cons k ks)
  obtain g' w' where G: "Group_Get k (g, w) =
      (Ret (if k = '''' then Inl need_key else as_view (src k)), g', w')" "group_ok m src W g'" "W w'"
    using Get_ok [OF Cons.prems(1) assms(2) Cons.prems(2)] by blast
  from Cons.IH [OF G(2,3)] G(1) show ?case by (simp add: case_prod_beta Let_def)
qed

section \<open>Properties\<close>
text \<open>
  C5: A group is transparent: whatever sequence of keys is asked for, each answer, value or
  error, is the one the source gives for that key; it does not matter what was cached or
  evicted before or which peers answered and which failed. The source may change the world
  and the peers may fail at any time, but a peer that answers gives the source's answer.
\<close>

theorem Group_Get_transparent:
  assumes "group_ok m src W g" and "src_room m src" and "W w"
  shows "fst (Group_Gets ks (g, w)) =
    map (\<lambda>k. Ret (if k = '''' then Inl need_key else as_view (src k))) ks"
  by (rule Gets_ok [OF assms])

text \<open>A source that counts the calls it gets, and a group over it.\<close>

definition demo_src :: "string \<Rightarrow> string + bytes" where
  "demo_src k = (if k = ''Tom'' then Inr ''630'' else Inl ''not exist'')"

definition demo_peer :: "nat peer_getter" where
  "demo_peer req n = (if n = 0 then Ret (Inl ''refused'')
     else Ret (map_sum id (\<lambda>bs. \<lparr>resp_Value = bs\<rparr>) (demo_src (req_Key req))), Suc n)"

definition demo_group :: "nat peer_picker option \<Rightarrow> nat Group" where
  "demo_group ps = \<lparr>gname = ''scores'', getter_fn = (\<lambda>k n. (Ret (demo_src k), Suc n)),
     mainCache = new_cache 2048, peers = ps, loader = sf_init\<rparr>"

lemma demo_room: "src_room 2048 demo_src"
  by (simp add: src_room_def demo_src_def cache_room_def item_size_def ByteView_Len_def)

lemma demo_inv: "cache_inv 2048 (new_cache 2048)"
  by (rule new_cache_inv) simp

lemma demo_group_ok: "group_ok 2048 demo_src (\<lambda>_. True) (demo_group (Some (\<lambda>_ _. Ret (Some demo_peer))))"
proof -
  have "peer_agrees demo_src (\<lambda>_. True) nm k demo_peer" for nm k
    by (auto simp: peer_agrees_def demo_peer_def demo_src_def)
  then show ?thesis
    using demo_inv by (simp add: group_ok_def demo_group_def source_is_def peers_agree_def sf_init_def)
qed

theorem Group_Get_transparent_witness:
  "fst (Group_Gets [''Tom'', ''Sam'', '''', ''Tom''] (demo_group (Some (\<lambda>_ _. Ret (Some demo_peer))), 0)) =
     [Ret (Inr \<lparr>bv_b = ''630''\<rparr>), Ret (Inl ''not exist''), Ret (Inl need_key), Ret (Inr \<lparr>bv_b = ''630''\<rparr>)]"
  unfolding Group_Get_transparent [OF demo_group_ok demo_room TrueI]
  by (simp add: as_view_def demo_src_def)

lemma Get_hit:
  assumes "cache_inv m (mainCache g)" and "cache_find (mainCache g) key = Some v" and "key \<noteq> ''''"
  shows "\<exists>c. Group_Get key (g, w) = (Ret (Inr v), g\<lparr>mainCache := c\<rparr>, w) \<and> cache_inv m c \<and>
    cache_find c = cache_find (mainCache g)"
  using bc.get_result [OF assms(1), of key] bc.get_inv [OF assms(1), of key]
    bc.get_contents [OF assms(1), of key] assms(2,3)
  by (cases "cache_get key (mainCache g)") (auto simp: Group_Get_def)

lemma Get_miss:
  assumes "cache_inv m (mainCache g)" and "cache_find (mainCache g) key = None" and "key \<noteq> ''''"
  shows "\<exists>c. Group_Get key (g, w) = load key (g\<lparr>mainCache := c\<rparr>, w) \<and> cache_inv m c \<and>
    cache_find c = cache_find (mainCache g)"
  using bc.get_result [OF assms(1), of key] bc.get_inv [OF assms(1), of key]
    bc.get_contents [OF assms(1), of key] assms(2,3)
  by (cases "cache_get key (mainCache g)") (auto simp: Group_Get_def)

lemma Get_from_peer:
  assumes "cache_inv m (mainCache g)" and "cache_find (mainCache g) key = None" and "key \<noteq> ''''"
    and "sf_m (loader g) key = None" and "peers g = Some pick" and "pick key w = Ret (Some p)"
    and "p \<lparr>req_Group = gname g, req_Key = key\<rparr> w = (Ret (Inr res), w1)"
  shows "\<exists>c l. Group_Get key (g, w) =
      (Ret (Inr \<lparr>bv_b = resp_Value res\<rparr>), g\<lparr>mainCache := c, loader := l\<rparr>, w1) \<and>
    sf_m l = sf_m (loader g) \<and> cache_find c = cache_find (mainCache g)"
proof -
  obtain c where c: "Group_Get key (g, w) = load key (g\<lparr>mainCache := c\<rparr>, w)"
    "cache_find c = cache_find (mainCache g)"
    using Get_miss [OF assms(1-3)] by blast
  let ?l = "Do_alone (sf_nxt (loader g)) key (Inr \<lparr>bv_b = resp_Value res\<rparr>) (loader g)"
  have "load key (g\<lparr>mainCache := c\<rparr>, w) = (Ret (Inr \<lparr>bv_b = resp_Value res\<rparr>),
      g\<lparr>mainCache := c, loader := ?l\<rparr>, w1)"
    using assms(4-7) by (simp add: load_idle load_fn_def getFromPeer_result Let_def)
  then show ?thesis
    by (intro exI [of _ c] exI [of _ ?l]) (simp add: c Do_alone_m [OF assms(4)])
qed

lemma load_local:
  assumes "peers g = None" and "cache_inv m (mainCache g)" and "sf_m (loader g) key = None"
    and "load key (g, w) = (Ret (Inr v), g1, w1)" and "cache_room m key v"
  shows "cache_inv m (mainCache g1) \<and>
    (item_size ByteView_Len (key, v) \<le> sint m \<longrightarrow> cache_find (mainCache g1) key = Some v)"
proof -
  obtain r w2 where G: "getter_fn g key w = (r, w2)" by fastforce
  have "\<exists>bs. r = Ret (Inr bs) \<and> v = \<lparr>bv_b = bs\<rparr>"
  proof (cases r)
    case (Ret x)
    then show ?thesis using assms(1,3,4) G
      by (cases x) (auto simp: load_idle load_fn_def getLocally_def populateCache_def Let_def
          split: option.splits)
  qed (use assms(1,3,4) G in \<open>simp_all add: load_idle load_fn_def getLocally_def Let_def\<close>)
  then obtain bs where bs: "r = Ret (Inr bs)" "v = \<lparr>bv_b = bs\<rparr>" by blast
  obtain c where c: "cache_add key v (mainCache g) = Some c"
    "getLocally key (g, w) = (Ret (Inr v), g\<lparr>mainCache := c\<rparr>, w2)"
    using getLocally_caches [OF assms(2), of key bs w w2] assms(5) G bs by auto
  then have "mainCache g1 = c"
    using assms(1,3,4) by (auto simp: load_idle load_fn_def Let_def)
  with c(1) bc.add_inv [OF assms(2,5)] cache_add_keeps [OF assms(2,5)] show ?thesis by blast
qed

text \<open>
  Without peers the source is asked once: after a \<open>Get\<close> that answered with a value that
  fits the cache, the next \<open>Get\<close> of that key gives the same value and leaves the world as it
  is, so the source, which here may answer differently each time, was not called.
\<close>

theorem Group_Get_hits_after_load:
  assumes "cache_inv m (mainCache g)" and "sf_m (loader g) key = None" and "peers g = None"
    and "Group_Get key (g, w) = (Ret (Inr v), g1, w1)"
    and "cache_room m key v" and "item_size ByteView_Len (key, v) \<le> sint m"
  shows "\<exists>g2. Group_Get key (g1, w2) = (Ret (Inr v), g2, w2)"
proof -
  have key: "key \<noteq> ''''" using assms(4) by (auto simp: Group_Get_def)
  have "cache_inv m (mainCache g1) \<and> cache_find (mainCache g1) key = Some v"
  proof (cases "cache_find (mainCache g) key")
    case None
    from Get_miss [OF assms(1) None key, of w] obtain c where
      c: "load key (g\<lparr>mainCache := c\<rparr>, w) = (Ret (Inr v), g1, w1)" "cache_inv m c"
      using assms(4) by auto
    with load_local [of "g\<lparr>mainCache := c\<rparr>" m key w v g1 w1] assms(2,3,5,6) show ?thesis by simp
  next
    case (Some u)
    from Get_hit [OF assms(1) this key, of w] assms(4) Some show ?thesis by auto
  qed
  with Get_hit [of m g1 key v w2] key show ?thesis by blast
qed

theorem Group_Get_hits_after_load_witness:
  "\<exists>g1 g2. Group_Get ''Tom'' (demo_group None, 0) = (Ret (Inr \<lparr>bv_b = ''630''\<rparr>), g1, 1) \<and>
     Group_Get ''Tom'' (g1, 1) = (Ret (Inr \<lparr>bv_b = ''630''\<rparr>), g2, 1)"
proof -
  have inv: "cache_inv 2048 (mainCache (demo_group None))" using demo_inv by (simp add: demo_group_def)
  have room: "cache_room 2048 ''Tom'' \<lparr>bv_b = ''630''\<rparr>"
    "item_size ByteView_Len (''Tom'', \<lparr>bv_b = ''630''\<rparr>) \<le> sint (2048 :: int64)"
    by (simp_all add: cache_room_def item_size_def ByteView_Len_def)
  have idle: "sf_m (loader (demo_group None)) ''Tom'' = None" "peers (demo_group None) = None"
    by (simp_all add: demo_group_def sf_init_def)
  have "\<exists>g1. Group_Get ''Tom'' (demo_group None, 0) = (Ret (Inr \<lparr>bv_b = ''630''\<rparr>), g1, 1)"
  proof -
    have miss: "cache_find (mainCache (demo_group None)) ''Tom'' = None" by (simp add: demo_group_def)
    obtain c where c: "Group_Get ''Tom'' (demo_group None, 0) =
        load ''Tom'' (demo_group None\<lparr>mainCache := c\<rparr>, 0)" "cache_inv 2048 c"
      using Get_miss [OF inv miss, of 0] by auto
    have "cache_inv 2048 (mainCache (demo_group None\<lparr>mainCache := c\<rparr>))" using c(2) by simp
    from getLocally_caches [OF this room(1), of 0 1] obtain c' where
      "getLocally ''Tom'' (demo_group None\<lparr>mainCache := c\<rparr>, 0) =
        (Ret (Inr \<lparr>bv_b = ''630''\<rparr>), demo_group None\<lparr>mainCache := c'\<rparr>, 1)"
      by (auto simp: demo_group_def demo_src_def)
    with c(1) idle show ?thesis by (simp add: load_idle load_fn_def Let_def)
  qed
  then obtain g1 where g1: "Group_Get ''Tom'' (demo_group None, 0) = (Ret (Inr \<lparr>bv_b = ''630''\<rparr>), g1, 1)"
    by blast
  with Group_Get_hits_after_load [OF inv idle(1,2) g1 room, of 1] show ?thesis by blast
qed

text \<open>
  On a miss, the peer that owns the key is asked before the source. If it answers, the
  answer is returned, the source is not called and the cache is not changed, so a remote value
  is never kept locally; if it fails, its error is dropped and the request goes on exactly as
  one without a peer, in the world the failed attempt left.
\<close>

theorem Group_Get_asks_peer_first:
  assumes "cache_inv m (mainCache g)" and "cache_find (mainCache g) key = None" and "key \<noteq> ''''"
    and "sf_m (loader g) key = None" and "peers g = Some pick" and "pick key w = Ret (Some p)"
    and "p \<lparr>req_Group = gname g, req_Key = key\<rparr> w = (Ret x, w1)"
  shows "\<exists>c l. sf_m l = sf_m (loader g) \<and> cache_find c = cache_find (mainCache g) \<and>
    (case x of
       Inr res \<Rightarrow> Group_Get key (g, w) =
         (Ret (Inr \<lparr>bv_b = resp_Value res\<rparr>), g\<lparr>mainCache := c, loader := l\<rparr>, w1)
     | Inl e \<Rightarrow> \<forall>y g' w'. getLocally key (g\<lparr>mainCache := c\<rparr>, w1) = (Ret y, g', w') \<longrightarrow>
         (\<exists>l'. sf_m l' = sf_m (loader g) \<and> Group_Get key (g, w) = (Ret y, g'\<lparr>loader := l'\<rparr>, w')))"
proof (cases x)
  case (Inr res)
  with Get_from_peer [OF assms(1-6)] assms(7) show ?thesis by auto
next
  case (Inl e)
  obtain c where c: "Group_Get key (g, w) = load key (g\<lparr>mainCache := c\<rparr>, w)"
    "cache_find c = cache_find (mainCache g)"
    using Get_miss [OF assms(1-3)] by blast
  let ?l = "\<lambda>r. Do_alone (sf_nxt (loader g)) key r (loader g)"
  have m: "sf_m (?l r) = sf_m (loader g)" for r using assms(4) by (rule Do_alone_m)
  have "load key (g\<lparr>mainCache := c\<rparr>, w) = (Ret y, g'\<lparr>loader := ?l y\<rparr>, w')"
      if "getLocally key (g\<lparr>mainCache := c\<rparr>, w1) = (Ret y, g', w')" for y g' w'
      using assms(4-7) that Inl by (simp add: load_idle load_fn_def getFromPeer_result Let_def)
  then have "\<exists>l'. sf_m l' = sf_m (loader g) \<and> Group_Get key (g, w) = (Ret y, g'\<lparr>loader := l'\<rparr>, w')"
      if "getLocally key (g\<lparr>mainCache := c\<rparr>, w1) = (Ret y, g', w')" for y g' w'
      using that m [of y] c(1) by (intro exI [of _ "?l y"]) simp
  then show ?thesis
    by (intro exI [of _ c] exI [of _ "loader g"]) (simp add: Inl c(2))
qed

theorem Group_Get_asks_peer_first_witness:
  "\<exists>g1. Group_Get ''Tom'' (demo_group (Some (\<lambda>_ _. Ret (Some demo_peer))), 7) =
      (Ret (Inr \<lparr>bv_b = ''630''\<rparr>), g1, 8) \<and> cache_find (mainCache g1) = Map.empty"
proof -
  let ?g = "demo_group (Some (\<lambda>_ _. Ret (Some demo_peer)))"
  have "cache_inv 2048 (mainCache ?g)" "cache_find (mainCache ?g) ''Tom'' = None" "''Tom'' \<noteq> ''''"
    "sf_m (loader ?g) ''Tom'' = None" "peers ?g = Some (\<lambda>_ _. Ret (Some demo_peer))"
    "(\<lambda>_ _. Ret (Some demo_peer)) ''Tom'' (7::nat) = Ret (Some demo_peer)"
    "demo_peer \<lparr>req_Group = gname ?g, req_Key = ''Tom''\<rparr> 7 = (Ret (Inr \<lparr>resp_Value = ''630''\<rparr>), 8)"
    using demo_inv by (simp_all add: demo_group_def sf_init_def demo_peer_def demo_src_def)
  from Group_Get_asks_peer_first [OF this] show ?thesis by (auto simp: demo_group_def)
qed



section \<open>The table\<close>

text \<open>Names lead to groups of that name; what is allocated lies below the next pointer.\<close>

definition table_ok :: "'w group_table \<Rightarrow> bool" where
  "table_ok T \<longleftrightarrow> (\<forall>nm p. groups T nm = Some p \<longrightarrow> (\<exists>g. group_at T p = Some g \<and> gname g = nm)) \<and>
     (\<forall>p. group_at T p \<noteq> None \<longrightarrow> p < group_nxt T)"

lemma no_groups_ok: "table_ok no_groups"
  by (simp add: table_ok_def no_groups_def)

text \<open>
  \<open>NewGroup\<close> panics on a nil source and changes nothing; otherwise it makes an empty group
  without peers that \<open>GetGroup\<close> finds under its name, also when the name was taken before, and
  every other name and every group made before stay as they are. The table stays well formed,
  so \<open>GetGroup\<close> never gives a group of another name.
\<close>

theorem NewGroup_then_GetGroup:
  assumes "table_ok T"
  shows "case NewGroup nm cap gt T of
      (Panic m, T') \<Rightarrow> gt = None \<and> T' = T
    | (Hang, T') \<Rightarrow> False
    | (Ret p, T') \<Rightarrow> table_ok T' \<and> GetGroup nm T' = Some p \<and> group_at T p = None \<and>
        (\<exists>g f. gt = Some f \<and> group_at T' p = Some g \<and> gname g = nm \<and> getter_fn g = f \<and>
           peers g = None \<and> cache_find (mainCache g) = Map.empty) \<and>
        (\<forall>nm'. nm' \<noteq> nm \<longrightarrow> GetGroup nm' T' = GetGroup nm' T) \<and>
        (\<forall>q. q \<noteq> p \<longrightarrow> group_at T' q = group_at T q)"
proof (cases gt)
  case None
  then show ?thesis by (simp add: NewGroup_def)
next
  case (Some f)
  have old: "group_at T p \<noteq> None \<Longrightarrow> p < group_nxt T" for p
    using assms unfolding table_ok_def by blast
  then have fresh: "group_at T (group_nxt T) = None" by blast
  have "table_ok (snd (NewGroup nm cap gt T))"
    using assms fresh less_SucI [OF old] unfolding table_ok_def
    by (auto simp: NewGroup_def Some Let_def) (metis option.distinct(1))
  with fresh show ?thesis
    by (simp add: NewGroup_def Some Let_def GetGroup_def)
qed

theorem NewGroup_then_GetGroup_witness:
  "\<exists>p. GetGroup ''scores'' (snd (NewGroup ''scores'' 2048 (Some (getter_fn (demo_group None))) no_groups)) = Some p"
proof -
  obtain r T' where N: "NewGroup ''scores'' 2048 (Some (getter_fn (demo_group None))) no_groups = (r, T')"
    by fastforce
  show ?thesis
    using NewGroup_then_GetGroup [OF no_groups_ok, where nm = "''scores''" and cap = 2048
        and gt = "Some (getter_fn (demo_group None))"]
    unfolding N by (cases r) auto
qed

end
