(* ===== verification/Go_Strings.thy ===== *)
theory Go_Strings
  imports Prelude
begin

text \<open>
  The functions of Go's standard library on strings that the program calls, on byte strings:
  \<open>strconv.Itoa\<close>, \<open>strings.Split\<close>, \<open>SplitN\<close>, \<open>Join\<close>, \<open>LastIndex\<close>, \<open>HasPrefix\<close> and
  \<open>TrimSpace\<close>, and \<open>hash/crc32.ChecksumIEEE\<close>. The separators the program uses are single
  bytes, so the separator is a \<open>char\<close>.
\<close>

section \<open>strconv\<close>

definition digit_char :: "nat \<Rightarrow> char" where
  "digit_char d = ''0123456789'' ! d"

fun Itoa :: "nat \<Rightarrow> string" where
  "Itoa n = (if n < 10 then [digit_char n] else Itoa (n div 10) @ [digit_char (n mod 10)])"

declare Itoa.simps [simp del]

section \<open>Splitting and joining\<close>

fun strings_Split :: "char \<Rightarrow> string \<Rightarrow> string list" where
  "strings_Split sep [] = [[]]"
| "strings_Split sep (c # s) =
     (if c = sep then [] # strings_Split sep s
      else case strings_Split sep s of
             [] \<Rightarrow> [[c]]
           | p # ps \<Rightarrow> (c # p) # ps)"

text \<open>\<open>strings.SplitN(s, sep, 2)\<close>: at the first separator, if there is one.\<close>

fun strings_Split2 :: "char \<Rightarrow> string \<Rightarrow> string list" where
  "strings_Split2 sep [] = [[]]"
| "strings_Split2 sep (c # s) =
     (if c = sep then [[], s]
      else case strings_Split2 sep s of
             [] \<Rightarrow> [[c]]
           | p # ps \<Rightarrow> (c # p) # ps)"

fun strings_Join :: "string list \<Rightarrow> char \<Rightarrow> string" where
  "strings_Join [] sep = []"
| "strings_Join [s] sep = s"
| "strings_Join (s # ss) sep = s @ sep # strings_Join ss sep"

text \<open>The index of the last occurrence of a byte; Go's -1 is \<open>None\<close>.\<close>

fun strings_LastIndex :: "string \<Rightarrow> char \<Rightarrow> nat option" where
  "strings_LastIndex [] c = None"
| "strings_LastIndex (x # s) c =
     (case strings_LastIndex s c of
        Some i \<Rightarrow> Some (Suc i)
      | None \<Rightarrow> if x = c then Some 0 else None)"

definition strings_HasPrefix :: "string \<Rightarrow> string \<Rightarrow> bool" where
  "strings_HasPrefix s p \<longleftrightarrow> take (length p) s = p"

lemma strings_Split_nonempty [simp]: "strings_Split sep s \<noteq> []"
  by (induction s) (auto split: list.split)

lemma strings_Split_no_sep: "sep \<notin> set s \<Longrightarrow> strings_Split sep s = [s]"
  by (induction s) auto

lemma strings_Split_append:
  "sep \<notin> set p \<Longrightarrow> strings_Split sep (p @ sep # s) = p # strings_Split sep s"
  by (induction p) auto

lemma strings_Split_Join:
  assumes "ss \<noteq> []" and "\<forall>s \<in> set ss. sep \<notin> set s"
  shows "strings_Split sep (strings_Join ss sep) = ss"
  using assms
  by (induction ss sep rule: strings_Join.induct) (auto simp: strings_Split_no_sep strings_Split_append)

lemma strings_Join_Split: "strings_Join (strings_Split sep s) sep = s"
proof (induction s)
  case Nil
  then show ?case by simp
next
  case (Cons c s)
  obtain p ps where "strings_Split sep s = p # ps"
    using strings_Split_nonempty [of sep s] by (cases "strings_Split sep s") auto
  with Cons show ?case by (cases ps) auto
qed

lemma strings_Split2_no_sep: "sep \<notin> set s \<Longrightarrow> strings_Split2 sep s = [s]"
  by (induction s) auto

lemma strings_Split2_append:
  "sep \<notin> set p \<Longrightarrow> strings_Split2 sep (p @ sep # s) = [p, s]"
  by (induction p) auto

lemma strings_Split2_cases:
  "strings_Split2 sep s = (if sep \<in> set s then [takeWhile (\<lambda>c. c \<noteq> sep) s,
     tl (dropWhile (\<lambda>c. c \<noteq> sep) s)] else [s])"
  by (induction s) auto

lemma strings_LastIndex_None: "strings_LastIndex s c = None \<longleftrightarrow> c \<notin> set s"
  by (induction s) (auto split: option.split)

lemma strings_LastIndex_append:
  "c \<notin> set q \<Longrightarrow> strings_LastIndex (p @ c # q) c = Some (length p)"
  using strings_LastIndex_None [of q c] by (induction p) auto

lemma strings_LastIndex_Some:
  "strings_LastIndex s c = Some i \<Longrightarrow> i < length s \<and> s ! i = c \<and> c \<notin> set (drop (Suc i) s)"
proof (induction s arbitrary: i)
  case Nil
  then show ?case by simp
next
  case (Cons x s)
  then show ?case
    by (auto simp: strings_LastIndex_None split: option.splits if_splits)
qed

section \<open>TrimSpace\<close>

text \<open>
  The encodings of the white space characters of Unicode, as \<open>unicode.IsSpace\<close> has them:
  the ASCII ones, U+0085, U+00A0, U+1680, U+2000 to U+200A, U+2028, U+2029, U+202F, U+205F
  and U+3000.
\<close>

definition space_encodings :: "string list" where
  "space_encodings =
     [[CHR 0x09], [CHR 0x0A], [CHR 0x0B], [CHR 0x0C], [CHR 0x0D], [CHR 0x20],
      [CHR 0xC2, CHR 0x85], [CHR 0xC2, CHR 0xA0], [CHR 0xE1, CHR 0x9A, CHR 0x80],
      [CHR 0xE2, CHR 0x80, CHR 0xA8], [CHR 0xE2, CHR 0x80, CHR 0xA9],
      [CHR 0xE2, CHR 0x80, CHR 0xAF], [CHR 0xE2, CHR 0x81, CHR 0x9F],
      [CHR 0xE3, CHR 0x80, CHR 0x80]] @
     map (\<lambda>c. [CHR 0xE2, CHR 0x80, c])
       [CHR 0x80, CHR 0x81, CHR 0x82, CHR 0x83, CHR 0x84, CHR 0x85, CHR 0x86, CHR 0x87,
        CHR 0x88, CHR 0x89, CHR 0x8A]"

definition strip_one :: "string list \<Rightarrow> string \<Rightarrow> string option" where
  "strip_one toks s =
     map_option (\<lambda>t. drop (length t) s) (find (\<lambda>t. t \<noteq> [] \<and> take (length t) s = t) toks)"

lemma strip_one_shorter: "strip_one toks s = Some r \<Longrightarrow> length r < length s"
  by (auto simp: strip_one_def find_Some_iff)
    (metis diff_less length_greater_0_conv take_Nil)

function trim_left :: "string list \<Rightarrow> string \<Rightarrow> string" where
  "trim_left toks s = (case strip_one toks s of None \<Rightarrow> s | Some r \<Rightarrow> trim_left toks r)"
  by pat_completeness auto
termination
  by (relation "measure (\<lambda>(toks, s). length s)") (auto dest: strip_one_shorter)

declare trim_left.simps [simp del]

definition strings_TrimSpace :: "string \<Rightarrow> string" where
  "strings_TrimSpace s =
     rev (trim_left (map rev space_encodings) (rev (trim_left space_encodings s)))"

definition trimmed :: "string \<Rightarrow> bool" where
  "trimmed s \<longleftrightarrow> strip_one space_encodings s = None \<and>
     strip_one (map rev space_encodings) (rev s) = None"

lemma TrimSpace_trimmed: "trimmed s \<Longrightarrow> strings_TrimSpace s = s"
  by (simp add: trimmed_def strings_TrimSpace_def trim_left.simps)

lemma TrimSpace_Nil [simp]: "strings_TrimSpace [] = []"
proof -
  have "strip_one toks [] = None" for toks
    using strip_one_shorter [of toks "[]"] by (cases "strip_one toks []") auto
  then show ?thesis by (simp add: strings_TrimSpace_def trim_left.simps)
qed

section \<open>hash/crc32\<close>

text \<open>
  The IEEE checksum, reflected polynomial 0xEDB88320: one step per bit, the register
  complemented before and after.
\<close>

definition crc32_bit :: "uint32 \<Rightarrow> uint32" where
  "crc32_bit r = (if odd (unat r) then xor (drop_bit 1 r) 0xEDB88320 else drop_bit 1 r)"

definition crc32_byte :: "uint32 \<Rightarrow> char \<Rightarrow> uint32" where
  "crc32_byte r c = (crc32_bit ^^ 8) (xor r (word_of_nat (of_char c)))"

definition crc32_ChecksumIEEE :: "bytes \<Rightarrow> uint32" where
  "crc32_ChecksumIEEE bs = not (fold (\<lambda>c r. crc32_byte r c) bs (not 0))"

end
