(* ===== verification/Consistent_Hash.thy ===== *)
theory Consistent_Hash
  imports Go_Strings Ring_Interface
begin

text \<open>
  The consistent-hash ring of MyCache/consistenthash/consistenthash.go: \<open>Add\<close> puts the
  virtual nodes of each real node on the ring and sorts it, \<open>Get\<close> finds by binary search the
  first point at or after the hash of a key. The lemmas take the ring from the sorted list
  the code keeps to the set of its points: \<open>Get\<close> is the clockwise successor, whatever the
  order in which the points came.
\<close>

section \<open>State and operations\<close>

record hash_ring =
  hash_fn :: "bytes \<Rightarrow> uint32"
  replicas :: int
  ring_keys :: "int list"
  hashMap :: "int \<Rightarrow> string option"

text \<open>The constructor; a nil hash function is \<open>None\<close>.\<close>

definition ch_New :: "int \<Rightarrow> (bytes \<Rightarrow> uint32) option \<Rightarrow> hash_ring" where
  "ch_New n fn =
     (let m = \<lparr>hash_fn = (case fn of Some f \<Rightarrow> f | None \<Rightarrow> crc32_ChecksumIEEE),
               replicas = n, ring_keys = [], hashMap = Map.empty\<rparr>
      in m)"

definition ring_hash :: "hash_ring \<Rightarrow> bytes \<Rightarrow> int" where
  "ring_hash m s = uint (hash_fn m s)"

text \<open>The body of the inner loop, the inner loop over the replicas and the outer loop.\<close>

definition add_replica :: "string \<Rightarrow> nat \<Rightarrow> hash_ring \<Rightarrow> hash_ring" where
  "add_replica key i m =
     (let h = ring_hash m (Itoa i @ key);
          m1 = m\<lparr>ring_keys := ring_keys m @ [h]\<rparr>
      in m1\<lparr>hashMap := (hashMap m1)(h \<mapsto> key)\<rparr>)"

definition add_node :: "string \<Rightarrow> hash_ring \<Rightarrow> hash_ring" where
  "add_node key m = fold (add_replica key) [0..<nat (replicas m)] m"

definition ch_Add :: "string list \<Rightarrow> hash_ring \<Rightarrow> hash_ring" where
  "ch_Add ks m = (let m1 = fold add_node ks m in m1\<lparr>ring_keys := sort (ring_keys m1)\<rparr>)"

text \<open>\<open>sort.Search\<close> of Go's library: the smallest index at which a predicate holds.\<close>

function search_loop :: "(nat \<Rightarrow> bool) \<Rightarrow> nat \<Rightarrow> nat \<Rightarrow> nat" where
  "search_loop f i j =
     (if i < j then
        let h = (i + j) div 2
        in if \<not> f h then search_loop f (Suc h) j else search_loop f i h
      else i)"
  by pat_completeness auto
termination
  by (relation "measure (\<lambda>(f, i, j). j - i)") auto

declare search_loop.simps [simp del]

definition sort_Search :: "nat \<Rightarrow> (nat \<Rightarrow> bool) \<Rightarrow> nat" where
  "sort_Search n f = search_loop f 0 n"

text \<open>A missing key of a Go map of strings reads as the empty string.\<close>

definition ch_Get :: "string \<Rightarrow> hash_ring \<Rightarrow> string" where
  "ch_Get key m =
     (if length (ring_keys m) = 0 then ''''
      else
        let h = ring_hash m key;
            idx = sort_Search (length (ring_keys m)) (\<lambda>i. h \<le> ring_keys m ! i)
        in case hashMap m (ring_keys m ! (idx mod length (ring_keys m))) of
             Some s \<Rightarrow> s
           | None \<Rightarrow> '''')"

section \<open>Binary search\<close>

lemma search_loop_correct:
  assumes "i \<le> j" and "j \<le> n" and "\<And>a b. a \<le> b \<Longrightarrow> b < n \<Longrightarrow> f a \<Longrightarrow> f b"
    and "\<And>a. a < i \<Longrightarrow> \<not> f a" and "\<And>a. j \<le> a \<Longrightarrow> a < n \<Longrightarrow> f a"
  shows "search_loop f i j \<le> n \<and> (\<forall>a < search_loop f i j. \<not> f a) \<and>
    (\<forall>a < n. search_loop f i j \<le> a \<longrightarrow> f a)"
  using assms
proof (induction f i j rule: search_loop.induct)
  case (1 f i j)
  let ?h = "(i + j) div 2"
  note mono = "1.prems"(3) and below = "1.prems"(4) and above = "1.prems"(5)
  show ?case
  proof (cases "i < j")
    case False
    with "1.prems" have "i = j" by simp
    with "1.prems" show ?thesis by (subst (1 2 3) search_loop.simps) auto
  next
    case lt: True
    then have h: "i \<le> ?h" "?h < j" by auto
    then have hn: "?h < n" using "1.prems"(2) by simp
    show ?thesis
    proof (cases "f ?h")
      case True
      have "\<And>a. ?h \<le> a \<Longrightarrow> a < n \<Longrightarrow> f a" using mono True by blast
      with "1.IH"(2) [OF lt refl] True h hn mono below show ?thesis
        by (subst (1 2 3) search_loop.simps) (simp add: lt)
    next
      case False
      have "\<And>a. a < Suc ?h \<Longrightarrow> \<not> f a" using mono [of _ ?h] False hn by fastforce
      with "1.IH"(1) [OF lt refl False] False h "1.prems"(2) mono above show ?thesis
        by (subst (1 2 3) search_loop.simps) (simp add: lt)
    qed
  qed
qed

section \<open>The ring as a set of points\<close>

definition node_points :: "hash_ring \<Rightarrow> string \<Rightarrow> int list" where
  "node_points m key = map (\<lambda>i. ring_hash m (Itoa i @ key)) [0..<nat (replicas m)]"

fun place :: "(string \<Rightarrow> int list) \<Rightarrow> string list \<Rightarrow> (int \<Rightarrow> string option) \<Rightarrow> int \<Rightarrow> string option" where
  "place pts [] M = M"
| "place pts (k # ks) M = place pts ks (\<lambda>h. if h \<in> set (pts k) then Some k else M h)"

lemma ring_hash_update [simp]:
  "ring_hash (m\<lparr>ring_keys := x\<rparr>) = ring_hash m" "ring_hash (m\<lparr>hashMap := y\<rparr>) = ring_hash m"
  by (simp_all add: ring_hash_def fun_eq_iff)

lemma node_points_update [simp]:
  "node_points (m\<lparr>ring_keys := x\<rparr>) = node_points m" "node_points (m\<lparr>hashMap := y\<rparr>) = node_points m"
  by (simp_all add: node_points_def fun_eq_iff)

lemma fold_add_replica:
  "fold (add_replica key) is m =
     m\<lparr>ring_keys := ring_keys m @ map (\<lambda>i. ring_hash m (Itoa i @ key)) is,
       hashMap := (\<lambda>h. if h \<in> (\<lambda>i. ring_hash m (Itoa i @ key)) ` set is then Some key
                       else hashMap m h)\<rparr>"
proof (induction "is" arbitrary: m)
  case Nil
  then show ?case by simp
next
  case (Cons i "is")
  show ?case
    unfolding fold.simps comp_apply Cons.IH [of "add_replica key i m"]
    by (rule hash_ring.equality) (auto simp: add_replica_def Let_def)
qed

lemma add_node_eq:
  "add_node key m =
     m\<lparr>ring_keys := ring_keys m @ node_points m key,
       hashMap := (\<lambda>h. if h \<in> set (node_points m key) then Some key else hashMap m h)\<rparr>"
  by (simp add: add_node_def fold_add_replica node_points_def)

lemma fold_add_node:
  "fold add_node ks m =
     m\<lparr>ring_keys := ring_keys m @ concat (map (node_points m) ks),
       hashMap := place (node_points m) ks (hashMap m)\<rparr>"
  by (induction ks arbitrary: m) (simp_all add: add_node_eq)

lemma ch_Add_eq:
  "ch_Add ks m =
     m\<lparr>ring_keys := sort (ring_keys m @ concat (map (node_points m) ks)),
       hashMap := place (node_points m) ks (hashMap m)\<rparr>"
  by (simp add: ch_Add_def fold_add_node)

lemma place_cases:
  "place pts ks M h = (if \<exists>k \<in> set ks. h \<in> set (pts k) then place pts ks Map.empty h else M h)"
proof (induction ks arbitrary: M)
  case Nil
  then show ?case by simp
next
  case (Cons k ks)
  show ?case
    by (simp add: Cons.IH [of "\<lambda>h. if h \<in> set (pts k) then Some k else M h"]
        Cons.IH [of "\<lambda>h. if h \<in> set (pts k) then Some k else None"])
qed

lemma place_Some:
  "\<exists>k \<in> set ks. h \<in> set (pts k) \<Longrightarrow> \<exists>k \<in> set ks. place pts ks M h = Some k \<and> h \<in> set (pts k)"
proof (induction ks arbitrary: M)
  case Nil
  then show ?case by simp
next
  case (Cons k ks)
  show ?case
  proof (cases "\<exists>k \<in> set ks. h \<in> set (pts k)")
    case True
    then show ?thesis using Cons.IH by auto
  next
    case False
    with Cons.prems show ?thesis by (simp add: place_cases [of _ ks])
  qed
qed

text \<open>
  The invariant: the points are sorted, the map is defined on exactly the points, and a point
  belongs to a node one of whose virtual nodes hashes to it.
\<close>

definition ring_wf :: "hash_ring \<Rightarrow> bool" where
  "ring_wf m \<longleftrightarrow> sorted (ring_keys m) \<and> dom (hashMap m) = set (ring_keys m) \<and>
     (\<forall>h k. hashMap m h = Some k \<longrightarrow> h \<in> set (node_points m k))"

definition ring_nodes :: "hash_ring \<Rightarrow> string set" where
  "ring_nodes m = ran (hashMap m)"

definition clockwise :: "int set \<Rightarrow> int \<Rightarrow> int" where
  "clockwise S h = (if \<exists>x \<in> S. h \<le> x then Min {x \<in> S. h \<le> x} else Min S)"

lemma New_ring_wf: "ring_wf (ch_New n fn)" "ring_nodes (ch_New n fn) = {}"
  by (simp_all add: ring_wf_def ring_nodes_def ch_New_def)

lemma Add_ring_wf:
  assumes "ring_wf m"
  shows "ring_wf (ch_Add ks m)"
proof -
  have "dom (place (node_points m) ks (hashMap m)) =
      dom (hashMap m) \<union> (\<Union>k \<in> set ks. set (node_points m k))"
    using place_Some [of ks _ "node_points m"]
    by (auto simp: place_cases [of _ ks "hashMap m"] dom_def split: if_splits)
  moreover have "place (node_points m) ks (hashMap m) h = Some k \<Longrightarrow> h \<in> set (node_points m k)" for h k
    using place_Some [of ks h "node_points m" "hashMap m"] assms
    by (cases "\<exists>k \<in> set ks. h \<in> set (node_points m k)")
      (auto simp: ring_wf_def place_cases [of _ ks "hashMap m" h])
  ultimately show ?thesis
    using assms by (simp add: ring_wf_def ch_Add_eq)
qed

lemma nth_search_clockwise:
  fixes ks :: "int list"
  assumes "sorted ks" and "ks \<noteq> []"
  shows "ks ! (sort_Search (length ks) (\<lambda>i. h \<le> ks ! i) mod length ks) = clockwise (set ks) h"
proof -
  let ?n = "length ks" and ?f = "\<lambda>i. h \<le> ks ! i"
  define j where "j = sort_Search ?n ?f"
  have mono: "\<And>a b. a \<le> b \<Longrightarrow> b < ?n \<Longrightarrow> ?f a \<Longrightarrow> ?f b"
    using assms(1) by (meson order_trans sorted_nth_mono)
  have "search_loop ?f 0 ?n \<le> ?n \<and> (\<forall>a < search_loop ?f 0 ?n. \<not> ?f a) \<and>
      (\<forall>a < ?n. search_loop ?f 0 ?n \<le> a \<longrightarrow> ?f a)"
    by (rule search_loop_correct) (use mono in auto)
  then have j: "j \<le> ?n" "\<And>a. a < j \<Longrightarrow> \<not> ?f a" "\<And>a. a < ?n \<Longrightarrow> j \<le> a \<Longrightarrow> ?f a"
    by (auto simp: j_def sort_Search_def)
  show ?thesis
  proof (cases "\<exists>x \<in> set ks. h \<le> x")
    case True
    then obtain a where "a < ?n" "?f a" by (auto simp: in_set_conv_nth)
    then have "j < ?n" using j(2) [of a] by fastforce
    have "Min {x \<in> set ks. h \<le> x} = ks ! j"
    proof (rule Min_eqI)
      fix y
      assume "y \<in> {x \<in> set ks. h \<le> x}"
      then obtain b where "b < ?n" "y = ks ! b" "?f b" by (auto simp: in_set_conv_nth)
      then show "ks ! j \<le> y" using assms(1) j(2) [of b] by (meson not_le sorted_nth_mono)
    qed (use j(3) [of j] \<open>j < ?n\<close> in auto)
    then show ?thesis using True \<open>j < ?n\<close> by (simp add: clockwise_def j_def)
  next
    case False
    then have "j = ?n" using j(1) j(3) [of j] by (metis le_neq_implies_less le_refl nth_mem)
    moreover have "Min (set ks) = ks ! 0"
      using assms by (intro Min_eqI) (auto simp: in_set_conv_nth sorted_nth_mono)
    ultimately show ?thesis using False by (simp add: clockwise_def j_def)
  qed
qed

lemma clockwise_in: "finite S \<Longrightarrow> S \<noteq> {} \<Longrightarrow> clockwise S h \<in> S"
  using Min_in [of "{x \<in> S. h \<le> x}"] by (auto simp: clockwise_def)

lemma clockwise_mono:
  assumes "finite T" and "S \<subseteq> T" and "S \<noteq> {}" and "clockwise T h \<in> S"
  shows "clockwise S h = clockwise T h"
proof -
  have fin: "finite S" using assms(1,2) by (rule rev_finite_subset)
  show ?thesis
  proof (cases "\<exists>x \<in> T. h \<le> x")
    case True
    let ?t = "Min {x \<in> T. h \<le> x}"
    have t: "clockwise T h = ?t" using True by (simp add: clockwise_def)
    have "?t \<in> {x \<in> T. h \<le> x}" using assms(1) True by (intro Min_in) auto
    then have "?t \<in> {x \<in> S. h \<le> x}" using assms(4) t by simp
    moreover have "?t \<le> y" if "y \<in> {x \<in> S. h \<le> x}" for y
      using that assms(1,2) by (intro Min_le) auto
    ultimately have "Min {x \<in> S. h \<le> x} = ?t" using fin by (intro Min_eqI) auto
    then show ?thesis using \<open>?t \<in> {x \<in> S. h \<le> x}\<close> t by (auto simp: clockwise_def)
  next
    case False
    then have "\<not> (\<exists>x \<in> S. h \<le> x)" using assms(2) by blast
    moreover have "Min S = Min T"
      using False assms fin by (intro Min_eqI) (auto simp: clockwise_def intro: Min_le)
    ultimately show ?thesis using False by (simp add: clockwise_def)
  qed
qed

lemma Get_clockwise:
  assumes "ring_wf m" and "ring_keys m \<noteq> []"
  shows "hashMap m (clockwise (set (ring_keys m)) (ring_hash m key)) = Some (ch_Get key m)"
proof -
  let ?p = "clockwise (set (ring_keys m)) (ring_hash m key)"
  have "?p \<in> dom (hashMap m)"
    using assms clockwise_in [of "set (ring_keys m)"] by (simp add: ring_wf_def)
  moreover have "ch_Get key m = (case hashMap m ?p of Some s \<Rightarrow> s | None \<Rightarrow> '''')"
    using nth_search_clockwise [of "ring_keys m" "ring_hash m key"] assms
    by (simp add: ch_Get_def Let_def ring_wf_def)
  ultimately show ?thesis by auto
qed

lemma ring_nodes_empty:
  assumes "ring_wf m"
  shows "ring_nodes m = {} \<longleftrightarrow> ring_keys m = []"
proof -
  have "ran f = {} \<longleftrightarrow> dom f = {}" for f :: "int \<Rightarrow> string option"
    by (auto simp: ran_def dom_def) (metis not_Some_eq)
  then show ?thesis using assms by (metis ring_nodes_def ring_wf_def set_empty)
qed

lemma Add_locality:
  assumes "ring_wf m" and "ring_keys m \<noteq> []"
  shows "ch_Get key (ch_Add ks m) = ch_Get key m \<or> ch_Get key (ch_Add ks m) \<in> set ks"
proof -
  let ?m = "ch_Add ks m"
  let ?p = "clockwise (set (ring_keys ?m)) (ring_hash m key)"
  have ne: "ring_keys ?m \<noteq> []"
    using assms(2) by (auto simp: ch_Add_eq simp flip: set_empty)
  have "ring_hash ?m = ring_hash m" by (simp add: ch_Add_eq)
  with Get_clockwise [OF Add_ring_wf [OF assms(1)] ne]
  have G: "hashMap ?m ?p = Some (ch_Get key ?m)" by simp
  show ?thesis
  proof (cases "\<exists>k \<in> set ks. ?p \<in> set (node_points m k)")
    case True
    then show ?thesis using G place_Some [of ks ?p "node_points m" "hashMap m"] by (auto simp: ch_Add_eq)
  next
    case False
    then have old: "hashMap m ?p = Some (ch_Get key ?m)"
      using G by (simp add: ch_Add_eq place_cases [of _ ks "hashMap m"])
    then have "?p \<in> set (ring_keys m)" using assms(1) by (auto simp: ring_wf_def)
    then have "clockwise (set (ring_keys m)) (ring_hash m key) = ?p"
      using assms(2) by (intro clockwise_mono) (auto simp: ch_Add_eq)
    then show ?thesis using Get_clockwise [OF assms, of key] old by simp
  qed
qed

lemma Add_nodes:
  assumes "ring_wf m"
  shows "ring_nodes (ch_Add ks m) \<subseteq> ring_nodes m \<union> set ks"
proof
  fix k
  assume "k \<in> ring_nodes (ch_Add ks m)"
  then obtain h where h: "place (node_points m) ks (hashMap m) h = Some k"
    by (auto simp: ring_nodes_def ran_def ch_Add_eq)
  show "k \<in> ring_nodes m \<union> set ks"
  proof (cases "\<exists>k \<in> set ks. h \<in> set (node_points m k)")
    case True
    then show ?thesis using h place_Some [of ks h "node_points m" "hashMap m"] by auto
  next
    case False
    then show ?thesis using h by (auto simp: place_cases [of _ ks "hashMap m"] ring_nodes_def ran_def)
  qed
qed

interpretation ring: node_ring ring_wf ring_nodes ch_Get ch_Add
proof unfold_locales
  fix m k ks
  assume wf: "ring_wf m"
  show "ring_nodes m = {} \<Longrightarrow> ch_Get k m = ''''"
    by (simp add: ring_nodes_empty [OF wf] ch_Get_def)
  show "ring_nodes m \<noteq> {} \<Longrightarrow> ch_Get k m \<in> ring_nodes m"
    using Get_clockwise [OF wf, of k] unfolding ring_nodes_empty [OF wf]
    by (auto simp: ring_nodes_def intro: ranI)
  show "ring_nodes m \<noteq> {} \<Longrightarrow> ch_Get k (ch_Add ks m) = ch_Get k m \<or> ch_Get k (ch_Add ks m) \<in> set ks"
    using Add_locality [OF wf, of k ks] by (simp add: ring_nodes_empty [OF wf])
qed (simp_all add: Add_ring_wf Add_nodes)

section \<open>Rings that agree\<close>

lemma joins_frame:
  "hash_fn (fold ch_Add kss m) = hash_fn m \<and> replicas (fold ch_Add kss m) = replicas m"
  by (induction kss arbitrary: m) (simp_all add: ch_Add_eq)

lemma joins_points:
  "node_points (fold ch_Add kss m) = node_points m" "ring_hash (fold ch_Add kss m) = ring_hash m"
  using joins_frame [of kss m] by (simp_all add: node_points_def ring_hash_def fun_eq_iff)

lemma joins_keys:
  "set (ring_keys (fold ch_Add kss m)) =
     set (ring_keys m) \<union> (\<Union>k \<in> set (concat kss). set (node_points m k))"
proof (induction kss arbitrary: m)
  case Nil
  then show ?case by simp
next
  case (Cons ks kss)
  have "node_points (ch_Add ks m) = node_points m" using joins_points(1) [of "[ks]" m] by simp
  moreover have "set (ring_keys (ch_Add ks m)) =
      set (ring_keys m) \<union> (\<Union>k \<in> set ks. set (node_points m k))"
    by (simp add: ch_Add_eq)
  ultimately show ?case by (simp only: fold.simps comp_apply Cons.IH concat.simps set_append UN_Un Un_assoc)
qed

text \<open>No two different nodes share a point.\<close>

definition collision_free :: "hash_ring \<Rightarrow> string set \<Rightarrow> bool" where
  "collision_free m ks \<longleftrightarrow> (\<forall>k \<in> ks. \<forall>k' \<in> ks. k \<noteq> k' \<longrightarrow>
     set (node_points m k) \<inter> set (node_points m k') = {})"

lemma joins_nodes_New: "ring_nodes (fold ch_Add kss (ch_New n fn)) \<subseteq> set (concat kss)"
  using ring.joins_nodes [OF New_ring_wf(1), of kss n fn] unfolding New_ring_wf(2) Un_empty_left .

lemma joins_owner:
  assumes "collision_free (ch_New n fn) (set (concat kss))"
  shows "hashMap (fold ch_Add kss (ch_New n fn)) h = Some k \<longleftrightarrow>
    k \<in> set (concat kss) \<and> h \<in> set (node_points (ch_New n fn) k)"
proof -
  let ?m = "ch_New n fn" and ?r = "fold ch_Add kss (ch_New n fn)"
  have wf: "ring_wf ?r" by (rule ring.joins_inv [OF New_ring_wf(1)])
  have owner: "j \<in> set (concat kss) \<and> h \<in> set (node_points ?m j)" if "hashMap ?r h = Some j" for j
    using that wf subsetD [OF joins_nodes_New, of j kss n fn]
    by (auto simp: ring_wf_def joins_points ring_nodes_def intro: ranI)
  show ?thesis
  proof
    assume k: "k \<in> set (concat kss) \<and> h \<in> set (node_points ?m k)"
    then have "h \<in> dom (hashMap ?r)"
      using wf joins_keys [of kss ?m] by (auto simp: ring_wf_def)
    then obtain j where j: "hashMap ?r h = Some j" by blast
    with owner k assms have "j = k" unfolding collision_free_def by blast
    with j show "hashMap ?r h = Some k" by simp
  qed (rule owner)
qed

lemma joins_agree:
  assumes "collision_free (ch_New n fn) (set (concat kss))" and "set (concat kss') = set (concat kss)"
  shows "ch_Get x (fold ch_Add kss (ch_New n fn)) = ch_Get x (fold ch_Add kss' (ch_New n fn))"
proof -
  let ?r = "fold ch_Add kss (ch_New n fn)" and ?r' = "fold ch_Add kss' (ch_New n fn)"
  have "hashMap ?r h = hashMap ?r' h" for h
    using joins_owner [OF assms(1), of h] joins_owner [of n fn kss' h, unfolded assms(2), OF assms(1)]
    by (metis option.exhaust)
  moreover have "set (ring_keys ?r) = set (ring_keys ?r')"
    by (simp only: joins_keys assms(2))
  moreover have "ring_wf ?r" "ring_wf ?r'"
    by (rule ring.joins_inv [OF New_ring_wf(1)])+
  ultimately show ?thesis
    using Get_clockwise [of ?r x] Get_clockwise [of ?r' x]
    by (cases "ring_keys ?r = []") (auto simp: joins_points ch_Get_def simp flip: set_empty)
qed

section \<open>Properties\<close>

text \<open>The hash of the package's test: the number the bytes spell.\<close>

definition test_hash :: "bytes \<Rightarrow> uint32" where
  "test_hash bs = fold (\<lambda>c w. 10 * w + word_of_nat (of_char c - 48)) bs 0"

text \<open>
  C21: On a ring built by any sequence of \<open>Add\<close> calls, \<open>Get\<close> returns the node that owns the
  first point at or after the hash of the key, wrapping to the smallest point; the node is one
  of those added; and on a ring without points it returns the empty string.
\<close>

theorem ch_Get_clockwise_owner:
  "let m = fold ch_Add kss (ch_New n fn) in
     sorted (ring_keys m) \<and>
     (if ring_keys m = [] then ch_Get key m = ''''
      else hashMap m (clockwise (set (ring_keys m)) (ring_hash m key)) = Some (ch_Get key m) \<and>
           ch_Get key m \<in> set (concat kss))"
proof -
  define m where "m = fold ch_Add kss (ch_New n fn)"
  have wf: "ring_wf m" unfolding m_def by (rule ring.joins_inv [OF New_ring_wf(1)])
  show ?thesis
    unfolding Let_def m_def [symmetric]
  proof (cases "ring_keys m = []")
    case True
    then show "sorted (ring_keys m) \<and>
     (if ring_keys m = [] then ch_Get key m = ''''
      else hashMap m (clockwise (set (ring_keys m)) (ring_hash m key)) = Some (ch_Get key m) \<and>
           ch_Get key m \<in> set (concat kss))" by (simp add: ch_Get_def)
  next
    case False
    then have "ch_Get key m \<in> ring_nodes m"
      using ring.locate_member [OF wf] ring_nodes_empty [OF wf] by simp
    then have "ch_Get key m \<in> set (concat kss)"
      unfolding m_def by (rule subsetD [OF joins_nodes_New])
    with False show "sorted (ring_keys m) \<and>
     (if ring_keys m = [] then ch_Get key m = ''''
      else hashMap m (clockwise (set (ring_keys m)) (ring_hash m key)) = Some (ch_Get key m) \<and>
           ch_Get key m \<in> set (concat kss))"
      using wf Get_clockwise [OF wf] by (simp add: ring_wf_def)
  qed
qed

text \<open>
  C23: The property consistent hashing is for: when nodes are added to a ring that has points,
  every key keeps its owner or moves to one of the new nodes; no key moves between old nodes.
\<close>

theorem ch_Add_moves_only_to_new:
  assumes "ring_keys (fold ch_Add kss (ch_New n fn)) \<noteq> []"
  shows "ch_Get key (ch_Add ks (fold ch_Add kss (ch_New n fn))) =
      ch_Get key (fold ch_Add kss (ch_New n fn)) \<or>
    ch_Get key (ch_Add ks (fold ch_Add kss (ch_New n fn))) \<in> set ks"
  using ring.join_locality [OF ring.joins_inv [OF New_ring_wf(1)], of kss n fn key ks]
    ring_nodes_empty [OF ring.joins_inv [OF New_ring_wf(1)], of kss n fn] assms
  by simp

theorem ch_Add_moves_only_to_new_witness:
  "ch_Get ''27'' (ch_Add [''8''] (fold ch_Add [[''6'', ''4'', ''2'']] (ch_New 3 (Some test_hash)))) =
      ch_Get ''27'' (fold ch_Add [[''6'', ''4'', ''2'']] (ch_New 3 (Some test_hash))) \<or>
   ch_Get ''27'' (ch_Add [''8''] (fold ch_Add [[''6'', ''4'', ''2'']] (ch_New 3 (Some test_hash))))
      \<in> {''8''}"
proof -
  have "ring_keys (fold ch_Add [[''6'', ''4'', ''2'']] (ch_New 3 (Some test_hash))) \<noteq> []"
    using joins_keys [of "[[''6'', ''4'', ''2'']]" "ch_New 3 (Some test_hash)"]
    by (auto simp: node_points_def ch_New_def simp flip: set_empty)
  from ch_Add_moves_only_to_new [OF this, of "''27''" "[''8'']"] show ?thesis by simp
qed

text \<open>
  Where no two nodes collide on a point, the owner of a key depends only on which nodes
  are on the ring: not on the order they were added in, nor on how they were grouped into
  calls, nor on repetitions. So processes that learn the same peers in different orders agree.
\<close>

theorem ch_Get_order_independent:
  assumes "collision_free (ch_New n fn) (set (concat kss))"
    and "set (concat kss') = set (concat kss)"
  shows "ch_Get key (fold ch_Add kss (ch_New n fn)) = ch_Get key (fold ch_Add kss' (ch_New n fn))"
  by (rule joins_agree [OF assms])

theorem ch_Get_order_independent_witness:
  "ch_Get ''11'' (fold ch_Add [[''6'', ''4''], [''2'']] (ch_New 1 (Some test_hash))) =
   ch_Get ''11'' (fold ch_Add [[''2'', ''6'', ''4'', ''6'']] (ch_New 1 (Some test_hash)))"
proof (rule ch_Get_order_independent)
  have "node_points (ch_New 1 (Some test_hash)) k = [uint (test_hash (''0'' @ k))]" for k
    by (simp add: node_points_def ch_New_def ring_hash_def Itoa.simps digit_char_def)
  then show "collision_free (ch_New 1 (Some test_hash)) (set (concat [[''6'', ''4''], [''2'']]))"
    by (simp add: collision_free_def test_hash_def)
qed auto

end
