(* ===== verification/Go_Url.thy ===== *)
theory Go_Url
  imports Go_Strings
begin

text \<open>
  The functions of Go's net/url that the HTTP client and server of the program use: escaping
  for a query component, which turns a space into a plus sign, and the decoding of the path of
  a request, which leaves a plus sign alone.
\<close>

definition unreserved :: "char \<Rightarrow> bool" where
  "unreserved c =
     (let n = (of_char c :: nat)
      in 97 \<le> n \<and> n \<le> 122 \<or> 65 \<le> n \<and> n \<le> 90 \<or> 48 \<le> n \<and> n \<le> 57 \<or>
         c \<in> {CHR ''-'', CHR ''_'', CHR ''.'', CHR ''~''})"

definition upperhex :: "nat \<Rightarrow> char" where
  "upperhex n = ''0123456789ABCDEF'' ! n"

definition escape_char :: "char \<Rightarrow> string" where
  "escape_char c =
     (if c = CHR '' '' then ''+''
      else if unreserved c then [c]
      else [CHR ''%'', upperhex (of_char c div 16), upperhex (of_char c mod 16)])"

definition url_QueryEscape :: "string \<Rightarrow> string" where
  "url_QueryEscape s = concat (map escape_char s)"

definition unhex :: "char \<Rightarrow> nat option" where
  "unhex c =
     (let n = (of_char c :: nat)
      in if 48 \<le> n \<and> n \<le> 57 then Some (n - 48)
         else if 97 \<le> n \<and> n \<le> 102 then Some (n - 87)
         else if 65 \<le> n \<and> n \<le> 70 then Some (n - 55)
         else None)"

fun path_unescape :: "string \<Rightarrow> string option" where
  "path_unescape [] = Some []"
| "path_unescape (c # s) =
     (if c = CHR ''%'' then
        case s of
          a # b # s' \<Rightarrow>
            (case (unhex a, unhex b) of
               (Some x, Some y) \<Rightarrow> map_option ((#) (char_of (16 * x + y))) (path_unescape s')
             | _ \<Rightarrow> None)
        | _ \<Rightarrow> None
      else map_option ((#) c) (path_unescape s))"

section \<open>What a path keeps of an escaped string\<close>

definition space_to_plus :: "char \<Rightarrow> char" where
  "space_to_plus c = (if c = CHR '' '' then CHR ''+'' else c)"

lemma unhex_upperhex:
  assumes "n < 16"
  shows "unhex (upperhex n) = Some n"
proof -
  have "\<forall>n \<in> set [0..<16]. unhex (upperhex n) = Some n"
    by (simp add: upt_rec unhex_def upperhex_def)
  with assms show ?thesis by simp
qed

lemma char_code_halves: "(of_char c :: nat) div 16 < 16" "(of_char c :: nat) mod 16 < 16"
proof -
  have "(of_char c :: nat) < 256" by simp
  then show "(of_char c :: nat) div 16 < 16" by (simp add: div_less_iff_less_mult)
qed simp

lemma unescape_escape_char:
  "path_unescape (escape_char c @ t) = map_option ((#) (space_to_plus c)) (path_unescape t)"
proof (cases "c = CHR '' '' \<or> unreserved c")
  case True
  moreover have "\<not> unreserved (CHR ''%'')" by (simp add: unreserved_def)
  ultimately show ?thesis by (auto simp: escape_char_def space_to_plus_def)
next
  case False
  have "unhex (upperhex (of_char c div 16)) = Some (of_char c div 16)"
    "unhex (upperhex (of_char c mod 16)) = Some (of_char c mod 16)"
    by (simp_all only: unhex_upperhex char_code_halves)
  moreover have "char_of (16 * (of_char c div 16) + of_char c mod 16 :: nat) = c"
    by simp
  ultimately show ?thesis using False by (simp add: escape_char_def space_to_plus_def)
qed

lemma unescape_QueryEscape:
  "path_unescape (url_QueryEscape s @ t) = map_option ((@) (map space_to_plus s)) (path_unescape t)"
proof (induction s)
  case Nil
  then show ?case by (simp add: url_QueryEscape_def option.map_ident)
next
  case (Cons c s)
  then show ?case
    by (simp add: url_QueryEscape_def unescape_escape_char option.map_comp comp_def)
qed

lemma space_to_plus_id: "CHR '' '' \<notin> set s \<Longrightarrow> map space_to_plus s = s"
  by (induction s) (auto simp: space_to_plus_def)

lemma escape_no_slash: "CHR ''/'' \<notin> set (url_QueryEscape s)"
proof -
  have "upperhex n \<noteq> CHR ''/''" if "n < 16" for n
    using unhex_upperhex [OF that] by (auto simp: unhex_def)
  then have "CHR ''/'' \<noteq> upperhex (of_char c div 16)" "CHR ''/'' \<noteq> upperhex (of_char c mod 16)" for c
    using char_code_halves [of c] by metis+
  moreover have "\<not> unreserved (CHR ''/'')" by (simp add: unreserved_def)
  ultimately have "CHR ''/'' \<notin> set (escape_char c)" for c
    by (auto simp add: escape_char_def)
  then show ?thesis by (auto simp: url_QueryEscape_def)
qed

end
