(* ===== verification/Http_Pool.thy ===== *)
theory Http_Pool
  imports Cache_Group Consistent_Hash Go_Url
begin

text \<open>
  MyCache/http.go: a node serves its groups to the other nodes over HTTP, and picks for a key
  the node that owns it. \<open>ServeHTTP\<close> is the handler of a node, \<open>httpGetter_Get\<close> the client that
  another node calls it with. The network and the protobuf code are parameters: \<open>http_Get\<close> of a
  URL, \<open>marshal\<close> and \<open>unmarshal\<close>. \<open>deliver\<close> is the network between a client and one node whose
  server handles the request to its end: net/http decodes the path of the URL, and recovers
  from a panic of the handler by closing the connection.
\<close>

section \<open>State\<close>

record http_getter =
  baseURL :: string

record http_pool =
  pool_self :: string
  basePath :: string
  pool_peers :: "hash_ring option"
  httpGetters :: "string \<Rightarrow> http_getter option"

record http_response =
  status_code :: nat
  resp_body :: bytes

type_synonym 'w http_client = "string \<Rightarrow> 'w \<Rightarrow> (string + nat \<times> (string + bytes)) outcome \<times> 'w"

definition defaultBasePath :: string where
  "defaultBasePath = ''/_mycache/''"

definition defaultReplicas :: int where
  "defaultReplicas = 50"

definition NewHTTPPool :: "string \<Rightarrow> http_pool" where
  "NewHTTPPool me =
     \<lparr>pool_self = me, basePath = defaultBasePath, pool_peers = None, httpGetters = Map.empty\<rparr>"

section \<open>Picking a peer\<close>

definition pool_Set :: "string list \<Rightarrow> http_pool \<Rightarrow> http_pool" where
  "pool_Set addrs p =
     (let r = ch_New defaultReplicas None;
          p1 = p\<lparr>pool_peers := Some (ch_Add addrs r)\<rparr>;
          p2 = p1\<lparr>httpGetters := Map.empty\<rparr>
      in fold (\<lambda>a q. q\<lparr>httpGetters := (httpGetters q)(a \<mapsto> \<lparr>baseURL = a @ basePath q\<rparr>)\<rparr>) addrs p2)"

definition nil_deref :: string where
  "nil_deref = ''runtime error: invalid memory address or nil pointer dereference''"

text \<open>The result holds the pointer read from the map of clients, which may be nil.\<close>

definition PickPeer :: "string \<Rightarrow> http_pool \<Rightarrow> http_getter option option outcome" where
  "PickPeer key p =
     (case pool_peers p of
        None \<Rightarrow> Panic nil_deref
      | Some r \<Rightarrow>
          let peer = ch_Get key r
          in if peer \<noteq> '''' \<and> peer \<noteq> pool_self p then Ret (Some (httpGetters p peer)) else Ret None)"

section \<open>The server\<close>

definition http_Error :: "string \<Rightarrow> nat \<Rightarrow> http_response" where
  "http_Error msg code = \<lparr>status_code = code, resp_body = msg @ [CHR 0x0A]\<rparr>"

definition bad_path :: string where
  "bad_path = ''HTTPPool'' @ [CHR 0xE6, CHR 0x8F, CHR 0x90, CHR 0xE4, CHR 0xBE, CHR 0x9B,
     CHR 0xE6, CHR 0x84, CHR 0x8F, CHR 0xE5, CHR 0xA4, CHR 0x96, CHR 0xE8, CHR 0xB7, CHR 0xAF,
     CHR 0xE5, CHR 0xBE, CHR 0x84, CHR 0xEF, CHR 0xBC, CHR 0x9A]"

definition bad_request :: string where
  "bad_request = [CHR 0xE9, CHR 0x94, CHR 0x99, CHR 0xE8, CHR 0xAF, CHR 0xAF, CHR 0xE7,
     CHR 0x9A, CHR 0x84, CHR 0xE8, CHR 0xAF, CHR 0xB7, CHR 0xE6, CHR 0xB1, CHR 0x82]"

definition no_such_group :: string where
  "no_such_group = [CHR 0xE6, CHR 0xB2, CHR 0xA1, CHR 0xE6, CHR 0x9C, CHR 0x89, CHR 0xE8,
     CHR 0xBF, CHR 0x99, CHR 0xE6, CHR 0xA0, CHR 0xB7, CHR 0xE7, CHR 0x9A, CHR 0x84] @ ''group: ''"

definition ServeHTTP ::
  "(pb_response \<Rightarrow> string + bytes) \<Rightarrow> http_pool \<Rightarrow> string \<Rightarrow> 'w group_table \<times> 'w \<Rightarrow>
   http_response outcome \<times> 'w group_table \<times> 'w" where
  "ServeHTTP marshal p path = (\<lambda>(T, w).
     if \<not> strings_HasPrefix path (basePath p) then (Panic (bad_path @ path), T, w)
     else
       let parts = strings_Split2 (CHR ''/'') (drop (length (basePath p)) path)
       in if length parts \<noteq> 2 then (Ret (http_Error bad_request 400), T, w)
          else
            let groupName = parts ! 0; key = parts ! 1
            in case GetGroup groupName T of
                 None \<Rightarrow> (Ret (http_Error (no_such_group @ groupName) 404), T, w)
               | Some a \<Rightarrow>
                   let (r, g, w1) = Group_Get key (the (group_at T a), w);
                       T1 = T\<lparr>group_at := (group_at T)(a \<mapsto> g)\<rparr>
                   in bind_run (r, T1, w1) (\<lambda>x s.
                        case x of
                          Inl e \<Rightarrow> (Ret (http_Error e 500), s)
                        | Inr view \<Rightarrow>
                            (case marshal \<lparr>resp_Value = bv_b view\<rparr> of
                               Inl e \<Rightarrow> (Ret (http_Error e 500), s)
                             | Inr bs \<Rightarrow> (Ret \<lparr>status_code = 200, resp_body = bs\<rparr>, s))))"

section \<open>The client\<close>

text \<open>The status line, for the statuses the handlers of the program send.\<close>

definition status_line :: "nat \<Rightarrow> string" where
  "status_line code = Itoa code @ '' '' @
     (if code = 200 then ''OK'' else if code = 400 then ''Bad Request''
      else if code = 404 then ''Not Found'' else if code = 500 then ''Internal Server Error''
      else '''')"

definition server_returned :: string where
  "server_returned = [CHR 0xE6, CHR 0x9C, CHR 0x8D, CHR 0xE5, CHR 0x8A, CHR 0xA1, CHR 0xE5,
     CHR 0x99, CHR 0xA8, CHR 0xE8, CHR 0xBF, CHR 0x94, CHR 0xE5, CHR 0x9B, CHR 0x9E] @ '': ''"

definition reading_body :: string where
  "reading_body = [CHR 0xE8, CHR 0xAF, CHR 0xBB, CHR 0xE5, CHR 0x8F, CHR 0x96, CHR 0xE5,
     CHR 0x93, CHR 0x8D, CHR 0xE5, CHR 0xBA, CHR 0x94] @ ''body: ''"

definition decoding_body :: string where
  "decoding_body = [CHR 0xE8, CHR 0xA7, CHR 0xA3, CHR 0xE7, CHR 0xA0, CHR 0x81, CHR 0xE5,
     CHR 0x93, CHR 0x8D, CHR 0xE5, CHR 0xBA, CHR 0x94] @ ''body: ''"

definition httpGetter_Get ::
  "'w http_client \<Rightarrow> (bytes \<Rightarrow> string + pb_response) \<Rightarrow> http_getter \<Rightarrow> 'w peer_getter" where
  "httpGetter_Get http_Get unmarshal h req w =
     bind_run (http_Get (baseURL h @ url_QueryEscape (req_Group req) @ ''/'' @ url_QueryEscape (req_Key req)) w)
       (\<lambda>res w1. case res of
          Inl e \<Rightarrow> (Ret (Inl e), w1)
        | Inr (code, bdy) \<Rightarrow>
            if code \<noteq> 200 then (Ret (Inl (server_returned @ status_line code)), w1)
            else case bdy of
                   Inl e \<Rightarrow> (Ret (Inl (reading_body @ e)), w1)
                 | Inr bs \<Rightarrow>
                     (case unmarshal bs of
                        Inl e \<Rightarrow> (Ret (Inl (decoding_body @ e)), w1)
                      | Inr out \<Rightarrow> (Ret (Inr out), w1)))"

section \<open>The network between them\<close>

definition deliver ::
  "(pb_response \<Rightarrow> string + bytes) \<Rightarrow> http_pool \<Rightarrow> ('w group_table \<times> 'w) http_client" where
  "deliver marshal p url s =
     (if \<not> strings_HasPrefix url (pool_self p) then (Ret (Inl ''connection refused''), s)
      else case path_unescape (drop (length (pool_self p)) url) of
             None \<Rightarrow> (Ret (Inl ''invalid URL escape''), s)
           | Some path \<Rightarrow>
               (case ServeHTTP marshal p path s of
                  (Ret resp, s1) \<Rightarrow> (Ret (Inr (status_code resp, Inr (resp_body resp))), s1)
                | (Panic m, s1) \<Rightarrow> (Ret (Inl ''EOF''), s1)
                | (Hang, s1) \<Rightarrow> (Hang, s1)))"

section \<open>Requests and pools\<close>

lemma HasPrefix_append [simp]: "strings_HasPrefix (p @ s) p"
  by (simp add: strings_HasPrefix_def)

lemma unescape_base:
  "path_unescape (defaultBasePath @ s) = map_option ((@) defaultBasePath) (path_unescape s)"
  by (cases "path_unescape s") (simp_all add: defaultBasePath_def)

lemma request_path:
  "path_unescape (defaultBasePath @ url_QueryEscape grp @ ''/'' @ url_QueryEscape key) =
     Some (defaultBasePath @ map space_to_plus grp @ ''/'' @ map space_to_plus key)"
  using unescape_QueryEscape [of key "[]"]
  by (simp add: unescape_base unescape_QueryEscape)

lemma ServeHTTP_request:
  assumes "CHR ''/'' \<notin> set grp" and "GetGroup grp T = Some a" and "group_at T a = Some g"
    and "Group_Get key (g, w) = (r, g1, w1)"
  shows "ServeHTTP marshal p (basePath p @ grp @ ''/'' @ key) (T, w) =
    bind_run (r, T\<lparr>group_at := (group_at T)(a \<mapsto> g1)\<rparr>, w1) (\<lambda>x s.
      case x of
        Inl e \<Rightarrow> (Ret (http_Error e 500), s)
      | Inr view \<Rightarrow>
          (case marshal \<lparr>resp_Value = bv_b view\<rparr> of
             Inl e \<Rightarrow> (Ret (http_Error e 500), s)
           | Inr bs \<Rightarrow> (Ret \<lparr>status_code = 200, resp_body = bs\<rparr>, s)))"
  using assms by (simp add: ServeHTTP_def strings_Split2_append Let_def)

lemma status_500: "status_line 500 = ''500 Internal Server Error''"
  by (simp add: status_line_def Itoa.simps digit_char_def)

lemma remote_Get:
  assumes "CHR ''/'' \<notin> set grp" and "CHR '' '' \<notin> set grp"
    and "GetGroup grp T = Some a" and "group_at T a = Some g" and "basePath p = defaultBasePath"
    and "\<And>r. \<exists>bs. marshal r = Inr bs \<and> unmarshal bs = Inr r"
    and "Group_Get (map space_to_plus key) (g, w) = (r, g1, w1)"
  shows "httpGetter_Get (deliver marshal p) unmarshal \<lparr>baseURL = pool_self p @ basePath p\<rparr>
      \<lparr>req_Group = grp, req_Key = key\<rparr> (T, w) =
    (case r of
       Ret (Inr v) \<Rightarrow> Ret (Inr \<lparr>resp_Value = bv_b v\<rparr>)
     | Ret (Inl e) \<Rightarrow> Ret (Inl (server_returned @ ''500 Internal Server Error''))
     | Panic m \<Rightarrow> Ret (Inl ''EOF'')
     | Hang \<Rightarrow> Hang,
     T\<lparr>group_at := (group_at T)(a \<mapsto> g1)\<rparr>, w1)"
proof -
  note S = ServeHTTP_request [OF assms(1,3,4,7), of marshal p, unfolded assms(5)]
  note D = deliver_def space_to_plus_id [OF assms(2)] request_path S httpGetter_Get_def assms(5)
  show ?thesis
  proof (cases r)
    case (Ret x)
    show ?thesis
    proof (cases x)
      case (Inl e)
      with Ret show ?thesis by (simp add: D http_Error_def status_500 del: append_Cons)
    next
      case (Inr v)
      obtain bs where "marshal \<lparr>resp_Value = bv_b v\<rparr> = Inr bs" "unmarshal bs = Inr \<lparr>resp_Value = bv_b v\<rparr>"
        using assms(6) by blast
      with Ret Inr show ?thesis by (simp add: D del: append_Cons)
    qed
  qed (simp_all add: D del: append_Cons)
qed

lemma Set_fold:
  "fold (\<lambda>a q. q\<lparr>httpGetters := (httpGetters q)(a \<mapsto> \<lparr>baseURL = a @ basePath q\<rparr>)\<rparr>) addrs p =
     p\<lparr>httpGetters := (\<lambda>a. if a \<in> set addrs then Some \<lparr>baseURL = a @ basePath p\<rparr> else httpGetters p a)\<rparr>"
  by (induction addrs arbitrary: p) (auto intro!: http_pool.equality simp: fun_eq_iff)

lemma PickPeer_Set:
  "PickPeer key (pool_Set addrs (NewHTTPPool me)) =
    (let own = ch_Get key (fold ch_Add [addrs] (ch_New defaultReplicas None)) in
     if own = '''' \<or> own = me then Ret None else Ret (Some (Some \<lparr>baseURL = own @ defaultBasePath\<rparr>)))"
proof -
  let ?o = "ch_Get key (fold ch_Add [addrs] (ch_New defaultReplicas None))"
  have "?o = '''' \<or> ?o \<in> set addrs"
    using ring.joined_owner [OF New_ring_wf, of key "[addrs]"] by auto
  then show ?thesis
    by (auto simp: PickPeer_def pool_Set_def Set_fold NewHTTPPool_def Let_def)
qed

lemma PickPeer_Set_owner:
  assumes "ch_Get key (fold ch_Add [addrs] (ch_New defaultReplicas None)) = own" and "own \<noteq> ''''"
  shows "PickPeer key (pool_Set addrs (NewHTTPPool me)) =
    Ret (if me = own then None else Some (Some \<lparr>baseURL = own @ defaultBasePath\<rparr>))"
  unfolding PickPeer_Set assms(1) Let_def using assms(2) by auto

lemma one_owner:
  assumes "collision_free (ch_New defaultReplicas None) (set addrs)"
    and "addrs \<noteq> []" and "'''' \<notin> set addrs"
  shows "\<exists>own \<in> set addrs. \<forall>me order. set order = set addrs \<longrightarrow>
    PickPeer key (pool_Set order (NewHTTPPool me)) =
      Ret (if me = own then None else Some (Some \<lparr>baseURL = own @ defaultBasePath\<rparr>))"
proof -
  let ?r = "fold ch_Add [addrs] (ch_New defaultReplicas None)"
  have "ring_keys ?r \<noteq> []"
  proof -
    obtain a where "a \<in> set addrs" using assms(2) by (cases addrs) auto
    moreover have "node_points (ch_New defaultReplicas None) a \<noteq> []" for a
      by (simp add: node_points_def ch_New_def defaultReplicas_def)
    ultimately show ?thesis
      using joins_keys [of "[addrs]" "ch_New defaultReplicas None"] by (auto simp flip: set_empty)
  qed
  then have "ring_nodes ?r \<noteq> {}"
    using ring_nodes_empty [OF ring.joins_inv [OF New_ring_wf(1)]] by blast
  then have own: "ch_Get key ?r \<in> set addrs"
    using ring.locate_member [OF ring.joins_inv [OF New_ring_wf(1)], of "[addrs]" defaultReplicas None key]
      subsetD [OF joins_nodes_New, of _ "[addrs]"] by simp
  have agree: "ch_Get key (fold ch_Add [order] (ch_New defaultReplicas None)) = ch_Get key ?r"
    if "set order = set addrs" for order
    by (rule sym, rule joins_agree) (use assms(1) that in simp_all)
  have "ch_Get key ?r \<noteq> ''''" using own assms(3) by metis
  then show ?thesis
    by (intro bexI [OF _ own] allI impI PickPeer_Set_owner agree)
qed

section \<open>Properties\<close>

text \<open>The pool as a group's \<open>PeerPicker\<close>; a nil client among its peers would be dereferenced.\<close>

definition pool_picker ::
  "'w http_client \<Rightarrow> (bytes \<Rightarrow> string + pb_response) \<Rightarrow> http_pool \<Rightarrow> 'w peer_picker" where
  "pool_picker http_Get unmarshal p key w =
     bind_outcome (PickPeer key p) (\<lambda>x. Ret (case x of
         None \<Rightarrow> None
       | Some None \<Rightarrow> Some (\<lambda>req w1. (Panic nil_deref, w1))
       | Some (Some h) \<Rightarrow> Some (httpGetter_Get http_Get unmarshal h)))"

text \<open>
  Asking a node over HTTP is asking its group: for a group whose name has no slash and no
  space, the path the client builds is taken apart by the server into the group's name and the
  key, slashes included, the value comes back unchanged, and an error or a panic there is an
  error here. Only that the key's spaces have become plus signs on the way.
\<close>

theorem remote_Get_is_Group_Get:
  assumes "CHR ''/'' \<notin> set grp" and "CHR '' '' \<notin> set grp"
    and "GetGroup grp T = Some a" and "group_at T a = Some g" and "basePath p = defaultBasePath"
    and "\<And>r. \<exists>bs. marshal r = Inr bs \<and> unmarshal bs = Inr r"
  shows "httpGetter_Get (deliver marshal p) unmarshal \<lparr>baseURL = pool_self p @ basePath p\<rparr>
      \<lparr>req_Group = grp, req_Key = key\<rparr> (T, w) =
    (let (r, g1, w1) = Group_Get (map space_to_plus key) (g, w)
     in (case r of
           Ret (Inr v) \<Rightarrow> Ret (Inr \<lparr>resp_Value = bv_b v\<rparr>)
         | Ret (Inl e) \<Rightarrow> Ret (Inl (server_returned @ ''500 Internal Server Error''))
         | Panic m \<Rightarrow> Ret (Inl ''EOF'')
         | Hang \<Rightarrow> Hang,
         T\<lparr>group_at := (group_at T)(a \<mapsto> g1)\<rparr>, w1))"
proof (cases "Group_Get (map space_to_plus key) (g, w)")
  case (fields r g1 w1)
  from remote_Get [OF assms this] fields show ?thesis by simp
qed

text \<open>A table with one group, and a stand-in for the protobuf code.\<close>

definition demo_table :: "nat group_table" where
  "demo_table = \<lparr>groups = [''scores'' \<mapsto> 0], group_at = [0 \<mapsto> demo_group None], group_nxt = 1\<rparr>"

definition demo_marshal :: "pb_response \<Rightarrow> string + bytes" where
  "demo_marshal r = Inr (resp_Value r)"

definition demo_unmarshal :: "bytes \<Rightarrow> string + pb_response" where
  "demo_unmarshal bs = Inr \<lparr>resp_Value = bs\<rparr>"

lemma demo_protobuf: "\<exists>bs. demo_marshal r = Inr bs \<and> demo_unmarshal bs = Inr r"
  by (simp add: demo_marshal_def demo_unmarshal_def)

lemma demo_plain_ok: "group_ok 2048 demo_src (\<lambda>_. True) (demo_group None)"
  using demo_inv by (simp add: group_ok_def demo_group_def source_is_def peers_agree_def sf_init_def)

theorem remote_Get_is_Group_Get_witness:
  "fst (httpGetter_Get (deliver demo_marshal (NewHTTPPool ''http://localhost:8001'')) demo_unmarshal
      \<lparr>baseURL = pool_self (NewHTTPPool ''http://localhost:8001'') @ basePath (NewHTTPPool ''http://localhost:8001'')\<rparr>
      \<lparr>req_Group = ''scores'', req_Key = ''Tom''\<rparr> (demo_table, 0)) = Ret (Inr \<lparr>resp_Value = ''630''\<rparr>)"
proof -
  have P: "CHR ''/'' \<notin> set ''scores''" "CHR '' '' \<notin> set ''scores''"
    "GetGroup ''scores'' demo_table = Some 0" "group_at demo_table 0 = Some (demo_group None)"
    "basePath (NewHTTPPool ''http://localhost:8001'') = defaultBasePath"
    by (simp_all add: GetGroup_def demo_table_def NewHTTPPool_def)
  have K: "map space_to_plus ''Tom'' = ''Tom''" by (simp add: space_to_plus_def)
  obtain g1 w1 where "Group_Get ''Tom'' (demo_group None, 0) = (Ret (as_view (demo_src ''Tom'')), g1, w1)"
    using Get_ok [OF demo_plain_ok demo_room TrueI, where key = "''Tom''" and w = 0] by auto
  then show ?thesis
    unfolding remote_Get_is_Group_Get [OF P demo_protobuf] K by (simp add: as_view_def demo_src_def)
qed



text \<open>A pool whose peers have not been set panics when it is asked to pick one.\<close>

lemma PickPeer_before_Set_panics: "PickPeer key (NewHTTPPool me) = Panic nil_deref"
  by (simp add: PickPeer_def NewHTTPPool_def)

section \<open>Two nodes\<close>

text \<open>
  What the client node relies on in its world, which is the server node: the server's table has
  the group, and the group there is transparent for the same source.
\<close>

definition server_ok ::
  "int64 \<Rightarrow> (string \<Rightarrow> string + bytes) \<Rightarrow> ('w \<Rightarrow> bool) \<Rightarrow> string \<Rightarrow> 'w group_table \<times> 'w \<Rightarrow> bool" where
  "server_ok m src W grp = (\<lambda>(T, w).
     (\<exists>a g. GetGroup grp T = Some a \<and> group_at T a = Some g \<and> group_ok m src W g) \<and> W w)"

text \<open>A client that is not a client of this server gets no answer, or one of its own making.\<close>

lemma deliver_elsewhere:
  assumes "\<not> strings_HasPrefix url (pool_self p)"
  shows "deliver marshal p url s = (Ret (Inl ''connection refused''), s)"
  using assms by (simp add: deliver_def)

definition plus_safe :: "(string \<Rightarrow> string + bytes) \<Rightarrow> bool" where
  "plus_safe src \<longleftrightarrow> (\<forall>k bs. src (map space_to_plus k) = Inr bs \<longrightarrow> src k = Inr bs)"

lemma remote_peer_agrees:
  assumes "CHR ''/'' \<notin> set grp" and "CHR '' '' \<notin> set grp" and "basePath p = defaultBasePath"
    and "\<And>r. \<exists>bs. marshal r = Inr bs \<and> unmarshal bs = Inr r"
    and "src_room m src" and "plus_safe src"
  shows "peer_agrees src (server_ok m src W grp) grp key
    (httpGetter_Get (deliver marshal p) unmarshal \<lparr>baseURL = pool_self p @ basePath p\<rparr>)"
  unfolding peer_agrees_def
proof (intro allI impI)
  fix s :: "'a group_table \<times> 'a"
  assume ok: "server_ok m src W grp s"
  obtain T w where s: "s = (T, w)" by (cases s)
  from ok obtain a g where a: "GetGroup grp T = Some a" "group_at T a = Some g"
    "group_ok m src W g" "W w" by (auto simp: s server_ok_def)
  let ?k = "map space_to_plus key"
  obtain r g' w' where G: "Group_Get ?k (g, w) = (Ret r, g', w')" "group_ok m src W g'" "W w'"
    and r: "r = (if ?k = '''' then Inl need_key else as_view (src ?k))"
    using Get_ok [OF a(3) assms(5) a(4), of ?k] by blast
  let ?s = "(T\<lparr>group_at := (group_at T)(a \<mapsto> g')\<rparr>, w')"
  let ?x = "case r of Inl e \<Rightarrow> Inl (server_returned @ ''500 Internal Server Error'')
    | Inr v \<Rightarrow> Inr \<lparr>resp_Value = bv_b v\<rparr>"
  have ok': "server_ok m src W grp ?s"
    using a(1) G(2,3) by (auto simp: server_ok_def GetGroup_def)
  have get: "httpGetter_Get (deliver marshal p) unmarshal \<lparr>baseURL = pool_self p @ basePath p\<rparr>
      \<lparr>req_Group = grp, req_Key = key\<rparr> s = (Ret ?x, ?s)"
    unfolding s remote_Get [OF assms(1,2) a(1,2) assms(3,4) G(1)]
    by (simp split: sum.split)
  have "src key = Inr (bv_b v)" if "r = Inr v" for v
  proof -
    have "src ?k = Inr (bv_b v)"
      using that r by (cases "src ?k") (auto simp: as_view_def split: if_splits)
    then show ?thesis using assms(6) unfolding plus_safe_def by blast
  qed
  then have val: "\<forall>res. ?x = Inr res \<longrightarrow> src key = Inr (resp_Value res)" by (auto split: sum.splits)
  show "\<exists>x s'. httpGetter_Get (deliver marshal p) unmarshal
      \<lparr>baseURL = pool_self p @ basePath p\<rparr> \<lparr>req_Group = grp, req_Key = key\<rparr> s = (Ret x, s') \<and>
      server_ok m src W grp s' \<and> (\<forall>res. x = Inr res \<longrightarrow> src key = Inr (resp_Value res))"
    by (intro exI conjI) (fact get, fact ok', fact val)
qed

text \<open>
  The cache of two nodes is transparent from end to end. The client node picks with its
  pool, asks the server node over HTTP, and falls back on its own source; its answers, for any
  sequence of keys and from any state of the two caches, are those of the source, provided that
  the source has no value under a key with a plus sign that it lacks, or differs on, under the
  same key with a space.
\<close>

theorem two_nodes_transparent:
  assumes "CHR ''/'' \<notin> set (gname g)" and "CHR '' '' \<notin> set (gname g)" and "plus_safe src"
    and "\<And>r. \<exists>bs. marshal r = Inr bs \<and> unmarshal bs = Inr r"
    and "basePath p = defaultBasePath" and "set addrs \<subseteq> {me, pool_self p}"
    and "server_ok m src W (gname g) (T, w)" and "src_room m src"
    and "group_ok m' src (server_ok m src W (gname g)) (g\<lparr>peers := None\<rparr>)" and "src_room m' src"
    and "peers g = Some (pool_picker (deliver marshal p) unmarshal (pool_Set addrs (NewHTTPPool me)))"
  shows "fst (Group_Gets ks (g, (T, w))) =
    map (\<lambda>k. Ret (if k = '''' then Inl need_key else as_view (src k))) ks"
proof -
  let ?W = "server_ok m src W (gname g)"
  let ?pick = "pool_picker (deliver marshal p) unmarshal (pool_Set addrs (NewHTTPPool me))"
  have "\<exists>x. ?pick k s = Ret x \<and> (\<forall>pr. x = Some pr \<longrightarrow> peer_agrees src ?W (gname g) k pr)" for k s
  proof -
    define own where "own = ch_Get k (fold ch_Add [addrs] (ch_New defaultReplicas None))"
    have "own = '''' \<or> own \<in> set addrs"
      unfolding own_def using ring.joined_owner [OF New_ring_wf, of k "[addrs]"] by auto
    then consider "own = '''' \<or> own = me" | "own \<noteq> ''''" "own \<noteq> me" "own = pool_self p"
      using assms(6) by blast
    then show ?thesis
    proof cases
      case 1
      then have "PickPeer k (pool_Set addrs (NewHTTPPool me)) = Ret None"
        unfolding PickPeer_Set own_def [symmetric] Let_def by auto
      then show ?thesis by (simp add: pool_picker_def)
    next
      case 2
      then have "?pick k s = Ret (Some (httpGetter_Get (deliver marshal p) unmarshal
          \<lparr>baseURL = pool_self p @ basePath p\<rparr>))"
        by (simp add: pool_picker_def PickPeer_Set_owner [OF own_def [symmetric]] assms(5))
      with remote_peer_agrees [OF assms(1,2,5,4,8,3), of W k] show ?thesis by simp
    qed
  qed
  then have "peers_agree src ?W g" by (simp add: peers_agree_def assms(11))
  then have "group_ok m' src ?W g" using assms(9) by (simp add: group_ok_def source_is_def)
  from Gets_ok [OF this assms(10,7)] show ?thesis .
qed

text \<open>A client node that knows itself and the server of the earlier example.\<close>

definition demo_client :: "(nat group_table \<times> nat) Group" where
  "demo_client = \<lparr>gname = ''scores'', getter_fn = (\<lambda>k s. (Ret (demo_src k), s)),
     mainCache = new_cache 2048,
     peers = Some (pool_picker (deliver demo_marshal (NewHTTPPool ''http://localhost:8001'')) demo_unmarshal
       (pool_Set [''http://localhost:8001'', ''http://localhost:8002''] (NewHTTPPool ''http://localhost:8002''))),
     loader = sf_init\<rparr>"

theorem two_nodes_transparent_witness:
  "fst (Group_Gets [''Tom'', ''Sam''] (demo_client, (demo_table, 0))) =
     [Ret (Inr \<lparr>bv_b = ''630''\<rparr>), Ret (Inl ''not exist'')]"
proof -
  have *: "CHR ''/'' \<notin> set (gname demo_client)" "CHR '' '' \<notin> set (gname demo_client)"
    "basePath (NewHTTPPool ''http://localhost:8001'') = defaultBasePath"
    "set [''http://localhost:8001'', ''http://localhost:8002''] \<subseteq>
      {''http://localhost:8002'', pool_self (NewHTTPPool ''http://localhost:8001'')}"
    "peers demo_client = Some (pool_picker (deliver demo_marshal (NewHTTPPool ''http://localhost:8001''))
      demo_unmarshal (pool_Set [''http://localhost:8001'', ''http://localhost:8002'']
        (NewHTTPPool ''http://localhost:8002'')))"
    by (simp_all add: demo_client_def NewHTTPPool_def)
  have "map space_to_plus k = ''Tom'' \<Longrightarrow> k = ''Tom''" for k
    by (auto simp: space_to_plus_def map_eq_Cons_conv split: if_splits)
  then have plus: "plus_safe demo_src" by (auto simp: plus_safe_def demo_src_def split: if_splits)
  have server: "server_ok 2048 demo_src (\<lambda>_. True) (gname demo_client) (demo_table, 0)"
    using demo_plain_ok by (simp add: server_ok_def demo_table_def demo_client_def GetGroup_def)
  have client: "group_ok 2048 demo_src W (demo_client\<lparr>peers := None\<rparr>)" for W
    using demo_inv by (simp add: group_ok_def demo_client_def source_is_def peers_agree_def sf_init_def)
  show ?thesis
    unfolding two_nodes_transparent [OF *(1,2) plus demo_protobuf *(3,4) server demo_room client demo_room *(5)]
    by (simp add: as_view_def demo_src_def)
qed


definition plus_src :: "string \<Rightarrow> string + bytes" where
  "plus_src k = (if k = ''a b'' then Inr ''1'' else if k = ''a+b'' then Inr ''2'' else Inl ''not exist'')"

definition plus_group :: "'w peer_picker option \<Rightarrow> 'w Group" where
  "plus_group ps = \<lparr>gname = ''scores'', getter_fn = (\<lambda>k s. (Ret (plus_src k), s)),
     mainCache = new_cache 2048, peers = ps, loader = sf_init\<rparr>"

definition plus_table :: "unit group_table" where
  "plus_table = \<lparr>groups = [''scores'' \<mapsto> 0], group_at = [0 \<mapsto> plus_group None], group_nxt = 1\<rparr>"


end
