(* ===== verification/Cache_Main.thy ===== *)
theory Cache_Main
  imports Http_Pool
begin

text \<open>
  MyCache/main/main.go: the program that puts the parts together. \<open>createGroup\<close> makes the group
  over the table that stands for a slow database, \<open>startCacheServer\<close> gives it the node's pool,
  \<open>api_handler\<close> is the handler of the server that faces the user; its argument is the value of
  the query parameter \<open>key\<close>, which is the empty string when there is none. The world is the
  list of the keys the database was searched for. \<open>cache_main\<close> is one process: its flags are
  arguments, and so is the order in which Go walks the map of addresses.
\<close>

definition db :: "string \<Rightarrow> string option" where
  "db = [''Tom'' \<mapsto> ''630'', ''Jack'' \<mapsto> ''589'', ''Sam'' \<mapsto> ''567'']"

definition does_not_exist :: string where
  "does_not_exist = [CHR 0xE4, CHR 0xB8, CHR 0x8D, CHR 0xE5, CHR 0xAD, CHR 0x98, CHR 0xE5, CHR 0x9C, CHR 0xA8]"

definition slow_db :: "string list getter" where
  "slow_db key searched =
     (case db key of
        Some v \<Rightarrow> (Ret (Inr v), key # searched)
      | None \<Rightarrow> (Ret (Inl (key @ does_not_exist)), key # searched))"

definition createGroup :: "string list group_table \<Rightarrow> nat outcome \<times> string list group_table" where
  "createGroup = NewGroup ''scores'' (push_bit 10 2) (Some (GetterFunc_Get slow_db))"

text \<open>\<open>addr[7:]\<close>, the host and port of an address that begins with \<open>http://\<close>.\<close>

definition slice_from_7 :: "string \<Rightarrow> string outcome" where
  "slice_from_7 addr =
     (if length addr < 7 then Panic (''runtime error: slice bounds out of range [7:'' @ Itoa (length addr) @ '']'')
      else Ret (drop 7 addr))"

text \<open>What it listens at, with the pool as the handler.\<close>

definition startCacheServer ::
  "'w http_client \<Rightarrow> (bytes \<Rightarrow> string + pb_response) \<Rightarrow> string \<Rightarrow> string list \<Rightarrow> 'w Group \<Rightarrow>
   string outcome \<times> 'w Group \<times> http_pool" where
  "startCacheServer http_Get unmarshal addr addrs gee =
     (let ps = pool_Set addrs (NewHTTPPool addr);
          (r, gee1) = RegisterPeers (Some (pool_picker http_Get unmarshal ps)) gee
      in (bind_outcome r (\<lambda>_. slice_from_7 addr), gee1, ps))"

definition api_handler :: "string \<Rightarrow> 'w Group \<times> 'w \<Rightarrow> ('w, http_response) group_run" where
  "api_handler key s =
     bind_run (Group_Get key s) (\<lambda>x s1.
       case x of
         Inl e \<Rightarrow> (Ret (http_Error e 500), s1)
       | Inr view \<Rightarrow> (Ret \<lparr>status_code = 200, resp_body = bv_b view\<rparr>, s1))"

text \<open>The route of \<open>api_handler\<close>, and what its server listens at.\<close>

definition startAPIServer :: "string \<Rightarrow> string \<times> string outcome" where
  "startAPIServer apiAddr = (''/api'', slice_from_7 apiAddr)"

definition addrMap :: "int \<Rightarrow> string option" where
  "addrMap = [8001 \<mapsto> ''http://localhost:8001'', 8002 \<mapsto> ''http://localhost:8002'',
     8003 \<mapsto> ''http://localhost:8003'']"

definition main_apiAddr :: string where
  "main_apiAddr = ''http://localhost:9999''"

text \<open>
  A process: where its API server listens, if it has one, where its cache server does, and the
  pool and the group that these share. \<open>order\<close> has the keys of \<open>addrMap\<close>.
\<close>

record 'w cache_process =
  cp_api :: "(string \<times> string outcome) option"
  cp_listen :: "string outcome"
  cp_pool :: http_pool
  cp_group :: "'w Group"

definition cache_main ::
  "string list http_client \<Rightarrow> (bytes \<Rightarrow> string + pb_response) \<Rightarrow> int list \<Rightarrow> int \<Rightarrow> bool \<Rightarrow>
   string list cache_process outcome" where
  "cache_main http_Get unmarshal order port api =
     (let addrs = map (\<lambda>k. the (addrMap k)) order;
          (r, T) = createGroup no_groups
      in bind_outcome r (\<lambda>p.
           let myGroup = the (group_at T p);
               addr = (case addrMap port of Some a \<Rightarrow> a | None \<Rightarrow> '''');
               (l, g, ps) = startCacheServer http_Get unmarshal addr addrs myGroup
           in Ret \<lparr>cp_api = (if api then Some (startAPIServer main_apiAddr) else None),
                cp_listen = l, cp_pool = ps, cp_group = g\<rparr>))"

fun api_run :: "string list \<Rightarrow> 'w Group \<times> 'w \<Rightarrow> http_response outcome list" where
  "api_run [] s = []"
| "api_run (k # ks) s = (let (r, s1) = api_handler k s in r # api_run ks s1)"

definition db_src :: "string \<Rightarrow> string + bytes" where
  "db_src k = (case db k of Some v \<Rightarrow> Inr v | None \<Rightarrow> Inl (k @ does_not_exist))"

definition db_response :: "string \<Rightarrow> http_response" where
  "db_response k =
     (if k = '''' then http_Error need_key 500
      else case db k of
             Some v \<Rightarrow> \<lparr>status_code = 200, resp_body = v\<rparr>
           | None \<Rightarrow> http_Error (k @ does_not_exist) 500)"

lemma limit_2048: "push_bit 10 (2 :: int64) = 2048"
  by (simp add: push_bit_eq_mult)

lemma db_room: "src_room 2048 db_src"
  by (auto simp: src_room_def db_src_def db_def cache_room_def item_size_def ByteView_Len_def
      split: option.splits if_splits)

lemma api_run_ok:
  assumes "group_ok 2048 db_src W g" and "W w"
  shows "api_run ks (g, w) = map (\<lambda>k. Ret (db_response k)) ks"
  using assms
proof (induction ks arbitrary: g w)
  case Nil
  then show ?case by simp
next
  case (Cons k ks)
  obtain g' w' where G: "Group_Get k (g, w) =
      (Ret (if k = '''' then Inl need_key else as_view (db_src k)), g', w')"
    "group_ok 2048 db_src W g'" "W w'"
    using Get_ok [OF Cons.prems(1) db_room Cons.prems(2)] by blast
  have "api_handler k (g, w) = (Ret (db_response k), g', w')"
    by (simp add: api_handler_def G(1) db_response_def db_src_def as_view_def split: option.split)
  with Cons.IH [OF G(2,3)] show ?case by simp
qed

text \<open>
  The program does what its database says: on the group that \<open>createGroup\<close> makes, any
  sequence of API requests gets, for a key of the table, status 200 and its value, for any
  other key status 500 and the error naming it, and for a missing key status 500, whatever the
  cache holds by then.
\<close>

theorem api_serves_db:
  "\<exists>p T g. createGroup no_groups = (Ret p, T) \<and> GetGroup ''scores'' T = Some p \<and> group_at T p = Some g \<and>
     api_run ks (g, searched) = map (\<lambda>k. Ret (db_response k)) ks"
proof -
  let ?g = "\<lparr>gname = ''scores'', getter_fn = GetterFunc_Get slow_db, mainCache = new_cache 2048,
    peers = None, loader = sf_init\<rparr>"
  have "group_ok 2048 db_src (\<lambda>_. True) ?g"
    using demo_inv
    by (auto simp: group_ok_def source_is_def peers_agree_def sf_init_def GetterFunc_Get_def slow_db_def
        db_src_def split: option.split)
  from api_run_ok [OF this TrueI] show ?thesis
    by (simp add: createGroup_def NewGroup_def limit_2048 Let_def no_groups_def GetGroup_def)
qed

text \<open>
  A group's peers can be set once: \<open>startCacheServer\<close> on a group without peers gives it the
  node's pool, on a group that has peers it panics and leaves the group as it was.
\<close>

lemma startCacheServer_once:
  "case startCacheServer http_Get unmarshal addr addrs gee of
     (r, gee1, ps) \<Rightarrow> pool_self ps = addr \<and> basePath ps = defaultBasePath \<and>
       (if peers gee = None
        then r = slice_from_7 addr \<and> gee1 = gee\<lparr>peers := Some (pool_picker http_Get unmarshal ps)\<rparr>
        else r = Panic registered_twice \<and> gee1 = gee)"
  by (simp add: startCacheServer_def RegisterPeers_def pool_Set_def Set_fold NewHTTPPool_def Let_def)

end
