(* ===== verification/Ring_Addresses.thy ===== *)
theory Ring_Addresses
  imports Http_Pool
begin

text \<open>
  The three addresses that MyCache/main/main.go gives to its nodes, on the ring that http.go
  makes of them: their 150 points are distinct, so that the nodes agree on the owner of a key.
  CRC-32 is evaluated on natural numbers for this.
\<close>


section \<open>The addresses of the program do not collide\<close>

text \<open>CRC-32 on numbers, for evaluation: one bit, one byte and the register after a string.\<close>

definition crc_bit :: "nat \<Rightarrow> nat" where
  "crc_bit r = (if odd r then xor (r div 2) 0xEDB88320 else r div 2)"

definition crc_byte :: "nat \<Rightarrow> nat \<Rightarrow> nat" where
  "crc_byte c r = crc_bit (crc_bit (crc_bit (crc_bit (crc_bit (crc_bit (crc_bit (crc_bit (xor r c))))))))"

definition crc_register :: "string \<Rightarrow> nat" where
  "crc_register s = fold crc_byte (map of_char s) 0xFFFFFFFF"

lemma crc_bit_eval:
  "crc_bit 0 = 0" "crc_bit 1 = 0xEDB88320" "crc_bit (numeral (num.Bit0 n)) = numeral n"
  "crc_bit (numeral (num.Bit1 n)) = xor (numeral n) 0xEDB88320"
  by (simp_all add: crc_bit_def)

lemma crc_bit_word: "unat (crc32_bit r) = crc_bit (unat r)"
  by (simp add: crc32_bit_def crc_bit_def unsigned_xor_eq drop_bit_Suc unat_div)

lemma crc_byte_word: "unat (crc32_byte r c) = crc_byte (of_char c) (unat r)"
proof -
  have "(of_char c :: nat) < 256" by simp
  then have "(of_char c :: nat) < 4294967296" by linarith
  then have "unat (word_of_nat (of_char c) :: uint32) = of_char c"
    by (simp add: unat_of_nat mod_less)
  then show ?thesis
    by (simp add: crc32_byte_def crc_byte_def crc_bit_word unsigned_xor_eq numeral_eq_Suc)
qed

lemma crc_register_word: "unat (fold (\<lambda>c r. crc32_byte r c) s (not 0)) = crc_register s"
proof -
  have "unat (fold (\<lambda>c r. crc32_byte r c) s r) = fold crc_byte (map of_char s) (unat r)" for r
    by (induction s arbitrary: r) (simp_all add: crc_byte_word)
  from this [of "not 0"] show ?thesis by (simp add: crc_register_def unsigned_minus_1_eq_mask mask_eq_exp_minus_1)
qed

lemma ring_hash_register:
  assumes "ring_hash (ch_New n None) s = ring_hash (ch_New n None) s'"
  shows "crc_register s = crc_register s'"
  using assms unfolding crc_register_word [symmetric]
  by (simp add: ring_hash_def ch_New_def crc32_ChecksumIEEE_def bit.compl_eq_compl_iff flip: word_uint_eq_iff)

definition point_registers :: "string \<Rightarrow> nat list" where
  "point_registers a = map (\<lambda>i. crc_register (Itoa i @ a)) [0 ..< 50]"

lemma registers_8001: "point_registers ''http://localhost:8001'' =
    [4204421070, 3987880718, 3570046542, 3286430350, 2788936910, 2970855438, 2288715086, 2671993230,
     1138325966, 1425087758, 3103238762, 2950680234, 2527552490, 2173634346, 3830856042, 4085145002,
     3389452522, 3710817322, 28609642, 379381930, 3457323863, 3644520343, 3762445015, 4150935063,
     2461204567, 2241553559, 3169044951, 2882252055, 2001843543, 1618596247, 1432451459, 1112087875,
     2066853891, 1813632195, 163637891, 518557251, 663757571, 817383363, 3961675651, 4211751747,
     601415981, 888178157, 227027117, 446712941, 2138665517, 1750144749, 1361689517, 1174527853,
     2593900333, 2377360365]"
  by (simp add: point_registers_def crc_register_def crc_byte_def crc_bit_eval Itoa.simps digit_char_def upt_rec)

lemma registers_8002: "point_registers ''http://localhost:8002'' =
    [1670581876, 1958439604, 1304676340, 1525392180, 1060281716, 672856500, 291656948, 105525300,
     3671074932, 3455601844, 570358736, 920035088, 263074384, 411457168, 2103404752, 1786186768,
     1393533264, 1143457168, 2562579920, 2408954128, 1461437165, 1077126701, 2034961261, 1852010413,
     196760045, 479343917, 636131437, 851639469, 3998803181, 4184899629, 3429378105, 3678424313,
     3795378617, 4111500665, 2429139769, 2279727097, 3197727417, 2846955129, 1965755961, 1644391161,
     3134304407, 2918831191, 2491513111, 2208898519, 3866108823, 4049094487, 3357600279, 3741880023,
     59938455, 347796055]"
  by (simp add: point_registers_def crc_register_def crc_byte_def crc_bit_eval Itoa.simps digit_char_def upt_rec)

lemma registers_8003: "point_registers ''http://localhost:8003'' =
    [345259746, 62675490, 985986914, 770479010, 1211477474, 1595787554, 1717920866, 1900871842,
     2916554978, 3137305634, 1459211078, 1104260998, 2024342214, 1870751238, 173561926, 493894790,
     604541382, 857797894, 4022005062, 4170353030, 538767995, 926193339, 239877115, 426008379,
     2092786043, 1804928443, 1391307003, 1170590779, 2573194363, 2390208699, 3144620207, 2890366063,
     2503987503, 2182591983, 3889073071, 4041666415, 3382592047, 3736479471, 36454063, 352606831,
     3453386753, 3674137793, 3817228673, 4105055553, 2440499969, 2254403521, 3207060097, 2819604033,
     1955964417, 1673380545]"
  by (simp add: point_registers_def crc_register_def crc_byte_def crc_bit_eval Itoa.simps digit_char_def upt_rec)

lemma points_disjoint:
  assumes "set (point_registers a) \<inter> set (point_registers b) = {}"
  shows "set (node_points (ch_New defaultReplicas None) a) \<inter> set (node_points (ch_New defaultReplicas None) b) = {}"
proof -
  have reps: "nat (replicas (ch_New defaultReplicas None)) = 50" by (simp add: ch_New_def defaultReplicas_def)
  have "crc_register (Itoa i @ a) \<noteq> crc_register (Itoa j @ b)" if "i < 50" "j < 50" for i j
  proof -
    have "crc_register (Itoa i @ a) \<in> set (point_registers a)" "crc_register (Itoa j @ b) \<in> set (point_registers b)"
      using that by (auto simp: point_registers_def)
    with assms show ?thesis by auto
  qed
  then show ?thesis by (fastforce simp: node_points_def reps dest: ring_hash_register)
qed

lemma program_addresses_collision_free:
  "collision_free (ch_New defaultReplicas None) {''http://localhost:8001'', ''http://localhost:8002'', ''http://localhost:8003''}"
proof -
  have "set (point_registers ''http://localhost:8001'') \<inter> set (point_registers ''http://localhost:8002'') = {}"
    "set (point_registers ''http://localhost:8001'') \<inter> set (point_registers ''http://localhost:8003'') = {}"
    "set (point_registers ''http://localhost:8002'') \<inter> set (point_registers ''http://localhost:8003'') = {}"
    by (simp_all add: registers_8001 registers_8002 registers_8003)
  from this [THEN points_disjoint] show ?thesis unfolding collision_free_def by (auto simp: Int_commute)
qed

end
