(* ===== verification/Cache_Cluster.thy ===== *)
theory Cache_Cluster
  imports Cache_Main Ring_Addresses
begin

text \<open>
  The nodes of the cache together: any number of processes of MyCache/main/main.go, each with a
  group (mycache.go) and a pool (http.go), that ask each other over HTTP. A request to a node
  runs there to its end, and so do the requests that it sends to other nodes on the way.
\<close>

section \<open>Nodes\<close>

text \<open>
  A node is its group and its pool. \<open>nd_busy\<close> says that it is in the middle of a request; what
  comes of another one that reaches it then is a parameter, \<open>deep\<close>, of the network.
\<close>

record 'w node =
  nd_name :: string
  nd_getter :: "'w getter"
  nd_cache :: bcache
  nd_loader :: "(string + ByteView) sf_group"
  nd_pool :: http_pool
  nd_busy :: bool

type_synonym 'w cluster = "string \<Rightarrow> 'w node option"
type_synonym 'w cluster_client = "('w cluster \<times> 'w) http_client"

definition node_of :: "'w cache_process \<Rightarrow> 'w node" where
  "node_of p = \<lparr>nd_name = gname (cp_group p), nd_getter = getter_fn (cp_group p), nd_cache = mainCache (cp_group p),
     nd_loader = loader (cp_group p), nd_pool = cp_pool p, nd_busy = False\<rparr>"

text \<open>The group of a node; the rest of the cluster is part of its world.\<close>

definition node_group ::
  "'w cluster_client \<Rightarrow> (bytes \<Rightarrow> string + pb_response) \<Rightarrow> 'w node \<Rightarrow> ('w cluster \<times> 'w) Group" where
  "node_group http unmarshal nd =
     \<lparr>gname = nd_name nd, getter_fn = (\<lambda>k (C, w). let (r, w1) = nd_getter nd k w in (r, C, w1)),
      mainCache = nd_cache nd, peers = Some (pool_picker http unmarshal (nd_pool nd)), loader = nd_loader nd\<rparr>"

definition node_back :: "'w node \<Rightarrow> ('w cluster \<times> 'w) Group \<Rightarrow> 'w node" where
  "node_back nd g = nd\<lparr>nd_cache := mainCache g, nd_loader := loader g\<rparr>"

text \<open>Node \<open>a\<close> works on a request, with its group.\<close>

definition node_runs ::
  "string \<Rightarrow> 'w node \<Rightarrow> 'w cluster_client \<Rightarrow> (bytes \<Rightarrow> string + pb_response) \<Rightarrow>
   (('w cluster \<times> 'w) Group \<times> 'w cluster \<times> 'w \<Rightarrow> ('w cluster \<times> 'w, 'a) group_run) \<Rightarrow> 'w cluster \<times> 'w \<Rightarrow>
   'a outcome \<times> 'w cluster \<times> 'w" where
  "node_runs a nd http unmarshal act = (\<lambda>(C, w).
     let (r, g, C1, w1) = act (node_group http unmarshal nd, C(a \<mapsto> nd\<lparr>nd_busy := True\<rparr>), w)
     in (r, C1(a \<mapsto> node_back nd g), w1))"

definition one_group :: "'v Group \<Rightarrow> 'v group_table" where
  "one_group g = \<lparr>groups = [gname g \<mapsto> 0], group_at = [0 \<mapsto> g], group_nxt = 1\<rparr>"

definition serve ::
  "(pb_response \<Rightarrow> string + bytes) \<Rightarrow> http_pool \<Rightarrow> string \<Rightarrow> 'v Group \<times> 'v \<Rightarrow> ('v, http_response) group_run" where
  "serve marshal p path = (\<lambda>(g, s).
     let (r, T, s1) = ServeHTTP marshal p path (one_group g, s) in (r, the (group_at T 0), s1))"

text \<open>The address in a URL: its scheme, which is \<open>http\<close>, and its host and port.\<close>

definition url_address :: "string \<Rightarrow> string" where
  "url_address url = take 7 url @ takeWhile (\<lambda>c. c \<noteq> CHR ''/'') (drop 7 url)"

text \<open>A GET of a URL; the node that is asked may ask others, to a depth of \<open>n\<close>.\<close>

fun cluster_http ::
  "(pb_response \<Rightarrow> string + bytes) \<Rightarrow> (bytes \<Rightarrow> string + pb_response) \<Rightarrow> 'w cluster_client \<Rightarrow> nat \<Rightarrow> 'w cluster_client" where
  "cluster_http marshal unmarshal deep 0 url s = deep url s"
| "cluster_http marshal unmarshal deep (Suc n) url (C, w) =
     (let a = url_address url
      in case C a of
           None \<Rightarrow> (Ret (Inl ''connection refused''), C, w)
         | Some nd \<Rightarrow>
             if nd_busy nd then deep url (C, w)
             else case path_unescape (drop (length a) url) of
                    None \<Rightarrow> (Ret (Inl ''invalid URL escape''), C, w)
                  | Some path \<Rightarrow>
                      (case node_runs a nd (cluster_http marshal unmarshal deep n) unmarshal
                              (serve marshal (nd_pool nd) path) (C, w) of
                         (Ret resp, s1) \<Rightarrow> (Ret (Inr (status_code resp, Inr (resp_body resp))), s1)
                       | (Panic m, s1) \<Rightarrow> (Ret (Inl ''EOF''), s1)
                       | (Hang, s1) \<Rightarrow> (Hang, s1)))"

text \<open>A request of a user to the API server of a node, and a sequence of them.\<close>

definition cluster_api ::
  "'w cluster_client \<Rightarrow> (bytes \<Rightarrow> string + pb_response) \<Rightarrow> string \<Rightarrow> string \<Rightarrow> 'w cluster \<times> 'w \<Rightarrow>
   (string + http_response) outcome \<times> 'w cluster \<times> 'w" where
  "cluster_api http unmarshal a key s =
     (case fst s a of
        None \<Rightarrow> (Ret (Inl ''connection refused''), s)
      | Some nd \<Rightarrow>
          (case node_runs a nd http unmarshal (api_handler key) s of
             (r, s1) \<Rightarrow> (bind_outcome r (\<lambda>x. Ret (Inr x)), s1)))"

fun cluster_run ::
  "'w cluster_client \<Rightarrow> (bytes \<Rightarrow> string + pb_response) \<Rightarrow> (string \<times> string) list \<Rightarrow> 'w cluster \<times> 'w \<Rightarrow>
   (string + http_response) outcome list" where
  "cluster_run http unmarshal [] s = []"
| "cluster_run http unmarshal ((a, k) # rs) s =
     (let (r, s1) = cluster_api http unmarshal a k s in r # cluster_run http unmarshal rs s1)"

section \<open>One key\<close>

text \<open>\<open>Get\<close> asks its picker for its own key only, so a picker that picks nobody for other keys serves.\<close>

definition only_for :: "string \<Rightarrow> 'w peer_picker \<Rightarrow> 'w peer_picker" where
  "only_for key pick k w = (if k = key then pick k w else Ret None)"

lemma getLocally_peers:
  "getLocally key (g\<lparr>peers := p\<rparr>, w) = (let (r, g', w') = getLocally key (g, w) in (r, g'\<lparr>peers := p\<rparr>, w'))"
proof (cases "getter_fn g key w")
  case (Pair r w1)
  then show ?thesis
    by (cases r) (auto simp: getLocally_def populateCache_def Let_def split: sum.split option.split)
qed

lemma getFromPeer_peers:
  "getFromPeer pr key (g\<lparr>peers := p\<rparr>, w) = (let (r, g', w') = getFromPeer pr key (g, w) in (r, g'\<lparr>peers := p\<rparr>, w'))"
  by (simp add: getFromPeer_result split: prod.split)

lemma load_fn_peers:
  assumes "peers g = Some pick"
  shows "load_fn key (g\<lparr>peers := Some (only_for key pick)\<rparr>, w) =
    (let (r, g', w') = load_fn key (g, w) in (r, g'\<lparr>peers := Some (only_for key pick)\<rparr>, w'))"
proof (cases "pick key w")
  case (Ret picked)
  show ?thesis
  proof (cases picked)
    case None
    then show ?thesis by (simp add: load_fn_def assms Ret only_for_def getLocally_peers)
  next
    case (Some pr)
    obtain r g1 w1 where E: "getFromPeer pr key (g, w) = (r, g1, w1)" by (metis prod.collapse)
    show ?thesis
      by (cases r) (auto simp: load_fn_def assms Ret Some only_for_def getFromPeer_peers E getLocally_peers
          split: sum.split)
  qed
qed (simp_all add: load_fn_def assms only_for_def)

lemma Get_only_for:
  assumes "peers g = Some pick" and "sf_m (loader g) key = None"
  shows "Group_Get key (g\<lparr>peers := Some (only_for key pick)\<rparr>, w) =
    (let (r, g', w') = Group_Get key (g, w) in (r, g'\<lparr>peers := Some (only_for key pick)\<rparr>, w'))"
proof -
  have load: "load key (h\<lparr>peers := Some (only_for key pick)\<rparr>, w) =
      (let (r, g', w') = load key (h, w) in (r, g'\<lparr>peers := Some (only_for key pick)\<rparr>, w'))"
    if "peers h = Some pick" and "sf_m (loader h) key = None" for h
    using load_fn_peers [OF that(1), of key w] load_idle [OF that(2), of w]
      load_idle [of "h\<lparr>peers := Some (only_for key pick)\<rparr>" key w] that(2)
    by (auto simp: Let_def split: prod.splits outcome.splits)
  have swap: "g\<lparr>peers := p, mainCache := c\<rparr> = g\<lparr>mainCache := c, peers := p\<rparr>" for p c by simp
  show ?thesis using load [of "g\<lparr>mainCache := c\<rparr>" for c] assms
    by (simp add: Group_Get_def swap split: prod.split option.split)
qed

section \<open>The cluster\<close>

definition node_ok ::
  "int64 \<Rightarrow> (string \<Rightarrow> string + bytes) \<Rightarrow> ('w \<Rightarrow> bool) \<Rightarrow> string \<Rightarrow> 'w node \<Rightarrow> bool" where
  "node_ok m src W grp nd \<longleftrightarrow> nd_name nd = grp \<and> cache_inv m (nd_cache nd) \<and>
     (\<forall>k. sf_m (nd_loader nd) k = None) \<and>
     (\<forall>k w. W w \<longrightarrow> (\<exists>w'. nd_getter nd k w = (Ret (src k), w') \<and> W w')) \<and>
     (\<forall>k v. cache_find (nd_cache nd) k = Some v \<longrightarrow> src k = Inr (bv_b v))"

text \<open>
  A cluster of the nodes \<open>U\<close>, of which those in \<open>B\<close> are busy. All have the same group, over the same
  source, and the same set of addresses in some order.
\<close>

definition cluster_ok ::
  "int64 \<Rightarrow> (string \<Rightarrow> string + bytes) \<Rightarrow> ('w \<Rightarrow> bool) \<Rightarrow> string \<Rightarrow> string set \<Rightarrow> string set \<Rightarrow> string set \<Rightarrow>
   'w cluster \<times> 'w \<Rightarrow> bool" where
  "cluster_ok m src W grp addrs U B = (\<lambda>(C, w). W w \<and> dom C = U \<and>
     (\<forall>a nd. C a = Some nd \<longrightarrow> node_ok m src W grp nd \<and> (nd_busy nd \<longleftrightarrow> a \<in> B) \<and>
        (\<exists>order. set order = addrs \<and> nd_pool nd = pool_Set order (NewHTTPPool a))))"

definition is_addr :: "string \<Rightarrow> bool" where
  "is_addr a \<longleftrightarrow> (\<exists>h. a = ''http://'' @ h \<and> CHR ''/'' \<notin> set h)"

lemma takeWhile_up_to: "c \<notin> set s \<Longrightarrow> takeWhile (\<lambda>x. x \<noteq> c) (s @ c # t) = s"
  by (induction s) auto

lemma url_address_base: "is_addr a \<Longrightarrow> url_address (a @ defaultBasePath @ s) = a"
  by (auto simp: is_addr_def url_address_def defaultBasePath_def takeWhile_up_to)

lemma cluster_okD:
  assumes "cluster_ok m src W grp addrs U B (C, w)" and "C a = Some nd"
  shows "node_ok m src W grp nd" and "nd_busy nd \<longleftrightarrow> a \<in> B"
    and "\<exists>order. set order = addrs \<and> nd_pool nd = pool_Set order (NewHTTPPool a)" and "W w"
  using assms by (auto simp: cluster_ok_def)

lemma cluster_ok_upd:
  assumes "cluster_ok m src W grp addrs U B (C, w)" and "C a = Some nd" and "node_ok m src W grp nd'"
    and "nd_pool nd' = nd_pool nd" and "nd_busy nd' \<longleftrightarrow> a \<in> B'" and "B' - {a} = B - {a}"
  shows "cluster_ok m src W grp addrs U B' (C(a \<mapsto> nd'), w)"
  using assms unfolding cluster_ok_def by (auto split: if_splits)

text \<open>
  A node that is not busy gets a key: the answer is the one of the source, and the cluster is in
  order afterwards, provided that whoever its pool picks for this key answers well.
\<close>

definition picks_well ::
  "int64 \<Rightarrow> (string \<Rightarrow> string + bytes) \<Rightarrow> ('w \<Rightarrow> bool) \<Rightarrow> string \<Rightarrow> string set \<Rightarrow> string set \<Rightarrow> string set \<Rightarrow> string \<Rightarrow>
   ('w cluster \<times> 'w) peer_picker \<Rightarrow> bool" where
  "picks_well m src W grp addrs U B key pick \<longleftrightarrow> (\<forall>s. \<exists>x. pick key s = Ret x \<and>
     (\<forall>p. x = Some p \<longrightarrow> peer_agrees src (cluster_ok m src W grp addrs U B) grp key p))"

lemma node_Get:
  assumes "cluster_ok m src W grp addrs U B (C, w)" and "C a = Some nd" and "a \<notin> B" and "src_room m src"
    and "picks_well m src W grp addrs U (insert a B) key (pool_picker http unmarshal (nd_pool nd))"
  shows "\<exists>g C1 w1. Group_Get key (node_group http unmarshal nd, C(a \<mapsto> nd\<lparr>nd_busy := True\<rparr>), w) =
      (Ret (if key = '''' then Inl need_key else as_view (src key)), g, C1, w1) \<and>
    cluster_ok m src W grp addrs U B (C1(a \<mapsto> node_back nd g), w1)"
proof -
  let ?V = "cluster_ok m src W grp addrs U (insert a B)" and ?g = "node_group http unmarshal nd"
  let ?pick = "pool_picker http unmarshal (nd_pool nd)"
  let ?r = "?g\<lparr>peers := Some (only_for key ?pick)\<rparr>"
  note nd = cluster_okD [OF assms(1,2)]
  have V: "?V (C(a \<mapsto> nd\<lparr>nd_busy := True\<rparr>), w)"
    using assms(2,3) nd(1) by (intro cluster_ok_upd [OF assms(1,2)]) (auto simp: node_ok_def)
  have getter: "\<exists>s'. getter_fn ?r k s = (Ret (src k), s') \<and> ?V s'" if "?V s" for k s
  proof -
    obtain C' v where s: "s = (C', v)" by (cases s)
    then have "W v" using that by (simp add: cluster_ok_def)
    then obtain v' where "nd_getter nd k v = (Ret (src k), v')" "W v'" using nd(1) unfolding node_ok_def by blast
    with that show ?thesis by (simp add: s node_group_def cluster_ok_def)
  qed
  have "group_ok m src ?V ?r"
    unfolding group_ok_def source_is_def peers_agree_def
  proof (intro conjI allI impI)
    fix pick k s
    assume "peers ?r = Some pick"
    then have p: "pick = only_for key ?pick" by simp
    show "\<exists>x. pick k s = Ret x \<and> (\<forall>p. x = Some p \<longrightarrow> peer_agrees src ?V (gname ?r) k p)"
    proof (cases "k = key")
      case True
      have "gname ?r = grp" using nd(1) by (simp add: node_group_def node_ok_def)
      with assms(5) [unfolded picks_well_def, rule_format, of s] show ?thesis
        unfolding p True only_for_def by simp
    qed (simp add: p only_for_def)
  qed (use nd(1) getter in \<open>auto simp: node_group_def node_ok_def\<close>)
  from Get_ok [OF this assms(4) V, of key] obtain g' C1 w1 where G:
    "Group_Get key (?r, C(a \<mapsto> nd\<lparr>nd_busy := True\<rparr>), w) =
      (Ret (if key = '''' then Inl need_key else as_view (src key)), g', C1, w1)"
    "group_ok m src ?V g'" "?V (C1, w1)" by auto
  have "peers ?g = Some ?pick" "sf_m (loader ?g) key = None" using nd(1) by (simp_all add: node_group_def node_ok_def)
  from Get_only_for [OF this, of "(C(a \<mapsto> nd\<lparr>nd_busy := True\<rparr>), w)"] G(1) obtain g where g:
    "Group_Get key (?g, C(a \<mapsto> nd\<lparr>nd_busy := True\<rparr>), w) =
      (Ret (if key = '''' then Inl need_key else as_view (src key)), g, C1, w1)"
    "g' = g\<lparr>peers := Some (only_for key ?pick)\<rparr>"
    by (auto simp: Let_def split: prod.splits)
  have "a \<in> dom C1" using G(3) assms(1,2) by (auto simp: cluster_ok_def)
  then obtain nd1 where nd1: "C1 a = Some nd1" by auto
  from cluster_okD [OF G(3) nd1] obtain order where "nd_pool nd1 = pool_Set order (NewHTTPPool a)" "set order = addrs"
    by auto
  have "node_ok m src W grp (node_back nd g)"
    using nd(1) G(2) g(2) by (simp add: node_ok_def node_back_def group_ok_def)
  have "cluster_ok m src W grp addrs U B (C1(a \<mapsto> node_back nd g), w1)"
    using G(3) assms(3) nd(2,3) \<open>node_ok m src W grp (node_back nd g)\<close> \<open>a \<in> dom C1\<close>
    unfolding cluster_ok_def by (auto simp: node_back_def)
  with g(1) show ?thesis by blast
qed

section \<open>The owner of a key\<close>

definition owner_of :: "string set \<Rightarrow> string \<Rightarrow> string \<Rightarrow> bool" where
  "owner_of addrs key own \<longleftrightarrow> (\<forall>a order. set order = addrs \<longrightarrow> PickPeer key (pool_Set order (NewHTTPPool a)) =
     Ret (if a = own then None else Some (Some \<lparr>baseURL = own @ defaultBasePath\<rparr>)))"

lemma owner_ex:
  assumes "collision_free (ch_New defaultReplicas None) addrs" and "finite addrs" and "addrs \<noteq> {}" and "'''' \<notin> addrs"
  shows "\<exists>own \<in> addrs. owner_of addrs key own"
proof -
  obtain as where "set as = addrs" using finite_list [OF assms(2)] ..
  with one_owner [of as key] assms show ?thesis unfolding owner_of_def by fastforce
qed

lemma owner_picks:
  assumes "owner_of addrs key own" and "set order = addrs"
  shows "pool_picker http unmarshal (pool_Set order (NewHTTPPool a)) key s =
    Ret (if a = own then None else Some (httpGetter_Get http unmarshal \<lparr>baseURL = own @ defaultBasePath\<rparr>))"
  using assms by (simp add: pool_picker_def owner_of_def)

lemma owner_loads_itself:
  assumes "owner_of addrs key own" and "cluster_ok m src W grp addrs U B (C, w)" and "C own = Some nd"
  shows "picks_well m src W grp addrs U B' key (pool_picker http unmarshal (nd_pool nd))"
proof -
  obtain order where "set order = addrs" "nd_pool nd = pool_Set order (NewHTTPPool own)"
    using cluster_okD(3) [OF assms(2,3)] by blast
  with owner_picks [OF assms(1), of order http unmarshal own] show ?thesis unfolding picks_well_def by simp
qed

lemma serve_path:
  assumes "CHR ''/'' \<notin> set (gname g)" and "Group_Get key (g, s) = (r, g1, s1)"
    and "basePath p = defaultBasePath"
  shows "serve marshal p (defaultBasePath @ gname g @ ''/'' @ key) (g, s) =
    bind_run (r, g1, s1) (\<lambda>x s.
      case x of
        Inl e \<Rightarrow> (Ret (http_Error e 500), s)
      | Inr view \<Rightarrow>
          (case marshal \<lparr>resp_Value = bv_b view\<rparr> of
             Inl e \<Rightarrow> (Ret (http_Error e 500), s)
           | Inr bs \<Rightarrow> (Ret \<lparr>status_code = 200, resp_body = bs\<rparr>, s)))"
proof -
  have "GetGroup (gname g) (one_group g) = Some 0" "group_at (one_group g) 0 = Some g"
    by (simp_all add: GetGroup_def one_group_def)
  note S = ServeHTTP_request [OF assms(1) this assms(2), of marshal p, unfolded assms(3)]
  show ?thesis
  proof (cases r)
    case (Ret x)
    then show ?thesis by (simp add: serve_def S Let_def split: sum.split del: append_Cons)
  qed (simp_all add: serve_def S Let_def del: append_Cons)
qed

lemma pool_basePath: "basePath (pool_Set order (NewHTTPPool a)) = defaultBasePath"
  by (simp add: pool_Set_def Set_fold NewHTTPPool_def Let_def)

lemma owner_answers:
  assumes "owner_of addrs key own" and "is_addr own" and "own \<noteq> me"
    and "CHR ''/'' \<notin> set grp" and "CHR '' '' \<notin> set grp" and "CHR '' '' \<notin> set key" and "src_room m src"
    and "\<And>r. \<exists>bs. marshal r = Inr bs \<and> unmarshal bs = Inr r"
  shows "peer_agrees src (cluster_ok m src W grp addrs U {me}) grp key
    (httpGetter_Get (cluster_http marshal unmarshal deep (Suc n)) unmarshal \<lparr>baseURL = own @ defaultBasePath\<rparr>)"
  unfolding peer_agrees_def
proof (intro allI impI)
  fix s :: "'a cluster \<times> 'a"
  assume s_ok: "cluster_ok m src W grp addrs U {me} s"
  obtain C w where s: "s = (C, w)" by (cases s)
  note ok = s_ok [unfolded s]
  let ?url = "own @ defaultBasePath @ url_QueryEscape grp @ ''/'' @ url_QueryEscape key"
  let ?http = "cluster_http marshal unmarshal deep n"
  have addr: "url_address ?url = own" by (rule url_address_base [OF assms(2)])
  have path: "path_unescape (defaultBasePath @ url_QueryEscape grp @ ''/'' @ url_QueryEscape key) =
      Some (defaultBasePath @ grp @ ''/'' @ key)"
    using request_path [of grp key] space_to_plus_id assms(5,6) by simp
  let ?get = "httpGetter_Get (cluster_http marshal unmarshal deep (Suc n)) unmarshal
    \<lparr>baseURL = own @ defaultBasePath\<rparr> \<lparr>req_Group = grp, req_Key = key\<rparr> s"
  note D = s httpGetter_Get_def addr path
  show "\<exists>x s'. ?get = (Ret x, s') \<and> cluster_ok m src W grp addrs U {me} s' \<and>
    (\<forall>res. x = Inr res \<longrightarrow> src key = Inr (resp_Value res))"
  proof (cases "C own")
    case None
    then show ?thesis using ok by (simp add: D del: append_Cons)
  next
    case (Some nd)
    note nd = cluster_okD [OF ok Some]
    have free: "\<not> nd_busy nd" using nd(2) assms(3) by simp
    have base: "basePath (nd_pool nd) = defaultBasePath" using nd(3) pool_basePath by auto
    from node_Get [OF ok Some _ assms(7) owner_loads_itself [OF assms(1) ok Some], of ?http unmarshal] assms(3)
    obtain g C1 w1 where G: "Group_Get key (node_group ?http unmarshal nd, C(own \<mapsto> nd\<lparr>nd_busy := True\<rparr>), w) =
        (Ret (if key = '''' then Inl need_key else as_view (src key)), g, C1, w1)"
      "cluster_ok m src W grp addrs U {me} (C1(own \<mapsto> node_back nd g), w1)"
      by blast
    have nm: "gname (node_group ?http unmarshal nd) = grp" using nd(1) by (simp add: node_group_def node_ok_def)
    note S = serve_path [OF _ G(1) base, unfolded nm, OF assms(4), of marshal]
    let ?s1 = "(C1(own \<mapsto> node_back nd g), w1)"
    have "\<exists>x. ?get = (Ret x, ?s1) \<and> (\<forall>res. x = Inr res \<longrightarrow> src key = Inr (resp_Value res))"
    proof (cases "key = '''' \<or> (\<exists>e. src key = Inl e)")
      case True
      then show ?thesis
        by (auto simp: D Some free node_runs_def S as_view_def http_Error_def Let_def simp del: append_Cons)
    next
      case False
      then obtain bs where bs: "key \<noteq> ''''" "src key = Inr bs" by (cases "src key") auto
      obtain out where "marshal \<lparr>resp_Value = bs\<rparr> = Inr out" "unmarshal out = Inr \<lparr>resp_Value = bs\<rparr>"
        using assms(8) by blast
      with bs show ?thesis by (simp add: D Some free node_runs_def S as_view_def Let_def del: append_Cons)
    qed
    with G(2) show ?thesis by blast
  qed
qed

section \<open>Requests of users\<close>

definition api_answer :: "(string \<Rightarrow> string + bytes) \<Rightarrow> string \<Rightarrow> http_response" where
  "api_answer src k =
     (if k = '''' then http_Error need_key 500
      else case src k of Inr bs \<Rightarrow> \<lparr>status_code = 200, resp_body = bs\<rparr> | Inl e \<Rightarrow> http_Error e 500)"

definition same_addresses :: "string set \<Rightarrow> bool" where
  "same_addresses addrs \<longleftrightarrow> collision_free (ch_New defaultReplicas None) addrs \<and> finite addrs \<and> addrs \<noteq> {} \<and>
     (\<forall>a \<in> addrs. is_addr a)"

lemma cluster_api_ok:
  assumes "same_addresses addrs" and "CHR ''/'' \<notin> set grp" and "CHR '' '' \<notin> set grp"
    and "\<And>r. \<exists>bs. marshal r = Inr bs \<and> unmarshal bs = Inr r" and "src_room m src"
    and "cluster_ok m src W grp addrs U {} s" and "a \<in> U" and "CHR '' '' \<notin> set key"
  shows "\<exists>s'. cluster_api (cluster_http marshal unmarshal deep (Suc n)) unmarshal a key s =
      (Ret (Inr (api_answer src key)), s') \<and> cluster_ok m src W grp addrs U {} s'"
proof -
  let ?http = "cluster_http marshal unmarshal deep (Suc n)"
  obtain C w where s: "s = (C, w)" by (cases s)
  note ok = assms(6) [unfolded s]
  obtain nd where nd: "C a = Some nd" using ok assms(7) by (auto simp: cluster_ok_def)
  have "'''' \<notin> addrs" using assms(1) by (auto simp: same_addresses_def is_addr_def)
  then obtain own where own: "own \<in> addrs" "owner_of addrs key own"
    using owner_ex [of addrs key] assms(1) by (auto simp: same_addresses_def)
  have addr: "is_addr own" using own(1) assms(1) by (simp add: same_addresses_def)
  obtain order where "set order = addrs" "nd_pool nd = pool_Set order (NewHTTPPool a)"
    using cluster_okD(3) [OF ok nd] by blast
  then have "picks_well m src W grp addrs U {a} key (pool_picker ?http unmarshal (nd_pool nd))"
    using owner_picks [OF own(2), of order ?http unmarshal a]
      owner_answers [OF own(2) addr _ assms(2,3,8,5,4), of a W U deep n]
    by (auto simp: picks_well_def simp del: cluster_http.simps)
  from node_Get [OF ok nd _ assms(5) this] obtain g C1 w1 where G:
    "Group_Get key (node_group ?http unmarshal nd, C(a \<mapsto> nd\<lparr>nd_busy := True\<rparr>), w) =
      (Ret (if key = '''' then Inl need_key else as_view (src key)), g, C1, w1)"
    "cluster_ok m src W grp addrs U {} (C1(a \<mapsto> node_back nd g), w1)" by auto
  have "cluster_api ?http unmarshal a key s = (Ret (Inr (api_answer src key)), C1(a \<mapsto> node_back nd g), w1)"
    by (cases "src key") (auto simp: s cluster_api_def nd node_runs_def api_handler_def G(1) api_answer_def as_view_def
        simp del: cluster_http.simps)
  with G(2) show ?thesis by blast
qed

lemma cluster_run_ok:
  assumes "same_addresses addrs" and "CHR ''/'' \<notin> set grp" and "CHR '' '' \<notin> set grp"
    and "\<And>r. \<exists>bs. marshal r = Inr bs \<and> unmarshal bs = Inr r" and "src_room m src"
    and "cluster_ok m src W grp addrs U {} s" and "\<forall>(a, k) \<in> set rs. a \<in> U \<and> CHR '' '' \<notin> set k"
  shows "cluster_run (cluster_http marshal unmarshal deep (Suc n)) unmarshal rs s =
    map (\<lambda>(a, k). Ret (Inr (api_answer src k))) rs"
  using assms(6,7)
proof (induction rs arbitrary: s)
  case (Cons r rs)
  obtain a k where r: "r = (a, k)" by (cases r)
  with Cons.prems have "a \<in> U" "CHR '' '' \<notin> set k" by auto
  from cluster_api_ok [OF assms(1-5) Cons.prems(1) this, of deep n] obtain s' where
    "cluster_api (cluster_http marshal unmarshal deep (Suc n)) unmarshal a k s = (Ret (Inr (api_answer src k)), s')"
    "cluster_ok m src W grp addrs U {} s'" by blast
  with Cons.IH [of s'] Cons.prems(2) r show ?case by (simp del: cluster_http.simps)
qed simp

section \<open>The program's cluster\<close>

text \<open>The processes that got as far as listening, by their addresses, from their flags.\<close>

definition main_node ::
  "string list http_client \<Rightarrow> (bytes \<Rightarrow> string + pb_response) \<Rightarrow> int \<times> int list \<times> bool \<Rightarrow>
   (string \<times> string list node) list" where
  "main_node http unmarshal = (\<lambda>(port, order, api).
     case cache_main http unmarshal order port api of
       Ret p \<Rightarrow> (case cp_listen p of Ret l \<Rightarrow> [(pool_self (cp_pool p), node_of p)] | _ \<Rightarrow> [])
     | _ \<Rightarrow> [])"

definition main_cluster ::
  "string list http_client \<Rightarrow> (bytes \<Rightarrow> string + pb_response) \<Rightarrow> (int \<times> int list \<times> bool) list \<Rightarrow> string list cluster" where
  "main_cluster http unmarshal procs = map_of (concat (map (main_node http unmarshal) procs))"

definition program_addrs :: "string set" where
  "program_addrs = {''http://localhost:8001'', ''http://localhost:8002'', ''http://localhost:8003''}"

lemma cache_main_eq:
  "cache_main http unmarshal order port api =
    (let addr = (case addrMap port of Some a \<Rightarrow> a | None \<Rightarrow> '''');
         ps = pool_Set (map (\<lambda>k. the (addrMap k)) order) (NewHTTPPool addr)
     in Ret \<lparr>cp_api = (if api then Some (startAPIServer main_apiAddr) else None), cp_listen = slice_from_7 addr,
          cp_pool = ps, cp_group = \<lparr>gname = ''scores'', getter_fn = GetterFunc_Get slow_db, mainCache = new_cache 2048,
            peers = Some (pool_picker http unmarshal ps), loader = sf_init\<rparr>\<rparr>)"
  by (simp add: cache_main_def createGroup_def NewGroup_def limit_2048 no_groups_def startCacheServer_def
      RegisterPeers_def Let_def)

lemma addrMap_cases: "addrMap port = Some a \<Longrightarrow> a \<in> program_addrs"
  by (auto simp: addrMap_def program_addrs_def split: if_splits)

lemma addrMap_all: "set order = {8001, 8002, 8003} \<Longrightarrow> (\<lambda>k. the (addrMap k)) ` set order = program_addrs"
  by (simp add: addrMap_def program_addrs_def)

lemma main_cluster_ok:
  assumes "\<forall>(port, order, api) \<in> set procs. set order = {8001, 8002, 8003}"
  shows "cluster_ok 2048 db_src (\<lambda>_. True) ''scores'' program_addrs (dom (main_cluster http unmarshal procs)) {}
    (main_cluster http unmarshal procs, searched)"
proof -
  have "node_ok 2048 db_src (\<lambda>_. True) ''scores'' nd \<and> \<not> nd_busy nd \<and>
      (\<exists>order. set order = program_addrs \<and> nd_pool nd = pool_Set order (NewHTTPPool a))"
    if node: "main_cluster http unmarshal procs a = Some nd" for a nd
  proof -
    obtain port order api where p: "(port, order, api) \<in> set procs"
      "(a, nd) \<in> set (main_node http unmarshal (port, order, api))"
      using map_of_SomeD [OF node [unfolded main_cluster_def]] by auto
    let ?addr = "case addrMap port of Some a \<Rightarrow> a | None \<Rightarrow> ''''"
    let ?ps = "pool_Set (map (\<lambda>k. the (addrMap k)) order) (NewHTTPPool ?addr)"
    have nd: "nd = \<lparr>nd_name = ''scores'', nd_getter = GetterFunc_Get slow_db, nd_cache = new_cache 2048,
        nd_loader = sf_init, nd_pool = ?ps, nd_busy = False\<rparr>" and a: "a = pool_self ?ps"
      using p(2) by (auto simp: main_node_def cache_main_eq node_of_def Let_def split: outcome.splits)
    have "a = ?addr" unfolding a by (simp add: pool_Set_def Set_fold NewHTTPPool_def Let_def)
    moreover have "node_ok 2048 db_src (\<lambda>_. True) ''scores'' nd"
      using demo_inv by (auto simp: nd node_ok_def sf_init_def GetterFunc_Get_def slow_db_def db_src_def split: option.split)
    moreover have "set (map (\<lambda>k. the (addrMap k)) order) = program_addrs"
    proof -
      have "set order = {8001, 8002, 8003}" using assms p(1) by blast
      from addrMap_all [OF this] show ?thesis by simp
    qed
    ultimately show ?thesis unfolding nd by (auto intro!: exI [of _ "map (\<lambda>k. the (addrMap k)) order"])
  qed
  then show ?thesis by (auto simp: cluster_ok_def)
qed

lemma program_same_addresses: "same_addresses program_addrs"
  unfolding same_addresses_def program_addrs_def using program_addresses_collision_free
  by (auto simp: is_addr_def)

lemma db_answer: "api_answer db_src k = db_response k"
  by (simp add: api_answer_def db_response_def db_src_def split: option.split)

section \<open>Properties\<close>


text \<open>Two of the three nodes of the program, and requests to both.\<close>

definition demo_procs :: "(int \<times> int list \<times> bool) list" where
  "demo_procs = [(8001, [8001, 8002, 8003], True), (8002, [8003, 8001, 8002], True)]"

abbreviation demo_cluster :: "string list cluster" where
  "demo_cluster \<equiv> main_cluster (\<lambda>u w. (Hang, w)) demo_unmarshal demo_procs"

lemma demo_cluster_up: "{''http://localhost:8001'', ''http://localhost:8002''} \<subseteq> dom demo_cluster"
  by (auto simp: main_cluster_def demo_procs_def main_node_def cache_main_eq Let_def slice_from_7_def addrMap_def
      pool_Set_def Set_fold NewHTTPPool_def)

lemma demo_orders: "\<forall>(port, order, api) \<in> set demo_procs. set order = {8001, 8002, 8003}"
  by (auto simp: demo_procs_def)




text \<open>
  A process that is given a port which is not one of the three panics: the address of its node
  is the empty string, of which the last line of \<open>startCacheServer\<close> takes what follows the first
  seven bytes. Its API server may be running by then.
\<close>

theorem unknown_port_panics:
  assumes "addrMap port = None"
  shows "\<exists>p. cache_main http unmarshal order port api = Ret p \<and>
    cp_listen p = Panic ''runtime error: slice bounds out of range [7:0]''"
  using assms by (simp add: cache_main_eq Let_def slice_from_7_def Itoa.simps digit_char_def)

theorem unknown_port_panics_witness:
  "\<exists>p. cache_main (\<lambda>u w. (Hang, w)) demo_unmarshal [8001, 8002, 8003] 8004 True = Ret p \<and>
    cp_listen p = Panic ''runtime error: slice bounds out of range [7:0]''"
  by (rule unknown_port_panics) (simp add: addrMap_def)

end
