(* ===== verification/Group_Concurrent.thy ===== *)
theory Group_Concurrent
  imports Cache_Group
begin

text \<open>
  \<open>Get\<close> of MyCache/mycache.go called by many goroutines at once, which is how the HTTP server
  calls it. A goroutine moves in blocks: its look into the cache, the blocks of \<open>Do\<close>, and
  inside the function that \<open>Do\<close> runs, the question to the peer, the question to the source and
  the store into the cache. Blocks of different goroutines come in any order. The source and
  the peers answer each question in a world of their own, so they may change their mind.

  The last field, the answers given so far, is for the proofs only.
\<close>

section \<open>State\<close>

datatype gm_pc =
    GM_Idle
  | GM_Look string
  | GM_InDo string
  | GM_Local string
  | GM_Got string bytes
  | GM_Back string "string + ByteView"
  | GM_Panicked string

record 'w gm_state =
  gm_group :: "'w Group"
  gm_pc :: "nat \<Rightarrow> gm_pc"
  gm_answers :: "(string \<times> (string + ByteView)) list"

definition gm_init :: "'w Group \<Rightarrow> 'w gm_state" where
  "gm_init g = \<lparr>gm_group = g, gm_pc = (\<lambda>_. GM_Idle), gm_answers = []\<rparr>"

section \<open>The blocks\<close>

definition gm_set :: "nat \<Rightarrow> gm_pc \<Rightarrow> 'w gm_state \<Rightarrow> 'w gm_state" where
  "gm_set t p s = s\<lparr>gm_pc := (gm_pc s)(t := p)\<rparr>"

definition gm_loader ::
  "((string + ByteView) sf_group \<Rightarrow> (string + ByteView) sf_group) \<Rightarrow> 'w gm_state \<Rightarrow> 'w gm_state" where
  "gm_loader f s = s\<lparr>gm_group := (gm_group s)\<lparr>loader := f (loader (gm_group s))\<rparr>\<rparr>"

definition gm_answer :: "string \<Rightarrow> string + ByteView \<Rightarrow> 'w gm_state \<Rightarrow> 'w gm_state" where
  "gm_answer key r s = s\<lparr>gm_answers := (key, r) # gm_answers s\<rparr>"

text \<open>\<open>Get\<close> up to the call of \<open>load\<close>, which goes straight to \<open>Do\<close>.\<close>

definition Get_look :: "nat \<Rightarrow> string \<Rightarrow> 'w gm_state \<Rightarrow> 'w gm_state" where
  "Get_look t key s =
     (if key = '''' then gm_set t (GM_Back key (Inl need_key)) s
      else case cache_get key (mainCache (gm_group s)) of
             (Some v, c) \<Rightarrow>
               gm_set t (GM_Back key (Inr v)) (s\<lparr>gm_group := (gm_group s)\<lparr>mainCache := c\<rparr>\<rparr>)
           | (None, c) \<Rightarrow>
               gm_set t (GM_InDo key)
                 (gm_loader (set_pc t (Calling key)) (s\<lparr>gm_group := (gm_group s)\<lparr>mainCache := c\<rparr>\<rparr>)))"

text \<open>The part of the function in \<open>load\<close> that asks a peer: \<open>None\<close> when there is none to ask.\<close>

definition ask_peer ::
  "string \<Rightarrow> 'w Group \<times> 'w \<Rightarrow> (string + ByteView) option outcome \<times> 'w" where
  "ask_peer key = (\<lambda>(g, w).
     case peers g of
       None \<Rightarrow> (Ret None, w)
     | Some pick \<Rightarrow>
         bind_run (pick key w, w) (\<lambda>picked w1.
           case picked of
             None \<Rightarrow> (Ret None, w1)
           | Some peer \<Rightarrow>
               (case getFromPeer peer key (g, w1) of
                  (r, _, w2) \<Rightarrow> bind_run (r, w2) (\<lambda>x w3. (Ret (Some x), w3)))))"

definition gm_panic :: "nat \<Rightarrow> string \<Rightarrow> nat \<Rightarrow> 'w gm_state \<Rightarrow> 'w gm_state" where
  "gm_panic t key c s = gm_set t (GM_Panicked key) (gm_loader (set_pc t (Panicked key c)) s)"

text \<open>What a block leaves, if the call it makes comes back at all.\<close>

definition Get_peer :: "'w \<Rightarrow> nat \<Rightarrow> string \<Rightarrow> nat \<Rightarrow> 'w gm_state \<Rightarrow> 'w gm_state option" where
  "Get_peer w t key c s =
     (case fst (ask_peer key (gm_group s, w)) of
        Hang \<Rightarrow> None
      | Panic m \<Rightarrow> Some (gm_panic t key c s)
      | Ret x \<Rightarrow>
          (case x of
             Some (Inr v) \<Rightarrow> Some (gm_loader (Do_assign t key c (Inr v)) (gm_answer key (Inr v) s))
           | _ \<Rightarrow> Some (gm_set t (GM_Local key) s)))"

definition Get_source :: "'w \<Rightarrow> nat \<Rightarrow> string \<Rightarrow> nat \<Rightarrow> 'w gm_state \<Rightarrow> 'w gm_state option" where
  "Get_source w t key c s =
     (case fst (getter_fn (gm_group s) key w) of
        Hang \<Rightarrow> None
      | Panic m \<Rightarrow> Some (gm_panic t key c s)
      | Ret (Inl e) \<Rightarrow>
          Some (gm_set t (GM_InDo key) (gm_loader (Do_assign t key c (Inl e)) (gm_answer key (Inl e) s)))
      | Ret (Inr bs) \<Rightarrow> Some (gm_set t (GM_Got key bs) (gm_answer key (Inr \<lparr>bv_b = bs\<rparr>) s)))"

definition Get_populate :: "nat \<Rightarrow> string \<Rightarrow> bytes \<Rightarrow> nat \<Rightarrow> 'w gm_state \<Rightarrow> 'w gm_state option" where
  "Get_populate t key bs c s =
     (case cache_add key \<lparr>bv_b = bs\<rparr> (mainCache (gm_group s)) of
        None \<Rightarrow> None
      | Some c' \<Rightarrow>
          Some (gm_set t (GM_InDo key) (gm_loader (Do_assign t key c (Inr \<lparr>bv_b = bs\<rparr>))
            (s\<lparr>gm_group := (gm_group s)\<lparr>mainCache := c'\<rparr>\<rparr>))))"

text \<open>The return from \<open>Do\<close>, by its last block or by waking up, is the return of \<open>Get\<close>.\<close>

definition gm_return ::
  "nat \<Rightarrow> string \<Rightarrow> nat \<Rightarrow> ((string + ByteView) sf_group \<Rightarrow> (string + ByteView) sf_group) \<Rightarrow>
   'w gm_state \<Rightarrow> 'w gm_state" where
  "gm_return t key c block s =
     gm_set t (GM_Back key (call_result c (loader (gm_group s)))) (gm_loader block s)"

inductive gm_step :: "nat set \<Rightarrow> 'w gm_state \<Rightarrow> 'w gm_state \<Rightarrow> bool" for T :: "nat set" where
  ask: "t \<in> T \<Longrightarrow> gm_pc s t = GM_Idle \<Longrightarrow> gm_step T s (gm_set t (GM_Look key) s)"
| look: "t \<in> T \<Longrightarrow> gm_pc s t = GM_Look key \<Longrightarrow> gm_step T s (Get_look t key s)"
| enter: "t \<in> T \<Longrightarrow> gm_pc s t = GM_InDo key \<Longrightarrow> sf_pc (loader (gm_group s)) t = Calling key \<Longrightarrow>
     gm_step T s (gm_loader (Do_enter t key) s)"
| peer: "t \<in> T \<Longrightarrow> gm_pc s t = GM_InDo key \<Longrightarrow> sf_pc (loader (gm_group s)) t = Running key c \<Longrightarrow>
     Get_peer w t key c s = Some s' \<Longrightarrow> gm_step T s s'"
| source: "t \<in> T \<Longrightarrow> gm_pc s t = GM_Local key \<Longrightarrow> sf_pc (loader (gm_group s)) t = Running key c \<Longrightarrow>
     Get_source w t key c s = Some s' \<Longrightarrow> gm_step T s s'"
| populate: "t \<in> T \<Longrightarrow> gm_pc s t = GM_Got key bs \<Longrightarrow> sf_pc (loader (gm_group s)) t = Running key c \<Longrightarrow>
     Get_populate t key bs c s = Some s' \<Longrightarrow> gm_step T s s'"
| call_done: "t \<in> T \<Longrightarrow> gm_pc s t = GM_InDo key \<Longrightarrow> sf_pc (loader (gm_group s)) t = Ran key c \<Longrightarrow>
     gm_step T s (gm_loader (Do_done t key c) s)"
| return: "t \<in> T \<Longrightarrow> gm_pc s t = GM_InDo key \<Longrightarrow> sf_pc (loader (gm_group s)) t = Finishing key c \<Longrightarrow>
     gm_step T s (gm_return t key c (Do_delete t key c) s)"
| wake: "t \<in> T \<Longrightarrow> gm_pc s t = GM_InDo key \<Longrightarrow> sf_pc (loader (gm_group s)) t = Waiting key c \<Longrightarrow>
     wg (the (sf_heap (loader (gm_group s)) c)) = 0 \<Longrightarrow>
     gm_step T s (gm_return t key c (Do_wake t key c) s)"

abbreviation gm_reach :: "nat set \<Rightarrow> 'w Group \<Rightarrow> 'w gm_state \<Rightarrow> bool" where
  "gm_reach T g \<equiv> (gm_step T)\<^sup>*\<^sup>* (gm_init g)"

lemma gm_set_simps [simp]:
  "gm_group (gm_set t p s) = gm_group s" "gm_pc (gm_set t p s) = (gm_pc s)(t := p)"
  "gm_answers (gm_set t p s) = gm_answers s"
  by (simp_all add: gm_set_def)

lemma gm_loader_simps [simp]:
  "gm_group (gm_loader f s) = (gm_group s)\<lparr>loader := f (loader (gm_group s))\<rparr>"
  "gm_pc (gm_loader f s) = gm_pc s" "gm_answers (gm_loader f s) = gm_answers s"
  by (simp_all add: gm_loader_def)

lemma gm_answer_simps [simp]:
  "gm_group (gm_answer k r s) = gm_group s" "gm_pc (gm_answer k r s) = gm_pc s"
  "gm_answers (gm_answer k r s) = (k, r) # gm_answers s"
  by (simp_all add: gm_answer_def)

lemmas gm_blocks = Get_look_def gm_panic_def gm_return_def

text \<open>What the block that asks a peer, and the block that asks the source, may leave.\<close>

lemma Get_peer_cases:
  assumes "Get_peer w t key c s = Some s'"
  obtains (panic) m where "fst (ask_peer key (gm_group s, w)) = Panic m" "s' = gm_panic t key c s"
    | (none) "s' = gm_set t (GM_Local key) s"
    | (answer) v where "fst (ask_peer key (gm_group s, w)) = Ret (Some (Inr v))"
        "s' = gm_loader (Do_assign t key c (Inr v)) (gm_answer key (Inr v) s)"
  using assms by (auto simp: Get_peer_def split: outcome.splits option.splits sum.splits)

lemma Get_source_cases:
  assumes "Get_source w t key c s = Some s'"
  obtains (panic) m where "fst (getter_fn (gm_group s) key w) = Panic m" "s' = gm_panic t key c s"
    | (error) e where "fst (getter_fn (gm_group s) key w) = Ret (Inl e)"
        "s' = gm_set t (GM_InDo key) (gm_loader (Do_assign t key c (Inl e)) (gm_answer key (Inl e) s))"
    | (got) bs where "fst (getter_fn (gm_group s) key w) = Ret (Inr bs)"
        "s' = gm_set t (GM_Got key bs) (gm_answer key (Inr \<lparr>bv_b = bs\<rparr>) s)"
  using assms by (auto simp: Get_source_def split: outcome.splits sum.splits)

lemma Get_populate_cases:
  assumes "Get_populate t key bs c s = Some s'"
  obtains c' where "cache_add key \<lparr>bv_b = bs\<rparr> (mainCache (gm_group s)) = Some c'"
    "s' = gm_set t (GM_InDo key) (gm_loader (Do_assign t key c (Inr \<lparr>bv_b = bs\<rparr>))
            (s\<lparr>gm_group := (gm_group s)\<lparr>mainCache := c'\<rparr>\<rparr>))"
  using assms by (auto simp: Get_populate_def split: option.splits)

section \<open>The loader's part in it\<close>

text \<open>
  \<open>calm\<close>: the source and the peers always come back, whatever the world, without a panic.
\<close>

definition calm :: "'w Group \<Rightarrow> bool" where
  "calm g \<longleftrightarrow> (\<forall>k w. \<exists>x. fst (getter_fn g k w) = Ret x) \<and> (\<forall>k w. \<exists>x. fst (ask_peer k (g, w)) = Ret x)"

definition same_config :: "'w Group \<Rightarrow> 'w Group \<Rightarrow> bool" where
  "same_config g g' \<longleftrightarrow> gname g' = gname g \<and> getter_fn g' = getter_fn g \<and> peers g' = peers g"

lemma same_config_upd [simp]:
  "same_config g (g'\<lparr>mainCache := c\<rparr>) = same_config g g'" "same_config g (g'\<lparr>loader := l\<rparr>) = same_config g g'"
  "same_config g g"
  by (simp_all add: same_config_def)

lemma ask_peer_config: "same_config g g' \<Longrightarrow> ask_peer k (g', w) = ask_peer k (g, w)"
proof (cases "peers g")
  case (Some pick)
  assume same: "same_config g g'"
  show ?thesis
  proof (cases "pick k w")
    case (Ret picked)
    with Some same show ?thesis
      by (cases picked) (auto simp: ask_peer_def same_config_def getFromPeer_result split: prod.split)
  qed (use Some same in \<open>simp_all add: ask_peer_def same_config_def\<close>)
qed (simp add: ask_peer_def same_config_def)

lemma calm_config: "same_config g g' \<Longrightarrow> calm g' = calm g"
  using ask_peer_config [of g g'] by (simp add: calm_def) (simp add: same_config_def)

lemma step_config: "gm_step T s s' \<Longrightarrow> same_config g (gm_group s) \<Longrightarrow> same_config g (gm_group s')"
proof (induction rule: gm_step.induct)
  case (look t s key)
  then show ?case by (simp add: Get_look_def split: prod.split option.split)
qed (auto simp: gm_blocks elim!: Get_peer_cases Get_source_cases Get_populate_cases)

text \<open>Where a goroutine is in \<open>Get\<close>, given where it is in \<open>Do\<close>.\<close>

fun pc_match :: "gm_pc \<Rightarrow> (string + ByteView) sf_pc \<Rightarrow> bool" where
  "pc_match GM_Idle q \<longleftrightarrow> q = Idle"
| "pc_match (GM_Look k) q \<longleftrightarrow> q = Idle"
| "pc_match (GM_InDo k) q \<longleftrightarrow> k \<noteq> '''' \<and>
     (case q of Calling k' \<Rightarrow> k' = k | Waiting k' c \<Rightarrow> k' = k | Running k' c \<Rightarrow> k' = k
      | Ran k' c \<Rightarrow> k' = k | Finishing k' c \<Rightarrow> k' = k | _ \<Rightarrow> False)"
| "pc_match (GM_Local k) q \<longleftrightarrow> k \<noteq> '''' \<and> (case q of Running k' c \<Rightarrow> k' = k | _ \<Rightarrow> False)"
| "pc_match (GM_Got k bs) q \<longleftrightarrow> k \<noteq> '''' \<and> (case q of Running k' c \<Rightarrow> k' = k | _ \<Rightarrow> False)"
| "pc_match (GM_Back k r) q \<longleftrightarrow> q = Idle \<or> (\<exists>c. q = Returned k c r \<and> k \<noteq> '''')"
| "pc_match (GM_Panicked k) q \<longleftrightarrow> (case q of Panicked k' c \<Rightarrow> k' = k | _ \<Rightarrow> False)"

definition pcs_match :: "'w gm_state \<Rightarrow> bool" where
  "pcs_match s \<longleftrightarrow> (\<forall>t. pc_match (gm_pc s t) (sf_pc (loader (gm_group s)) t))"

lemma pcs_matchD: "pcs_match s \<Longrightarrow> pc_match (gm_pc s t) (sf_pc (loader (gm_group s)) t)"
  by (simp add: pcs_match_def)

lemma step_loader:
  assumes "gm_step T s s'" and "pcs_match s"
  shows "loader (gm_group s') = loader (gm_group s) \<or>
    sf_step (\<not> calm (gm_group s)) T (loader (gm_group s)) (loader (gm_group s'))"
  using assms
proof (induction rule: gm_step.induct)
  case (look t s key)
  then show ?case using pcs_matchD [OF look.prems, of t]
    by (auto simp: Get_look_def intro: sf_step.invoke split: prod.split option.split)
next
  case (peer t s key c w s')
  have "\<not> calm (gm_group s)" if "fst (ask_peer key (gm_group s, w)) = Panic m" for m
    using that by (auto simp: calm_def) (metis outcome.distinct(1))
  with peer show ?case
    by (auto simp: gm_panic_def intro: sf_step.intros elim!: Get_peer_cases)
next
  case (source t s key c w s')
  have "\<not> calm (gm_group s)" if "fst (getter_fn (gm_group s) key w) = Panic m" for m
    using that by (auto simp: calm_def) (metis outcome.distinct(1))
  with source show ?case
    by (auto simp: gm_panic_def intro: sf_step.intros elim!: Get_source_cases)
qed (auto simp: gm_return_def intro: sf_step.intros elim!: Get_populate_cases)

lemma step_match: "gm_step T s s' \<Longrightarrow> pcs_match s \<Longrightarrow> pcs_match s'"
proof (induction rule: gm_step.induct)
  case (look t s key)
  then show ?case using pcs_matchD [OF look.prems, of t]
    by (auto simp: pcs_match_def Get_look_def split: prod.split option.split)
next
  case (enter t s key)
  then show ?case using pcs_matchD [OF enter.prems, of t]
    by (auto simp: pcs_match_def Do_enter_def Let_def split: option.splits)
next
  case (peer t s key c w s')
  then show ?case using pcs_matchD [OF peer.prems, of t]
    by (auto simp: pcs_match_def gm_panic_def block_pcs elim!: Get_peer_cases)
next
  case (source t s key c w s')
  then show ?case using pcs_matchD [OF source.prems, of t]
    by (auto simp: pcs_match_def gm_panic_def block_pcs elim!: Get_source_cases)
next
  case (populate t s key bs c s')
  then show ?case using pcs_matchD [OF populate.prems, of t]
    by (auto simp: pcs_match_def block_pcs elim!: Get_populate_cases)
next
  case (return t s key c)
  then show ?case using pcs_matchD [OF return.prems, of t]
    by (auto simp: pcs_match_def gm_return_def block_pcs call_result_def)
next
  case (wake t s key c)
  then show ?case using pcs_matchD [OF wake.prems, of t]
    by (auto simp: pcs_match_def gm_return_def block_pcs call_result_def)
next
  case (call_done t s key c)
  then show ?case using pcs_matchD [OF call_done.prems, of t]
    by (auto simp: pcs_match_def block_pcs)
next
  case (ask t s key)
  then show ?case using pcs_matchD [OF ask.prems, of t] by (auto simp: pcs_match_def)
qed

section \<open>Invariant\<close>

text \<open>
  Everything that circulates came from the source or a peer, under the key it circulates
  under: what the cache holds, what the calls of the loader hold, what is about to be stored
  and what was returned.
\<close>

definition calls_given :: "(string \<times> 'r) set \<Rightarrow> 'r sf_group \<Rightarrow> bool" where
  "calls_given A l \<longleftrightarrow> (\<forall>c x r. sf_heap l c = Some x \<longrightarrow> val_err x = Some r \<longrightarrow> (call_key x, r) \<in> A)"

fun pc_given :: "int64 \<Rightarrow> (string \<times> (string + ByteView)) set \<Rightarrow> gm_pc \<Rightarrow> bool" where
  "pc_given m A (GM_Got k bs) \<longleftrightarrow> (k, Inr \<lparr>bv_b = bs\<rparr>) \<in> A \<and> cache_room m k \<lparr>bv_b = bs\<rparr>"
| "pc_given m A (GM_Back k r) \<longleftrightarrow> (if k = '''' then r = Inl need_key else (k, r) \<in> A)"
| "pc_given m A p \<longleftrightarrow> True"

text \<open>What the source, or the peer that is asked, can answer, in one world or another.\<close>

definition can_answer :: "'w Group \<Rightarrow> string \<Rightarrow> string + ByteView \<Rightarrow> bool" where
  "can_answer g k r \<longleftrightarrow> (\<exists>w x. fst (getter_fn g k w) = Ret x \<and> r = as_view x) \<or>
     (\<exists>w v. fst (ask_peer k (g, w)) = Ret (Some (Inr v)) \<and> r = Inr v)"

lemma can_answer_config: "same_config g g' \<Longrightarrow> can_answer g' k r = can_answer g k r"
  unfolding can_answer_def by (subst ask_peer_config) (simp_all add: same_config_def)

lemma can_answerI:
  "fst (getter_fn g k w) = Ret (Inl e) \<Longrightarrow> can_answer g k (Inl e)"
  "fst (getter_fn g k w) = Ret (Inr bs) \<Longrightarrow> can_answer g k (Inr \<lparr>bv_b = bs\<rparr>)"
  "fst (ask_peer k (g, w)) = Ret (Some (Inr v)) \<Longrightarrow> can_answer g k (Inr v)"
  by (fastforce simp: can_answer_def as_view_def)+

text \<open>The values the source can give fit the bound the cache is used with.\<close>

definition source_fits :: "int64 \<Rightarrow> 'w Group \<Rightarrow> bool" where
  "source_fits m g \<longleftrightarrow>
     (\<forall>k w bs. fst (getter_fn g k w) = Ret (Inr bs) \<longrightarrow> cache_room m k \<lparr>bv_b = bs\<rparr>)"

definition gm_inv :: "int64 \<Rightarrow> 'w Group \<Rightarrow> 'w gm_state \<Rightarrow> bool" where
  "gm_inv m g s \<longleftrightarrow> same_config g (gm_group s) \<and> pcs_match s \<and> sf_inv (loader (gm_group s)) \<and>
     source_fits m g \<and> cache_inv m (mainCache (gm_group s)) \<and>
     (\<forall>k v. cache_find (mainCache (gm_group s)) k = Some v \<longrightarrow> (k, Inr v) \<in> set (gm_answers s)) \<and>
     calls_given (set (gm_answers s)) (loader (gm_group s)) \<and>
     (\<forall>t. pc_given m (set (gm_answers s)) (gm_pc s t)) \<and>
     (\<forall>(k, r) \<in> set (gm_answers s). can_answer g k r)"

lemma gm_invD:
  assumes "gm_inv m g s"
  shows "same_config g (gm_group s)" "pcs_match s" "sf_inv (loader (gm_group s))"
    "cache_inv m (mainCache (gm_group s))"
    "cache_find (mainCache (gm_group s)) k = Some v \<Longrightarrow> (k, Inr v) \<in> set (gm_answers s)"
    "calls_given (set (gm_answers s)) (loader (gm_group s))"
    "pc_given m (set (gm_answers s)) (gm_pc s t)" "source_fits m g"
    "(k, r) \<in> set (gm_answers s) \<Longrightarrow> can_answer g k r"
  using assms unfolding gm_inv_def by blast+

lemma pc_given_mono: "pc_given m A p \<Longrightarrow> A \<subseteq> B \<Longrightarrow> pc_given m B p"
  by (cases p) (auto split: if_splits)

lemma calls_given_set_pc [simp]: "calls_given A (set_pc t p l) = calls_given A l"
  by (simp add: calls_given_def)

lemma calls_given_blocks:
  assumes "calls_given A l"
  shows "calls_given A (Do_enter t k l)" "calls_given A (Do_wake t k c l)"
    "calls_given A (Do_delete t k c l)"
  using assms by (auto simp: calls_given_def Do_enter_def Do_wake_def Do_delete_def Let_def
      split: option.split if_splits)

lemma calls_given_done: "sf_inv l \<Longrightarrow> sf_pc l t = Ran k c \<Longrightarrow> calls_given A l \<Longrightarrow> calls_given A (Do_done t k c l)"
  by (rule led_call [of l t k c]) (auto simp: calls_given_def Do_done_def Let_def split: if_splits)

lemma calls_given_assign:
  "sf_inv l \<Longrightarrow> sf_pc l t = Running k c \<Longrightarrow> calls_given A l \<Longrightarrow> calls_given (insert (k, r) A) (Do_assign t k c r l)"
  by (rule led_call [of l t k c]) (auto simp: calls_given_def Do_assign_def Let_def split: if_splits)

lemma gm_invI:
  assumes "gm_inv m g s" and "gm_step T s s'"
    and "cache_inv m (mainCache (gm_group s'))"
    and "\<And>k v. cache_find (mainCache (gm_group s')) k = Some v \<Longrightarrow> (k, Inr v) \<in> set (gm_answers s')"
    and "calls_given (set (gm_answers s')) (loader (gm_group s'))"
    and "\<And>t. pc_given m (set (gm_answers s')) (gm_pc s' t)"
    and "\<And>k r. (k, r) \<in> set (gm_answers s') \<Longrightarrow> can_answer (gm_group s) k r"
  shows "gm_inv m g s'"
  unfolding gm_inv_def
proof (intro conjI allI impI)
  note I = gm_invD [OF assms(1)]
  show "same_config g (gm_group s')" by (rule step_config [OF assms(2) I(1)])
  show "pcs_match s'" by (rule step_match [OF assms(2) I(2)])
  show "sf_inv (loader (gm_group s'))"
    using step_loader [OF assms(2) I(2)] I(3) step_inv by fastforce
next
  show "\<forall>(k, r) \<in> set (gm_answers s'). can_answer g k r"
    using assms(7) can_answer_config [OF gm_invD(1) [OF assms(1)]] by auto
qed (use assms gm_invD(8) [OF assms(1)] in blast)+

lemma old_answers: "gm_inv m g s \<Longrightarrow> (k, r) \<in> set (gm_answers s) \<Longrightarrow> can_answer (gm_group s) k r"
  using gm_invD(9) can_answer_config [OF gm_invD(1)] by blast

lemma look_keeps:
  assumes "gm_inv m g s" and "gm_step T s (Get_look t key s)"
  shows "gm_inv m g (Get_look t key s)"
proof -
  note I = gm_invD [OF assms(1)]
  obtain r c where C: "cache_get key (mainCache (gm_group s)) = (r, c)" by fastforce
  have "cache_inv m c" "cache_find c = cache_find (mainCache (gm_group s))"
    "r = cache_find (mainCache (gm_group s)) key"
    using bc.get_inv [OF I(4), of key] bc.get_contents [OF I(4), of key] bc.get_result [OF I(4), of key]
    by (simp_all add: C)
  note C' = C this
  show ?thesis
    by (cases "key = ''''"; cases r; intro gm_invI [OF assms])
      (use I C' old_answers [OF assms(1)] in \<open>auto simp: Get_look_def\<close>)
qed

lemma populate_keeps:
  assumes "gm_inv m g s" and "gm_step T s s'" and "gm_pc s t = GM_Got key bs"
    and "sf_pc (loader (gm_group s)) t = Running key c" and "Get_populate t key bs c s = Some s'"
  shows "gm_inv m g s'"
proof -
  note I = gm_invD [OF assms(1)]
  from assms(5) obtain c' where add: "cache_add key \<lparr>bv_b = bs\<rparr> (mainCache (gm_group s)) = Some c'"
    and s': "s' = gm_set t (GM_InDo key) (gm_loader (Do_assign t key c (Inr \<lparr>bv_b = bs\<rparr>))
      (s\<lparr>gm_group := (gm_group s)\<lparr>mainCache := c'\<rparr>\<rparr>))"
    by (rule Get_populate_cases)
  have got: "(key, Inr \<lparr>bv_b = bs\<rparr>) \<in> set (gm_answers s)" and room: "cache_room m key \<lparr>bv_b = bs\<rparr>"
    using I(7) [of t] assms(3) by simp_all
  note add' = bc.add_coherent [OF I(4) room add, where P = "\<lambda>k v. (k, Inr v) \<in> set (gm_answers s)"]
  show ?thesis
  proof (rule gm_invI [OF assms(1,2)])
    show "calls_given (set (gm_answers s')) (loader (gm_group s'))"
      using calls_given_assign [OF I(3) assms(4) I(6), of "Inr \<lparr>bv_b = bs\<rparr>"] got
      by (simp add: s' insert_absorb)
  qed (use I got bc.add_inv [OF I(4) room add] add' old_answers [OF assms(1)] in \<open>auto simp: s'\<close>)
qed

lemma pc_given_Cons: "pc_given m A p \<Longrightarrow> pc_given m (insert a A) p"
  by (rule pc_given_mono) auto

lemma panic_keeps:
  assumes "gm_inv m g s" and "gm_step T s (gm_panic t key c s)"
  shows "gm_inv m g (gm_panic t key c s)"
  by (rule gm_invI [OF assms])
    (use gm_invD [OF assms(1)] old_answers [OF assms(1)] in \<open>auto simp: gm_panic_def\<close>)

lemma answer_keeps:
  assumes "gm_inv m g s" and "gm_step T s s'" and "sf_pc (loader (gm_group s)) t = Running key c"
    and "s' = gm_set t (GM_InDo key) (gm_loader (Do_assign t key c r) (gm_answer key r s)) \<or>
      s' = gm_loader (Do_assign t key c r) (gm_answer key r s)"
    and "can_answer (gm_group s) key r"
  shows "gm_inv m g s'"
proof -
  note I = gm_invD [OF assms(1)]
  show ?thesis
    by (rule gm_invI [OF assms(1,2)])
      (use I assms(4,5) calls_given_assign [OF I(3) assms(3) I(6)] old_answers [OF assms(1)]
        in \<open>auto simp: pc_given_Cons\<close>)
qed

lemma return_keeps:
  assumes "gm_inv m g s" and "gm_step T s (gm_return t key c block s)" and "gm_pc s t = GM_InDo key"
    and "sf_pc (loader (gm_group s)) t = Finishing key c \<and> block = Do_delete t key c \<or>
      sf_pc (loader (gm_group s)) t = Waiting key c \<and> wg (the (sf_heap (loader (gm_group s)) c)) = 0 \<and>
      block = Do_wake t key c"
  shows "gm_inv m g (gm_return t key c block s)"
proof -
  note I = gm_invD [OF assms(1)]
  obtain x where "sf_heap (loader (gm_group s)) c = Some x" "call_key x = key"
    "val_err x = Some (call_result c (loader (gm_group s)))"
    using finished_result [OF I(3), of t key c] assms(4) by blast
  then have "(key, call_result c (loader (gm_group s))) \<in> set (gm_answers s)"
    using I(6) by (force simp: calls_given_def)
  moreover have "key \<noteq> ''''" using pcs_matchD [OF I(2), of t] assms(3) by simp
  ultimately show ?thesis
    by (intro gm_invI [OF assms(1,2)])
      (use I assms(4) old_answers [OF assms(1)] in \<open>auto simp: gm_return_def calls_given_blocks\<close>)
qed

lemma gm_inv_step:
  assumes "gm_inv m g s" and "gm_step T s s'"
  shows "gm_inv m g s'"
  using assms(2)
proof (cases rule: gm_step.cases)
  case (ask t key)
  then show ?thesis
    by (intro gm_invI [OF assms(1,2)]) (use gm_invD [OF assms(1)] old_answers [OF assms(1)] in auto)
next
  case (look t key)
  then show ?thesis using look_keeps assms(1,2) by blast
next
  case (enter t key)
  then show ?thesis
    by (intro gm_invI [OF assms(1,2)])
      (use gm_invD [OF assms(1)] old_answers [OF assms(1)] in \<open>auto simp: calls_given_blocks\<close>)
next
  case (peer t key c w)
  from peer(4) show ?thesis
  proof (cases rule: Get_peer_cases)
    case (panic msg)
    then show ?thesis using panic_keeps assms(1,2) by blast
  next
    case none
    then show ?thesis
      by (intro gm_invI [OF assms(1,2)]) (use gm_invD [OF assms(1)] old_answers [OF assms(1)] in auto)
  next
    case (answer v)
    then show ?thesis
      using answer_keeps [OF assms(1,2) peer(3) _ can_answerI(3) [OF answer(1)]] by blast
  qed
next
  case (source t key c w)
  from source(4) show ?thesis
  proof (cases rule: Get_source_cases)
    case (panic msg)
    then show ?thesis using panic_keeps assms(1,2) by blast
  next
    case (error e)
    then show ?thesis
      using answer_keeps [OF assms(1,2) source(3) _ can_answerI(1) [OF error(1)]] by blast
  next
    case (got bs)
    have "calls_given (insert a A) l" if "calls_given A l" for a :: "string \<times> (string + ByteView)" and A l
      using that by (auto simp: calls_given_def)
    moreover have "cache_room m key \<lparr>bv_b = bs\<rparr>"
      using got(1) gm_invD(1,8) [OF assms(1)] unfolding source_fits_def same_config_def by metis
    ultimately show ?thesis
      by (intro gm_invI [OF assms(1,2)])
        (use gm_invD [OF assms(1)] got can_answerI(2) [OF got(1)] old_answers [OF assms(1)]
          in \<open>auto simp: pc_given_Cons\<close>)
  qed
next
  case (populate t key bs c)
  then show ?thesis using populate_keeps assms(1,2) by blast
next
  case (call_done t key c)
  note I = gm_invD [OF assms(1)]
  show ?thesis unfolding call_done(1)
    by (intro gm_invI [OF assms(1)])
      (use assms(2) I call_done calls_given_done [OF I(3) call_done(4) I(6)] old_answers [OF assms(1)] in auto)
next
  case (return t key c)
  then show ?thesis using return_keeps assms(1,2) by blast
next
  case (wake t key c)
  then show ?thesis using return_keeps assms(1,2) by blast
qed

definition gm_starts :: "int64 \<Rightarrow> 'w Group \<Rightarrow> 'w gm_state \<Rightarrow> bool" where
  "gm_starts m g s \<longleftrightarrow> s = gm_init g \<and> 0 < sint m \<and> mainCache g = new_cache m \<and> loader g = sf_init \<and>
     source_fits m g"

interpretation gm: machine "gm_starts m g" "gm_step T" "gm_inv m g"
  for m g T
proof unfold_locales
  fix s assume "gm_starts m g s"
  then show "gm_inv m g s"
    using sf_inv_init
    by (auto simp: gm_starts_def gm_init_def gm_inv_def new_cache_inv pcs_match_def
        calls_given_def sf_init_def)
qed (rule gm_inv_step)

interpretation gm_sf: simulation "\<lambda>s s'. pcs_match s \<and> gm_step T s s'" "sf_step True T"
  "\<lambda>s. loader (gm_group s)" for T
proof unfold_locales
  fix s s' assume "pcs_match s \<and> gm_step T s s'"
  then show "loader (gm_group s') = loader (gm_group s) \<or>
      sf_step True T (loader (gm_group s)) (loader (gm_group s'))"
    using step_loader [of T s s'] sf_step_pan by blast
qed

section \<open>Progress\<close>

fun gm_rank :: "gm_pc \<Rightarrow> nat" where
  "gm_rank GM_Idle = 4"
| "gm_rank (GM_Look k) = 3"
| "gm_rank (GM_InDo k) = 2"
| "gm_rank (GM_Local k) = 1"
| "gm_rank p = 0"

fun gm_back :: "gm_pc \<Rightarrow> bool" where
  "gm_back (GM_Back k r) \<longleftrightarrow> True"
| "gm_back p \<longleftrightarrow> False"

definition gm_left :: "nat set \<Rightarrow> 'w gm_state \<Rightarrow> nat" where
  "gm_left T s = 4 * sf_measure T (loader (gm_group s)) + (\<Sum>t \<in> T. gm_rank (gm_pc s t))"

definition gm_moves :: "nat set \<Rightarrow> nat \<Rightarrow> 'w gm_state \<Rightarrow> 'w gm_state \<Rightarrow> bool" where
  "gm_moves T t s s' \<longleftrightarrow> gm_pc s' = (gm_pc s)(t := gm_pc s' t) \<and>
     (loader (gm_group s') = loader (gm_group s) \<and> gm_rank (gm_pc s' t) < gm_rank (gm_pc s t) \<or>
      sf_step True T (loader (gm_group s)) (loader (gm_group s')) \<and>
      gm_rank (gm_pc s' t) \<le> gm_rank (gm_pc s t) + 2)"

lemma step_moves:
  assumes "gm_step T s s'" and "pcs_match s"
  shows "\<exists>t \<in> T. gm_moves T t s s'"
  using assms
proof (induction rule: gm_step.induct)
  case (look t s key)
  have "gm_moves T t s (Get_look t key s)" using look pcs_matchD [OF look.prems, of t]
    by (auto simp: gm_moves_def Get_look_def intro: sf_step.invoke split: prod.split option.split)
  with look.hyps(1) show ?case by blast
qed (rule bexI; auto simp: gm_moves_def gm_panic_def gm_return_def intro: sf_step.intros
      elim!: Get_peer_cases Get_source_cases Get_populate_cases)+

lemma moves_left:
  assumes "finite T" and "t \<in> T" and "gm_moves T t s s'"
  shows "gm_left T s' < gm_left T s"
proof -
  let ?r = "\<lambda>s. \<Sum>u \<in> T. gm_rank (gm_pc s u)" and ?l = "\<lambda>s. loader (gm_group s)"
  have "gm_pc s' u = gm_pc s u" if "u \<noteq> t" for u
    using assms(3) that unfolding gm_moves_def by (metis fun_upd_other)
  then have "(\<Sum>u \<in> T - {t}. gm_rank (gm_pc s' u)) = (\<Sum>u \<in> T - {t}. gm_rank (gm_pc s u))"
    by (intro sum.cong) auto
  then have sum: "?r s' + gm_rank (gm_pc s t) = ?r s + gm_rank (gm_pc s' t)"
    using sum.remove [OF assms(1,2), of "\<lambda>u. gm_rank (gm_pc s u)"]
      sum.remove [OF assms(1,2), of "\<lambda>u. gm_rank (gm_pc s' u)"] by simp
  from assms(3) consider "?l s' = ?l s" "gm_rank (gm_pc s' t) < gm_rank (gm_pc s t)"
    | "sf_measure T (?l s') < sf_measure T (?l s)" "gm_rank (gm_pc s' t) \<le> gm_rank (gm_pc s t) + 2"
    using step_measure [OF assms(1)] unfolding gm_moves_def by blast
  then show ?thesis using sum by cases (simp_all add: gm_left_def)
qed

text \<open>
  With a source and peers that always come back, a goroutine that is not waiting for another
  one can move, and one that waits waits for one that can move.
\<close>

definition gm_live :: "int64 \<Rightarrow> 'w Group \<Rightarrow> nat set \<Rightarrow> 'w gm_state \<Rightarrow> bool" where
  "gm_live m g T s \<longleftrightarrow> gm_inv m g s \<and> calm g \<and> finite T \<and> sf_reach False T (loader (gm_group s))"

lemma running_moves:
  assumes "gm_inv m g s" and "calm g" and "t \<in> T" and "sf_pc (loader (gm_group s)) t = Running key c"
  shows "\<exists>s'. gm_step T s s'"
proof -
  note I = gm_invD [OF assms(1)]
  have calm: "calm (gm_group s)" using calm_config [OF I(1)] assms(2) by simp
  show ?thesis
  proof (cases "gm_pc s t")
    case (GM_InDo k)
    then have k: "gm_pc s t = GM_InDo key" using pcs_matchD [OF I(2), of t] assms(4) by simp
    obtain x where "fst (ask_peer key (gm_group s, undefined)) = Ret x" using calm unfolding calm_def by blast
    then obtain s' where "Get_peer undefined t key c s = Some s'"
      by (fastforce simp: Get_peer_def split: option.split sum.split)
    from gm_step.peer [OF assms(3) k assms(4) this] show ?thesis by blast
  next
    case (GM_Local k)
    then have k: "gm_pc s t = GM_Local key" using pcs_matchD [OF I(2), of t] assms(4) by simp
    obtain x where "fst (getter_fn (gm_group s) key undefined) = Ret x" using calm unfolding calm_def by blast
    then obtain s' where "Get_source undefined t key c s = Some s'"
      by (cases x) (auto simp: Get_source_def)
    from gm_step.source [OF assms(3) k assms(4) this] show ?thesis by blast
  next
    case (GM_Got k bs)
    then have k: "gm_pc s t = GM_Got key bs" using pcs_matchD [OF I(2), of t] assms(4) by simp
    then have "cache_add key \<lparr>bv_b = bs\<rparr> (mainCache (gm_group s)) \<noteq> None"
      using bc.add_returns [OF I(4)] I(7) [of t] by simp
    then obtain s' where "Get_populate t key bs c s = Some s'" by (auto simp: Get_populate_def)
    from gm_step.populate [OF assms(3) k assms(4) this] show ?thesis by blast
  qed (use pcs_matchD [OF I(2), of t] assms(4) in auto)
qed

lemma leader_moves:
  assumes "gm_live m g T s" and "t \<in> T" and "leads (sf_pc (loader (gm_group s)) t) = Some (key, c)"
  shows "\<exists>s'. gm_step T s s'"
proof -
  have inv: "gm_inv m g s" and calm: "calm g" and reach: "sf_reach False T (loader (gm_group s))"
    using assms(1) by (simp_all add: gm_live_def)
  note M = pcs_matchD [OF gm_invD(2) [OF inv], of t]
  show ?thesis
  proof (cases "sf_pc (loader (gm_group s)) t")
    case (Running k c)
    with running_moves [OF inv calm assms(2)] show ?thesis by blast
  next
    case (Ran k c)
    with M have "gm_pc s t = GM_InDo k" by (cases "gm_pc s t") auto
    from gm_step.call_done [OF assms(2) this Ran] show ?thesis by blast
  next
    case (Finishing k c)
    with M have "gm_pc s t = GM_InDo k" by (cases "gm_pc s t") auto
    from gm_step.return [OF assms(2) this Finishing] show ?thesis by blast
  qed (use assms(3) no_panic [OF reach] in auto)
qed

lemma gm_not_stuck:
  assumes "gm_live m g T s" and "t \<in> T" and "\<not> gm_back (gm_pc s t)"
  shows "\<exists>s'. gm_step T s s'"
proof -
  let ?l = "loader (gm_group s)"
  have inv: "gm_inv m g s" and reach: "sf_reach False T ?l" using assms(1) by (simp_all add: gm_live_def)
  note M = pcs_matchD [OF gm_invD(2) [OF inv], of t]
  show ?thesis
  proof (cases "leads (sf_pc ?l t)")
    case (Some a)
    then show ?thesis using leader_moves [OF assms(1,2)] by (cases a) blast
  next
    case None
    show ?thesis
    proof (cases "gm_pc s t")
      case GM_Idle
      from gm_step.ask [OF assms(2) this] show ?thesis by blast
    next
      case (GM_Look k)
      from gm_step.look [OF assms(2) this] show ?thesis by blast
    next
      case (GM_InDo k)
      with M None consider "sf_pc ?l t = Calling k" | c where "sf_pc ?l t = Waiting k c"
        by (cases "sf_pc ?l t") auto
      then show ?thesis
      proof cases
        case 1
        with gm_step.enter [OF assms(2) GM_InDo] show ?thesis by blast
      next
        case (2 c)
        show ?thesis
        proof (cases "wg (the (sf_heap ?l c)) = 0")
          case True
          from gm_step.wake [OF assms(2) GM_InDo 2 this] show ?thesis by blast
        next
          case False
          from waits_for_leader [OF gm_invD(3) [OF inv] 2 False] obtain u where
            u: "leads (sf_pc ?l u) = Some (k, c)" by blast
          then have "u \<in> T" using outside_idle [OF reach, of u] by fastforce
          from leader_moves [OF assms(1) this u] show ?thesis .
        qed
      qed
    qed (use M None assms(3) no_panic [OF reach] in \<open>cases "sf_pc ?l t"; auto\<close>)+
  qed
qed

interpretation gm_live: ending_machine "\<lambda>s. gm_starts m g s \<and> calm g \<and> finite T" "gm_step T"
  "gm_live m g T" "\<lambda>s. \<forall>t \<in> T. gm_back (gm_pc s t)" "gm_left T" for m g T
proof unfold_locales
  fix s s' :: "'a gm_state"
  show "gm_live m g T s" if "gm_starts m g s \<and> calm g \<and> finite T"
    using that gm.inv_start by (auto simp: gm_live_def gm_starts_def gm_init_def)
  show "gm_live m g T s'" if "gm_step T s s'" "gm_live m g T s"
  proof -
    have inv: "gm_inv m g s" and "calm (gm_group s)"
      using that(2) calm_config [OF gm_invD(1), of m g s] by (simp_all add: gm_live_def)
    with step_loader [OF that(1) gm_invD(2) [OF inv]] that(2) gm_inv_step [OF inv that(1)] show ?thesis
      by (auto simp: gm_live_def intro: reach_step)
  qed
  show "\<exists>t. gm_step T s t" if "gm_live m g T s" "\<not> (\<forall>t \<in> T. gm_back (gm_pc s t))"
    using that gm_not_stuck by blast
  show "gm_left T s' < gm_left T s" if "gm_live m g T s" "gm_step T s s'"
    using step_moves [OF that(2) gm_invD(2), of m g] that(1) moves_left unfolding gm_live_def by blast
qed

section \<open>A load nobody interferes with\<close>

text \<open>
  A goroutine that goes through \<open>Do\<close> while no call for its key is in flight and nobody else
  moves: it does what \<open>load\<close> does.
\<close>

lemma load_fn_blocks:
  "load_fn key (g, w) = (case ask_peer key (g, w) of
     (Ret None, w1) \<Rightarrow> getLocally key (g, w1)
   | (Ret (Some (Inl e)), w1) \<Rightarrow> getLocally key (g, w1)
   | (Ret (Some (Inr v)), w1) \<Rightarrow> (Ret (Inr v), g, w1)
   | (Panic msg, w1) \<Rightarrow> (Panic msg, g, w1)
   | (Hang, w1) \<Rightarrow> (Hang, g, w1))"
proof (cases "peers g")
  case None
  then show ?thesis by (simp add: load_fn_def ask_peer_def)
next
  case pick: (Some pick)
  show ?thesis
  proof (cases "pick key w")
    case (Ret picked)
    show ?thesis
    proof (cases picked)
      case None
      with pick Ret show ?thesis by (simp add: load_fn_def ask_peer_def)
    next
      case (Some p)
      obtain x w1 where P: "p \<lparr>req_Group = gname g, req_Key = key\<rparr> w = (x, w1)" by fastforce
      with pick Ret Some show ?thesis
        by (cases x) (auto simp: load_fn_def ask_peer_def getFromPeer_result split: sum.split)
    qed
  qed (simp_all add: load_fn_def ask_peer_def pick)
qed

lemma gm_loader_loader: "gm_loader f (gm_loader h s) = gm_loader (f \<circ> h) s"
  by (simp add: gm_loader_def)

lemma source_run:
  assumes "t \<in> T" and "gm_pc s t = GM_Local key" and "sf_pc (loader (gm_group s)) t = Running key c"
    and "getLocally key (gm_group s, w) = (Ret r, g', w')"
  shows "\<exists>s'. (gm_step T)\<^sup>*\<^sup>* s s' \<and> gm_pc s' = (gm_pc s)(t := GM_InDo key) \<and>
    gm_group s' = g'\<lparr>loader := Do_assign t key c r (loader (gm_group s))\<rparr> \<and>
    gm_answers s' = (key, r) # gm_answers s"
proof -
  obtain y w1 where y: "getter_fn (gm_group s) key w = (Ret y, w1)"
    using assms(4) by (cases "getter_fn (gm_group s) key w"; cases "fst (getter_fn (gm_group s) key w)")
      (auto simp: getLocally_def)
  show ?thesis
  proof (cases y)
    case (Inl e)
    with y assms(4) have r: "r = Inl e" "g' = gm_group s" by (auto simp: getLocally_def)
    let ?s = "gm_set t (GM_InDo key) (gm_loader (Do_assign t key c (Inl e)) (gm_answer key (Inl e) s))"
    have "Get_source w t key c s = Some ?s" by (simp add: Get_source_def y Inl)
    from r_into_rtranclp [of "gm_step T", OF gm_step.source [OF assms(1-3) this]] show ?thesis
      by (rule exI [of _ ?s, OF conjI]) (simp add: r)
  next
    case (Inr bs)
    with y assms(4) obtain c' where c': "cache_add key \<lparr>bv_b = bs\<rparr> (mainCache (gm_group s)) = Some c'"
      and r: "r = Inr \<lparr>bv_b = bs\<rparr>" "g' = (gm_group s)\<lparr>mainCache := c'\<rparr>"
      by (auto simp: getLocally_def populateCache_def Let_def split: option.splits)
    let ?s1 = "gm_set t (GM_Got key bs) (gm_answer key (Inr \<lparr>bv_b = bs\<rparr>) s)"
    let ?s = "gm_set t (GM_InDo key) (gm_loader (Do_assign t key c (Inr \<lparr>bv_b = bs\<rparr>))
      (?s1\<lparr>gm_group := (gm_group ?s1)\<lparr>mainCache := c'\<rparr>\<rparr>))"
    have "Get_source w t key c s = Some ?s1" by (simp add: Get_source_def y Inr)
    note step1 = gm_step.source [OF assms(1-3) this]
    have "Get_populate t key bs c ?s1 = Some ?s" by (simp add: Get_populate_def c')
    from gm_step.populate [OF assms(1) _ _ this] assms(3) have step2: "gm_step T ?s1 ?s" by simp
    from reach_step [OF r_into_rtranclp [of "gm_step T", OF step1] step2] show ?thesis
      by (rule exI [of _ ?s, OF conjI]) (simp add: r)
  qed
qed

lemma function_run:
  assumes "t \<in> T" and "gm_pc s t = GM_InDo key" and "sf_pc (loader (gm_group s)) t = Running key c"
    and "load_fn key (gm_group s, w) = (Ret r, g', w')"
  shows "\<exists>s'. (gm_step T)\<^sup>*\<^sup>* s s' \<and> gm_pc s' = gm_pc s \<and>
    gm_group s' = g'\<lparr>loader := Do_assign t key c r (loader (gm_group s))\<rparr> \<and>
    gm_answers s' = (key, r) # gm_answers s"
proof -
  obtain x w1 where ask: "ask_peer key (gm_group s, w) = (Ret x, w1)"
    using assms(4) by (cases "ask_peer key (gm_group s, w)"; cases "fst (ask_peer key (gm_group s, w))")
      (auto simp: load_fn_blocks)
  show ?thesis
  proof (cases "\<exists>v. x = Some (Inr v)")
    case True
    then obtain v where x: "x = Some (Inr v)" by blast
    with ask assms(4) have r: "r = Inr v" "g' = gm_group s" by (auto simp: load_fn_blocks)
    let ?s = "gm_loader (Do_assign t key c (Inr v)) (gm_answer key (Inr v) s)"
    have "Get_peer w t key c s = Some ?s" by (simp add: Get_peer_def ask x)
    from r_into_rtranclp [of "gm_step T", OF gm_step.peer [OF assms(1-3) this]] show ?thesis
      by (rule exI [of _ ?s, OF conjI]) (simp add: r)
  next
    case False
    let ?s = "gm_set t (GM_Local key) s"
    have "Get_peer w t key c s = Some ?s"
      using False by (auto simp: Get_peer_def ask split: option.split sum.split)
    note step = gm_step.peer [OF assms(1-3) this]
    have local: "getLocally key (gm_group ?s, w1) = (Ret r, g', w')"
      using False ask assms(4) by (auto simp: load_fn_blocks split: option.splits sum.splits)
    have pc: "gm_pc ?s t = GM_Local key" and sf: "sf_pc (loader (gm_group ?s)) t = Running key c"
      using assms(3) by simp_all
    obtain s' where s': "(gm_step T)\<^sup>*\<^sup>* ?s s'" "gm_pc s' = (gm_pc ?s)(t := GM_InDo key)"
      "gm_group s' = g'\<lparr>loader := Do_assign t key c r (loader (gm_group ?s))\<rparr>"
      "gm_answers s' = (key, r) # gm_answers ?s"
      using source_run [OF assms(1) pc sf local] by blast
    have "(gm_step T)\<^sup>*\<^sup>* s s'" using step s'(1) by (rule converse_rtranclp_into_rtranclp)
    moreover have "gm_pc s' = gm_pc s" using s'(2) assms(2) by (simp add: fun_upd_idem)
    ultimately show ?thesis using s'(3,4) by auto
  qed
qed

lemma load_run:
  assumes "t \<in> T" and "gm_pc s t = GM_InDo key" and "sf_pc (loader (gm_group s)) t = Calling key"
    and "sf_m (loader (gm_group s)) key = None"
    and "load_fn key (gm_group s, w) = (Ret r, g', w')"
  shows "\<exists>s'. (gm_step T)\<^sup>*\<^sup>* s s' \<and> gm_pc s' = (gm_pc s)(t := GM_Back key r) \<and>
    gm_group s' = g'\<lparr>loader := Do_alone t key r (loader (gm_group s))\<rparr> \<and>
    gm_answers s' = (key, r) # gm_answers s"
proof -
  let ?c = "sf_nxt (loader (gm_group s))" and ?s1 = "gm_loader (Do_enter t key) s"
  have step1: "(gm_step T)\<^sup>*\<^sup>* s ?s1" by (rule r_into_rtranclp, rule gm_step.enter) (use assms in simp_all)
  have pc1: "gm_pc ?s1 t = GM_InDo key" "sf_pc (loader (gm_group ?s1)) t = Running key ?c"
    using assms(2,4) by (simp_all add: Do_enter_def Let_def)
  have "load_fn key (gm_group ?s1, w) = (Ret r, g'\<lparr>loader := loader (gm_group ?s1)\<rparr>, w')"
    by (simp add: load_fn_loader assms(5))
  from function_run [OF assms(1) pc1 this] obtain s2 where
    s2: "(gm_step T)\<^sup>*\<^sup>* ?s1 s2" "gm_pc s2 = gm_pc s" "gm_answers s2 = (key, r) # gm_answers s"
      "gm_group s2 = g'\<lparr>loader := Do_assign t key ?c r (Do_enter t key (loader (gm_group s)))\<rparr>" by auto
  let ?s3 = "gm_loader (Do_done t key ?c) s2"
  have step3: "gm_step T s2 ?s3"
    by (rule gm_step.call_done) (use assms(1,2) in \<open>simp_all add: s2 block_pcs\<close>)
  let ?s4 = "gm_return t key ?c (Do_delete t key ?c) ?s3"
  have step4: "gm_step T ?s3 ?s4"
    by (rule gm_step.return) (use assms(1,2) in \<open>simp_all add: s2 block_pcs\<close>)
  have "call_result ?c (loader (gm_group ?s3)) = r"
    by (simp add: s2 call_result_def Do_done_def Do_assign_def Let_def)
  then have "gm_pc ?s4 = (gm_pc s)(t := GM_Back key r)" by (simp add: gm_return_def s2)
  moreover have "(gm_step T)\<^sup>*\<^sup>* s ?s4"
    by (rule reach_step [OF reach_step [OF rtranclp_trans [OF step1 s2(1)] step3] step4])
  ultimately show ?thesis
    by (intro exI [of _ ?s4] conjI) (simp_all add: gm_return_def s2 Do_alone_def Let_def)
qed

lemma Do_alone_Calling: "Do_alone t key r (set_pc t (Calling key) l) = Do_alone t key r l"
  by (simp add: Do_alone_def Do_enter_def Do_assign_def Do_done_def Do_delete_def set_pc_def
      call_result_def Let_def split: option.split)

lemma Do_alone_pc:
  "sf_m l key = None \<Longrightarrow> sf_pc (Do_alone t key r l) = (sf_pc l)(t := Returned key (sf_nxt l) r)"
  by (simp add: Do_alone_def Do_enter_def block_pcs call_result_def Do_assign_def Do_done_def
      Do_delete_def Let_def)

lemma look_run:
  assumes "t \<in> T" and "gm_pc s t = GM_Idle"
  shows "(gm_step T)\<^sup>*\<^sup>* s (Get_look t key (gm_set t (GM_Look key) s))"
proof -
  have step: "gm_step T s (gm_set t (GM_Look key) s)" by (rule gm_step.ask [OF assms])
  have "gm_step T (gm_set t (GM_Look key) s) (Get_look t key (gm_set t (GM_Look key) s))"
    by (rule gm_step.look [OF assms(1)]) simp
  from reach_step [OF r_into_rtranclp [of "gm_step T", OF step] this] show ?thesis .
qed

lemma get_alone_run:
  assumes "gm_pc s t = GM_Idle" and "t \<in> T" and "t = sf_nxt (loader (gm_group s))"
    and "sf_m (loader (gm_group s)) key = None" and "Group_Get key (gm_group s, w) = (Ret r, g', w')"
  shows "\<exists>s'. (gm_step T)\<^sup>*\<^sup>* s s' \<and> gm_pc s' = (gm_pc s)(t := GM_Back key r) \<and> gm_group s' = g'"
proof -
  let ?s1 = "Get_look t key (gm_set t (GM_Look key) s)"
  note look = look_run [OF assms(2,1), of key]
  obtain x c where C: "cache_get key (mainCache (gm_group s)) = (x, c)" by fastforce
  show ?thesis
  proof (cases "key = '''' \<or> x \<noteq> None")
    case True
    then have "gm_pc ?s1 = (gm_pc s)(t := GM_Back key r) \<and> gm_group ?s1 = g'"
      using assms(5) C by (auto simp: Get_look_def Group_Get_def)
    with look show ?thesis by blast
  next
    case False
    let ?g = "(gm_group s)\<lparr>mainCache := c\<rparr>"
    have s1: "gm_pc ?s1 = (gm_pc s)(t := GM_InDo key)" "sf_pc (loader (gm_group ?s1)) t = Calling key"
      "gm_group ?s1 = ?g\<lparr>loader := set_pc t (Calling key) (loader (gm_group s))\<rparr>"
      using False C by (auto simp: Get_look_def)
    have "load key (?g, w) = (Ret r, g', w')" using assms(5) False C by (simp add: Group_Get_def)
    then obtain g2 where g2: "load_fn key (?g, w) = (Ret r, g2, w')"
      "g' = g2\<lparr>loader := Do_alone t key r (loader (gm_group s))\<rparr>"
      using assms(3,4) by (auto simp: load_idle Let_def split: prod.splits outcome.splits)
    have m: "sf_m (loader (gm_group ?s1)) key = None" using assms(4) s1(3) by simp
    have "load_fn key (gm_group ?s1, w) = (Ret r, g2\<lparr>loader := loader (gm_group ?s1)\<rparr>, w')"
      by (simp add: s1(3) load_fn_loader g2(1))
    from load_run [OF assms(2) _ s1(2) m this] s1(1) obtain s' where
      s': "(gm_step T)\<^sup>*\<^sup>* ?s1 s'" "gm_pc s' = (gm_pc s)(t := GM_Back key r)"
        "gm_group s' = g2\<lparr>loader := Do_alone t key r (loader (gm_group ?s1))\<rparr>" by auto
    moreover have "gm_group s' = g'" by (simp add: s'(3) s1(3) g2(2) Do_alone_Calling)
    ultimately show ?thesis using rtranclp_trans [OF look s'(1)] by blast
  qed
qed

text \<open>Without peers, such a load leaves what the source gave in the cache.\<close>

lemma local_load_run:
  assumes "gm_inv m g s" and "peers g = None" and "t \<in> T" and "gm_pc s t = GM_InDo key"
    and "sf_pc (loader (gm_group s)) t = Calling key" and "sf_m (loader (gm_group s)) key = None"
    and "fst (getter_fn g key w) = Ret (Inr bs)" and "item_size ByteView_Len (key, \<lparr>bv_b = bs\<rparr>) \<le> sint m"
  shows "\<exists>s'. (gm_step T)\<^sup>*\<^sup>* s s' \<and> gm_pc s' = (gm_pc s)(t := GM_Back key (Inr \<lparr>bv_b = bs\<rparr>)) \<and>
    cache_find (mainCache (gm_group s')) key = Some \<lparr>bv_b = bs\<rparr> \<and>
    loader (gm_group s') = Do_alone t key (Inr \<lparr>bv_b = bs\<rparr>) (loader (gm_group s)) \<and>
    gm_answers s' = (key, Inr \<lparr>bv_b = bs\<rparr>) # gm_answers s"
proof -
  note I = gm_invD [OF assms(1)]
  have room: "cache_room m key \<lparr>bv_b = bs\<rparr>" using I(8) assms(7) unfolding source_fits_def by blast
  have get: "getter_fn (gm_group s) key w = (Ret (Inr bs), snd (getter_fn g key w))"
    and peers: "peers (gm_group s) = None"
    using I(1) assms(2,7) by (cases "getter_fn g key w"; simp add: same_config_def)+
  obtain c where c: "cache_add key \<lparr>bv_b = bs\<rparr> (mainCache (gm_group s)) = Some c"
    "getLocally key (gm_group s, w) =
      (Ret (Inr \<lparr>bv_b = bs\<rparr>), (gm_group s)\<lparr>mainCache := c\<rparr>, snd (getter_fn g key w))"
    using getLocally_caches [OF I(4) room get] by blast
  then have "load_fn key (gm_group s, w) =
      (Ret (Inr \<lparr>bv_b = bs\<rparr>), (gm_group s)\<lparr>mainCache := c\<rparr>, snd (getter_fn g key w))"
    by (simp add: load_fn_def peers)
  from load_run [OF assms(3-6) this] cache_add_keeps [OF I(4) room assms(8) c(1)] show ?thesis by auto
qed

text \<open>A group with a peer that may refuse, and one goroutine that has asked it.\<close>

definition demo_net :: "nat Group" where
  "demo_net = demo_group (Some (\<lambda>_ _. Ret (Some demo_peer)))"

lemma demo_starts: "gm_starts 2048 (demo_group ps) (gm_init (demo_group ps))"
  using demo_room
  by (simp add: gm_starts_def demo_group_def source_fits_def src_room_def)

lemma demo_calm: "calm demo_net"
  by (auto simp: calm_def demo_net_def demo_group_def ask_peer_def getFromPeer_def demo_peer_def Let_def
      split: sum.split)

lemma demo_asked:
  "\<exists>s. gm_reach {0} demo_net s \<and> gm_pc s 0 = GM_Back ''Tom'' (Inr \<lparr>bv_b = ''630''\<rparr>)"
proof -
  obtain g' w' where G: "Group_Get ''Tom'' (demo_net, 7) = (Ret (Inr \<lparr>bv_b = ''630''\<rparr>), g', w')"
    using Get_ok [OF demo_group_ok demo_room TrueI, of "''Tom''" 7]
    by (auto simp: demo_net_def as_view_def demo_src_def)
  have "sf_nxt (loader (gm_group (gm_init demo_net))) = 0"
    "sf_m (loader (gm_group (gm_init demo_net))) ''Tom'' = None"
    "gm_pc (gm_init demo_net) 0 = GM_Idle" "gm_group (gm_init demo_net) = demo_net"
    by (simp_all add: gm_init_def demo_net_def demo_group_def sf_init_def)
  with get_alone_run [of "gm_init demo_net" 0 "{0}" "''Tom''" 7 _ g' w'] G show ?thesis by fastforce
qed

section \<open>Properties\<close>

text \<open>
  C3: However many goroutines call \<open>Get\<close> at once, whatever way they interleave, and even if the
  source or a peer panics: every call that returns gives an error for the empty key and
  otherwise an answer that was given, during this run, to a question about that very key, by
  the source or by the peer that was asked.
\<close>

theorem concurrent_Get_answers:
  assumes "gm_starts m g (gm_init g)" and "gm_reach T g s" and "gm_pc s t = GM_Back key r"
  shows "if key = '''' then r = Inl need_key else (key, r) \<in> set (gm_answers s) \<and> can_answer g key r"
proof -
  have inv: "gm_inv m g s" by (rule gm.inv_reached [OF assms(2,1)])
  have "pc_given m (set (gm_answers s)) (GM_Back key r)"
    using gm_invD(7) [OF inv, of t] assms(3) by simp
  then show ?thesis using gm_invD(9) [OF inv] by (auto split: if_splits)
qed

theorem concurrent_Get_answers_witness:
  "\<exists>s. gm_reach {0} demo_net s \<and> (''Tom'', Inr \<lparr>bv_b = ''630''\<rparr>) \<in> set (gm_answers s)"
proof -
  obtain s where s: "gm_reach {0} demo_net s" "gm_pc s 0 = GM_Back ''Tom'' (Inr \<lparr>bv_b = ''630''\<rparr>)"
    using demo_asked by blast
  have "gm_starts 2048 demo_net (gm_init demo_net)" unfolding demo_net_def by (rule demo_starts)
  from concurrent_Get_answers [OF this s] s(1) show ?thesis by auto
qed

text \<open>
  C11: With a source and peers that always come back, concurrent calls of \<open>Get\<close> always all return:
  from every reachable state some run reaches a state in which all have, and no run is longer
  than the bound its first state gives.
\<close>

theorem concurrent_Gets_return:
  assumes "gm_starts m g (gm_init g)" and "calm g" and "finite T" and "gm_reach T g s"
  shows "(\<exists>s'. (gm_step T)\<^sup>*\<^sup>* s s' \<and> (\<forall>t \<in> T. gm_back (gm_pc s' t))) \<and>
    (\<forall>n s'. (gm_step T ^^ n) s s' \<longrightarrow> n \<le> gm_left T s)"
proof -
  have "gm_live m g T s" by (rule gm_live.inv_reached [OF assms(4)]) (simp add: assms)
  from gm_live.can_end [OF this] gm_live.run_bound [OF _ this] show ?thesis by fastforce
qed

theorem concurrent_Gets_return_witness:
  "\<exists>s. gm_reach {0, 1, 2} demo_net s \<and> gm_back (gm_pc s 0) \<and> gm_back (gm_pc s 1) \<and> gm_back (gm_pc s 2)"
proof -
  have "gm_starts 2048 demo_net (gm_init demo_net)" unfolding demo_net_def by (rule demo_starts)
  from concurrent_Gets_return [OF this demo_calm, of "{0, 1, 2}", OF _ rtranclp.rtrancl_refl] show ?thesis
    by auto
qed



text \<open>
  At any moment at most one goroutine is asking the peer or the source about a key or storing
  the answer: what the loader promises carries over, since the goroutines move it by its own
  steps only. Everyone else who wants the key waits.
\<close>

lemma gm_reach_loader:
  assumes "gm_starts m g (gm_init g)" and "gm_reach T g s"
  shows "sf_reach True T (loader (gm_group s))"
proof -
  have "pcs_match u" if "gm_reach T g u" for u
    using gm_invD(2) [OF gm.inv_reached [OF that assms(1)]] .
  with assms(2) have "(\<lambda>s s'. pcs_match s \<and> gm_step T s s')\<^sup>*\<^sup>* (gm_init g) s"
    by (induction rule: rtranclp_induct) (auto intro: reach_step)
  from gm_sf.abs_steps [OF this] assms(1) show ?thesis by (simp add: gm_starts_def gm_init_def)
qed

theorem one_question_per_key:
  assumes "gm_starts m g (gm_init g)" and "gm_reach T g s"
    and "gm_pc s t = GM_Local key \<or> gm_pc s t = GM_Got key bs"
    and "gm_pc s t' = GM_Local key \<or> gm_pc s t' = GM_Got key bs'"
  shows "t = t'"
proof -
  have inv: "gm_inv m g s" by (rule gm.inv_reached [OF assms(2,1)])
  have "\<exists>c. leads (sf_pc (loader (gm_group s)) u) = Some (key, c)"
    if "gm_pc s u = GM_Local key \<or> gm_pc s u = GM_Got key b" for u b
    using pcs_matchD [OF gm_invD(2) [OF inv], of u] that by (auto split: sf_pc.splits)
  from this [OF assms(3)] this [OF assms(4)] obtain c c' where
    "leads (sf_pc (loader (gm_group s)) t) = Some (key, c)"
    "leads (sf_pc (loader (gm_group s)) t') = Some (key, c')" by blast
  with one_leader [OF gm_reach_loader [OF assms(1,2)]] show ?thesis by blast
qed

theorem one_question_per_key_witness:
  "\<exists>s. gm_reach {0, 1} (demo_group None) s \<and> gm_pc s 0 = GM_Local ''Tom'' \<and> gm_pc s 1 \<noteq> GM_Local ''Tom''"
proof -
  let ?g = "demo_group None" and ?T = "{0, 1} :: nat set"
  let ?s1 = "Get_look 0 ''Tom'' (gm_set 0 (GM_Look ''Tom'') (gm_init ?g))"
  let ?s2 = "gm_loader (Do_enter 0 ''Tom'') ?s1" and ?s3 = "\<lambda>s. gm_set 0 (GM_Local ''Tom'') s"
  have s1: "gm_pc ?s1 0 = GM_InDo ''Tom''" "gm_group ?s1 = ?g\<lparr>loader := set_pc 0 (Calling ''Tom'') sf_init\<rparr>"
    by (simp_all add: Get_look_def gm_init_def cache_get_def demo_group_def new_cache_def)
  have r1: "gm_reach ?T ?g ?s1" by (rule look_run) (simp_all add: gm_init_def)
  have r2: "gm_reach ?T ?g ?s2"
    by (rule reach_step [OF r1], rule gm_step.enter) (simp_all only: s1, simp_all)
  have "sf_pc (loader (gm_group ?s2)) 0 = Running ''Tom'' 0"
    by (simp only: gm_loader_simps s1) (simp add: Do_enter_def sf_init_def set_pc_def)
  moreover have "Get_peer w 0 ''Tom'' 0 ?s2 = Some (?s3 ?s2)" for w
    by (simp only: Get_peer_def gm_loader_simps s1) (simp add: ask_peer_def demo_group_def)
  ultimately have "gm_step ?T ?s2 (?s3 ?s2)"
    by (intro gm_step.peer [where t = 0]) (simp_all only: gm_loader_simps s1, simp_all)
  with r2 have r3: "gm_reach ?T ?g (?s3 ?s2)" by (rule reach_step)
  have l3: "gm_pc (?s3 ?s2) 0 = GM_Local ''Tom'' \<or> gm_pc (?s3 ?s2) 0 = GM_Got ''Tom'' []" by simp
  have "gm_pc (?s3 ?s2) 1 \<noteq> GM_Local ''Tom''"
    using one_question_per_key [OF demo_starts r3 l3, of 1 "[]"] by auto
  with r3 show ?thesis by (intro exI [of _ "?s3 ?s2"]) simp
qed

text \<open>
  C37: The loader shares a load only among the goroutines that call it while the load runs. One
  that looked into the cache before the value was stored and calls \<open>Do\<close> after the load has
  ended asks the source again, although the cache then holds the key.
\<close>

theorem Get_may_load_twice:
  assumes "gm_starts m g (gm_init g)" and "peers g = None" and "key \<noteq> ''''" and "t \<noteq> t'"
    and "fst (getter_fn g key w) = Ret (Inr bs)" and "item_size ByteView_Len (key, \<lparr>bv_b = bs\<rparr>) \<le> sint m"
  shows "\<exists>s1 s2. gm_reach {t, t'} g s1 \<and> (gm_step {t, t'})\<^sup>*\<^sup>* s1 s2 \<and>
    gm_pc s1 t = GM_Back key (Inr \<lparr>bv_b = bs\<rparr>) \<and>
    cache_find (mainCache (gm_group s1)) key = Some \<lparr>bv_b = bs\<rparr> \<and>
    gm_pc s2 t' = GM_Back key (Inr \<lparr>bv_b = bs\<rparr>) \<and>
    gm_answers s2 = [(key, Inr \<lparr>bv_b = bs\<rparr>), (key, Inr \<lparr>bv_b = bs\<rparr>)]"
proof -
  let ?T = "{t, t'}" and ?v = "\<lparr>bv_b = bs\<rparr>"
  let ?s1 = "Get_look t key (gm_set t (GM_Look key) (gm_init g))"
  let ?s2 = "Get_look t' key (gm_set t' (GM_Look key) ?s1)"
  have g: "0 < sint m" "mainCache g = new_cache m" "loader g = sf_init" "source_fits m g"
    using assms(1) by (simp_all add: gm_starts_def)
  have miss: "cache_get key (new_cache m) = (None, new_cache m)"
    by (simp add: cache_get_def new_cache_def)
  have s1: "gm_pc ?s1 = (\<lambda>_. GM_Idle)(t := GM_InDo key)" "gm_answers ?s1 = []"
    "gm_group ?s1 = g\<lparr>mainCache := new_cache m, loader := set_pc t (Calling key) sf_init\<rparr>"
    using assms(3) g(2,3) miss by (simp_all add: Get_look_def gm_init_def)
  have l1: "gm_reach ?T g ?s1" by (rule look_run) (simp_all add: gm_init_def)
  have l2: "(gm_step ?T)\<^sup>*\<^sup>* ?s1 ?s2" by (rule look_run) (use assms(4) s1(1) in simp_all)
  have r2: "gm_reach ?T g ?s2" using l1 l2 by (rule rtranclp_trans)
  have s2: "gm_pc ?s2 t = GM_InDo key" "gm_pc ?s2 t' = GM_InDo key" "gm_answers ?s2 = []"
    "loader (gm_group ?s2) = set_pc t' (Calling key) (set_pc t (Calling key) sf_init)"
    using assms(3,4) miss by (simp_all add: Get_look_def [of t' key] s1)
  have sf2: "sf_pc (loader (gm_group ?s2)) t = Calling key" "sf_pc (loader (gm_group ?s2)) t' = Calling key"
    "sf_m (loader (gm_group ?s2)) key = None"
    using assms(4) unfolding s2(4) by (simp_all add: sf_init_def)
  note inv = gm.inv_reached [OF _ assms(1)]
  have T: "t \<in> ?T" "t' \<in> ?T" by simp_all
  obtain s3 where s3: "(gm_step ?T)\<^sup>*\<^sup>* ?s2 s3" "gm_pc s3 = (gm_pc ?s2)(t := GM_Back key (Inr ?v))"
    "cache_find (mainCache (gm_group s3)) key = Some ?v"
    "loader (gm_group s3) = Do_alone t key (Inr ?v) (loader (gm_group ?s2))"
    "gm_answers s3 = [(key, Inr ?v)]"
    using local_load_run [OF inv [OF r2] assms(2) T(1) s2(1) sf2(1,3) assms(5,6)] s2(3) by auto
  have r3: "gm_reach ?T g s3" using r2 s3(1) by (rule rtranclp_trans)
  have pc3: "gm_pc s3 t' = GM_InDo key" using s3(2) s2(2) assms(4) by simp
  have sf3: "sf_pc (loader (gm_group s3)) t' = Calling key" "sf_m (loader (gm_group s3)) key = None"
    using sf2 assms(4) by (simp_all add: s3(4) Do_alone_pc Do_alone_m)
  obtain s4 where s4: "(gm_step ?T)\<^sup>*\<^sup>* s3 s4" "gm_pc s4 = (gm_pc s3)(t' := GM_Back key (Inr ?v))"
    "gm_answers s4 = [(key, Inr ?v), (key, Inr ?v)]"
    using local_load_run [OF inv [OF r3] assms(2) T(2) pc3 sf3 assms(5,6)] s3(5) by auto
  show ?thesis
    by (rule exI [of _ s3], rule exI [of _ s4]) (use r3 s3 s4 in simp)
qed

theorem Get_may_load_twice_witness:
  "\<exists>s1 s2. gm_reach {0, 1} (demo_group None) s1 \<and> (gm_step {0, 1})\<^sup>*\<^sup>* s1 s2 \<and>
     cache_find (mainCache (gm_group s1)) ''Tom'' = Some \<lparr>bv_b = ''630''\<rparr> \<and>
     gm_answers s2 = [(''Tom'', Inr \<lparr>bv_b = ''630''\<rparr>), (''Tom'', Inr \<lparr>bv_b = ''630''\<rparr>)]"
proof -
  have "peers (demo_group None) = None" "''Tom'' \<noteq> ''''" "(0::nat) \<noteq> 1"
    "fst (getter_fn (demo_group None) ''Tom'' 0) = Ret (Inr ''630'')"
    "item_size ByteView_Len (''Tom'', \<lparr>bv_b = ''630''\<rparr>) \<le> sint (2048 :: int64)"
    by (simp_all add: demo_group_def demo_src_def item_size_def ByteView_Len_def)
  from Get_may_load_twice [OF demo_starts this] show ?thesis by blast
qed

end
