(* ===== verification/Rpc_Service.thy ===== *)
theory Rpc_Service
  imports Prelude
begin

text \<open>
  MyRPC/service.go: a struct is turned into a service by looking at its methods with the
  reflect package. The first section models what the code asks of Go's types: their names,
  packages, kinds and element types. Names are ASCII identifiers, so a name is exported when
  its first byte is an upper-case letter. What a method does is a function of the receiver, the
  argument and the reply to a possible error and the new reply, in a world it may change.
\<close>

section \<open>Go types\<close>

datatype go_type =
    Basic string
  | Defined string string go_type
  | PtrTo go_type
  | SliceOf go_type
  | ArrayOf nat go_type
  | MapOf go_type go_type
  | ChanOf go_type
  | StructOf "(string \<times> go_type) list"
  | FuncOf "go_type list" "go_type list"

datatype kind = KPtr | KSlice | KMap | KOther

fun underlying :: "go_type \<Rightarrow> go_type" where
  "underlying (Defined nm pkg t) = underlying t"
| "underlying t = t"

fun type_Name :: "go_type \<Rightarrow> string" where
  "type_Name (Basic nm) = nm"
| "type_Name (Defined nm pkg t) = nm"
| "type_Name t = ''''"

fun type_PkgPath :: "go_type \<Rightarrow> string" where
  "type_PkgPath (Defined nm pkg t) = pkg"
| "type_PkgPath t = ''''"

definition type_Kind :: "go_type \<Rightarrow> kind" where
  "type_Kind t = (case underlying t of PtrTo _ \<Rightarrow> KPtr | SliceOf _ \<Rightarrow> KSlice | MapOf _ _ \<Rightarrow> KMap | _ \<Rightarrow> KOther)"

text \<open>\<open>Elem\<close> panics on a type without elements.\<close>

definition type_Elem :: "go_type \<Rightarrow> go_type outcome" where
  "type_Elem t =
     (case underlying t of
        PtrTo u \<Rightarrow> Ret u
      | SliceOf u \<Rightarrow> Ret u
      | ArrayOf n u \<Rightarrow> Ret u
      | MapOf k u \<Rightarrow> Ret u
      | ChanOf u \<Rightarrow> Ret u
      | _ \<Rightarrow> Panic (''reflect: Elem of invalid type '' @ type_Name t))"

definition error_type :: go_type where
  "error_type = Basic ''error''"

definition IsExported :: "string \<Rightarrow> bool" where
  "IsExported nm = (case nm of [] \<Rightarrow> False | c # _ \<Rightarrow> 65 \<le> (of_char c :: nat) \<and> (of_char c :: nat) \<le> 90)"

text \<open>Assignability, which reflect's \<open>Call\<close> checks for each argument.\<close>

fun is_named :: "go_type \<Rightarrow> bool" where
  "is_named (Basic nm) = True"
| "is_named (Defined nm pkg t) = True"
| "is_named t = False"

definition assignable :: "go_type \<Rightarrow> go_type \<Rightarrow> bool" where
  "assignable t u \<longleftrightarrow> t = u \<or> (underlying t = underlying u \<and> \<not> (is_named t \<and> is_named u))"

section \<open>State\<close>

type_synonym ('v, 'w) method_fn = "'v \<Rightarrow> 'v \<Rightarrow> 'v \<Rightarrow> 'w \<Rightarrow> (string option \<times> 'v) outcome \<times> 'w"

record ('v, 'w) go_method =
  meth_Name :: string
  meth_In :: "go_type list"
  meth_Out :: "go_type list"
  meth_Func :: "('v, 'w) method_fn"

record ('v, 'w) methodType =
  mt_method :: "('v, 'w) go_method"
  ArgType :: go_type
  ReplyType :: go_type
  numCalls :: uint64

text \<open>What reflect sees of a receiver: the name of its struct, its method set, itself.\<close>

record ('v, 'w) go_receiver =
  rc_type_name :: string
  rc_methods :: "('v, 'w) go_method list"
  rc_value :: 'v

record ('v, 'w) service =
  svc_name :: string
  svc_typ :: "('v, 'w) go_method list"
  svc_rcvr :: 'v
  svc_method :: "string \<Rightarrow> ('v, 'w) methodType option"

text \<open>A new value: its type, and what it holds or points to.\<close>

datatype initial = Zero | EmptyMap | EmptySlice

record new_value =
  nv_type :: go_type
  nv_init :: initial

section \<open>Operations\<close>

definition NumCalls :: "('v, 'w) methodType \<Rightarrow> uint64" where
  "NumCalls m = numCalls m"

definition newArgv :: "('v, 'w) methodType \<Rightarrow> new_value outcome" where
  "newArgv m =
     (if type_Kind (ArgType m) = KPtr
      then bind_outcome (type_Elem (ArgType m)) (\<lambda>t. Ret \<lparr>nv_type = PtrTo t, nv_init = Zero\<rparr>)
      else Ret \<lparr>nv_type = ArgType m, nv_init = Zero\<rparr>)"

definition newReplyv :: "('v, 'w) methodType \<Rightarrow> new_value outcome" where
  "newReplyv m =
     bind_outcome (type_Elem (ReplyType m)) (\<lambda>t.
       case type_Kind t of
         KMap \<Rightarrow> Ret \<lparr>nv_type = PtrTo t, nv_init = EmptyMap\<rparr>
       | KSlice \<Rightarrow> Ret \<lparr>nv_type = PtrTo t, nv_init = EmptySlice\<rparr>
       | _ \<Rightarrow> Ret \<lparr>nv_type = PtrTo t, nv_init = Zero\<rparr>)"

definition isExportedOrBuiltinType :: "go_type \<Rightarrow> bool" where
  "isExportedOrBuiltinType t \<longleftrightarrow> IsExported (type_Name t) \<or> type_PkgPath t = ''''"

text \<open>The body of the loop in \<open>registerMethods\<close>; a \<open>continue\<close> leaves the map as it is.\<close>

definition register_method ::
  "('v, 'w) go_method \<Rightarrow> (string \<Rightarrow> ('v, 'w) methodType option) \<Rightarrow> string \<Rightarrow> ('v, 'w) methodType option" where
  "register_method m M =
     (if length (meth_In m) \<noteq> 3 \<or> length (meth_Out m) \<noteq> 1 then M
      else if meth_Out m ! 0 \<noteq> error_type then M
      else
        let argType = meth_In m ! 1; replyType = meth_In m ! 2
        in if \<not> isExportedOrBuiltinType argType \<or> \<not> isExportedOrBuiltinType replyType then M
           else M(meth_Name m \<mapsto> \<lparr>mt_method = m, ArgType = argType, ReplyType = replyType, numCalls = 0\<rparr>))"

definition registerMethods :: "('v, 'w) service \<Rightarrow> ('v, 'w) service" where
  "registerMethods s = s\<lparr>svc_method := fold register_method (svc_typ s) Map.empty\<rparr>"

definition not_valid_name :: string where
  "not_valid_name = [CHR 0xE4, CHR 0xB8, CHR 0x8D, CHR 0xE6, CHR 0x98, CHR 0xAF, CHR 0xE6,
     CHR 0x9C, CHR 0x89, CHR 0xE6, CHR 0x95, CHR 0x88, CHR 0xE7, CHR 0x9A, CHR 0x84, CHR 0xE6,
     CHR 0x9C, CHR 0x8D, CHR 0xE5, CHR 0x8A, CHR 0xA1, CHR 0xE5, CHR 0x90, CHR 0x8D, CHR 0xE7,
     CHR 0xA7, CHR 0xB0]"

text \<open>\<open>log.Fatalf\<close> ends the program, so here it is a panic.\<close>

definition newService :: "('v, 'w) go_receiver \<Rightarrow> ('v, 'w) service outcome" where
  "newService r =
     (let s = \<lparr>svc_name = rc_type_name r, svc_typ = rc_methods r, svc_rcvr = rc_value r,
               svc_method = Map.empty\<rparr>
      in if \<not> IsExported (svc_name s) then Panic (svc_name s @ not_valid_name)
         else Ret (registerMethods s))"

text \<open>\<open>call\<close> counts the call and runs the method; the count belongs to the method type.\<close>

definition service_call ::
  "('v, 'w) service \<Rightarrow> ('v, 'w) methodType \<Rightarrow> 'v \<Rightarrow> 'v \<Rightarrow> 'w \<Rightarrow>
   ((string option \<times> 'v) outcome \<times> 'w) \<times> ('v, 'w) methodType" where
  "service_call s m argv replyv w =
     (let m1 = m\<lparr>numCalls := numCalls m + 1\<rparr>
      in (meth_Func (mt_method m1) (svc_rcvr s) argv replyv w, m1))"

section \<open>What is registered\<close>

definition suitable :: "('v, 'w) go_method \<Rightarrow> bool" where
  "suitable m \<longleftrightarrow> (\<exists>rc a r. meth_In m = [rc, a, r] \<and> isExportedOrBuiltinType a \<and>
     isExportedOrBuiltinType r) \<and> meth_Out m = [error_type]"

lemma length_3_nth: "length xs = 3 \<Longrightarrow> xs = [xs ! 0, xs ! 1, xs ! 2]"
  by (auto simp: numeral_eq_Suc length_Suc_conv)

lemma register_method_eq:
  "register_method m M = (if suitable m then M(meth_Name m \<mapsto> \<lparr>mt_method = m,
     ArgType = meth_In m ! 1, ReplyType = meth_In m ! 2, numCalls = 0\<rparr>) else M)"
proof (cases "length (meth_In m) = 3 \<and> length (meth_Out m) = 1")
  case True
  then obtain rc a r e where "meth_In m = [rc, a, r]" "meth_Out m = [e]"
    by (metis length_3_nth One_nat_def length_0_conv length_Suc_conv)
  then show ?thesis by (auto simp: register_method_def suitable_def Let_def)
next
  case False
  then have "\<not> suitable m" by (auto simp: suitable_def)
  with False show ?thesis by (auto simp: register_method_def)
qed

lemma fold_register:
  assumes "distinct (map meth_Name ms)"
  shows "fold register_method ms M nm =
    (case find (\<lambda>m. meth_Name m = nm \<and> suitable m) ms of
       Some m \<Rightarrow> Some \<lparr>mt_method = m, ArgType = meth_In m ! 1, ReplyType = meth_In m ! 2, numCalls = 0\<rparr>
     | None \<Rightarrow> M nm)"
  using assms
proof (induction ms arbitrary: M)
  case Nil
  then show ?case by simp
next
  case (Cons m ms)
  have none: "meth_Name m = nm \<Longrightarrow> find (\<lambda>m. meth_Name m = nm \<and> suitable m) ms = None"
    using Cons.prems by (auto simp: find_None_iff) (metis imageI)
  have IH: "fold register_method ms M' nm = (case find (\<lambda>m. meth_Name m = nm \<and> suitable m) ms of
      Some m \<Rightarrow> Some \<lparr>mt_method = m, ArgType = meth_In m ! 1, ReplyType = meth_In m ! 2, numCalls = 0\<rparr>
    | None \<Rightarrow> M' nm)" for M'
    using Cons by simp
  show ?case
  proof (cases "meth_Name m = nm \<and> suitable m")
    case True
    then show ?thesis by (simp add: IH none register_method_eq [of m])
  next
    case False
    then show ?thesis by (auto simp: IH register_method_eq [of m] split: option.split)
  qed
qed

section \<open>Properties\<close>


text \<open>The service of the package's test, and a method whose reply is not a pointer.\<close>

definition foo_Sum :: "(int \<times> int, unit) go_method" where
  "foo_Sum = \<lparr>meth_Name = ''Sum'',
     meth_In = [Defined ''Foo'' ''main'' (Basic ''int''), Defined ''Args'' ''main'' (StructOf []), PtrTo (Basic ''int'')],
     meth_Out = [error_type], meth_Func = (\<lambda>rc a r w. (Ret (None, (fst a + snd a, 0)), w))\<rparr>"

definition foo_Bad :: "(int \<times> int, unit) go_method" where
  "foo_Bad = foo_Sum\<lparr>meth_Name := ''Bad'',
     meth_In := [Defined ''Foo'' ''main'' (Basic ''int''), Basic ''int'', Basic ''int'']\<rparr>"

definition foo :: "(int \<times> int, unit) go_receiver" where
  "foo = \<lparr>rc_type_name = ''Foo'', rc_methods = [foo_Bad, foo_Sum, foo_Sum\<lparr>meth_Name := ''Two'', meth_Out := []\<rparr>],
     rc_value = (0, 0)\<rparr>"


lemma assignable_PtrTo: "assignable (PtrTo t) u \<longleftrightarrow> underlying u = PtrTo t"
  by (auto simp: assignable_def)

text \<open>
  The value made for the reply fits the method's parameter just when the reply type is a
  pointer type, which registration does not require: for any other registered reply type
  making the value panics, or calling the method with it does, in the server.
\<close>

theorem newReplyv_fits_iff_pointer:
  "(\<exists>v. newReplyv m = Ret v \<and> assignable (nv_type v) (ReplyType m)) \<longleftrightarrow> type_Kind (ReplyType m) = KPtr"
proof -
  have "newReplyv m = bind_outcome (type_Elem (ReplyType m)) (\<lambda>t. Ret \<lparr>nv_type = PtrTo t,
      nv_init = (case type_Kind t of KMap \<Rightarrow> EmptyMap | KSlice \<Rightarrow> EmptySlice | _ \<Rightarrow> Zero)\<rparr>)"
    unfolding newReplyv_def by (rule arg_cong [of _ _ "bind_outcome (type_Elem (ReplyType m))"])
      (simp add: fun_eq_iff split: kind.split)
  then show ?thesis
    by (cases "underlying (ReplyType m)")
      (auto simp: type_Elem_def type_Kind_def assignable_PtrTo)
qed

end
