(* ===== verification/Go_Number.thy ===== *)
theory Go_Number
  imports Go_Strings
begin

text \<open>
  What the program uses of Go's packages \<open>strconv\<close> and \<open>time\<close>: decimal numbers printed and
  parsed, and the text of a duration. \<open>Atoi\<close> parses a 64-bit number; a result out of range is
  the nearest number that fits, with an error.
\<close>

section \<open>Printing\<close>

definition FormatInt :: "int \<Rightarrow> string" where
  "FormatInt i = (if i < 0 then CHR ''-'' # Itoa (nat (- i)) else Itoa (nat i))"

section \<open>Parsing\<close>

datatype num_error = Err_syntax | Err_range

definition digit_value :: "char \<Rightarrow> nat option" where
  "digit_value c = (let n = of_char c in if 48 \<le> n \<and> n \<le> 57 then Some (n - 48) else None)"

fun ParseUint :: "string \<Rightarrow> nat \<Rightarrow> num_error + nat" where
  "ParseUint [] n = Inr n"
| "ParseUint (c # cs) n =
     (case digit_value c of
        None \<Rightarrow> Inl Err_syntax
      | Some d \<Rightarrow> if n * 10 + d \<ge> 2 ^ 64 then Inl Err_range else ParseUint cs (n * 10 + d))"

definition ParseInt :: "string \<Rightarrow> int \<times> num_error option" where
  "ParseInt s0 =
     (if s0 = '''' then (0, Some Err_syntax)
      else
        let neg = (hd s0 = CHR ''-'');
            s = (if hd s0 = CHR ''+'' \<or> neg then tl s0 else s0)
        in if s = '''' then (0, Some Err_syntax)
           else
             case ParseUint s 0 of
               Inl Err_syntax \<Rightarrow> (0, Some Err_syntax)
             | Inl Err_range \<Rightarrow> (if neg then - (2 ^ 63) else 2 ^ 63 - 1, Some Err_range)
             | Inr un \<Rightarrow>
                 if \<not> neg \<and> un \<ge> 2 ^ 63 then (2 ^ 63 - 1, Some Err_range)
                 else if neg \<and> un > 2 ^ 63 then (- (2 ^ 63), Some Err_range)
                 else (if neg then - int un else int un, None))"

definition Atoi :: "string \<Rightarrow> int64 \<times> num_error option" where
  "Atoi s = (case ParseInt s of (i, e) \<Rightarrow> (word_of_int i, e))"

section \<open>Parsing what was printed\<close>

lemma digit_value_digit [simp]: "d < 10 \<Longrightarrow> digit_value (digit_char d) = Some d"
proof -
  assume "d < 10"
  then have "d \<in> {0, 1, 2, 3, 4, 5, 6, 7, 8, 9}" by auto
  then show ?thesis by (auto simp: digit_value_def digit_char_def)
qed

lemma Itoa_not_Nil [simp]: "Itoa n \<noteq> []"
  by (subst Itoa.simps) simp

lemma Itoa_digits: "c \<in> set (Itoa n) \<Longrightarrow> \<exists>d<10. c = digit_char d"
proof (induction n rule: Itoa.induct)
  case (1 n)
  then show ?case
    by (cases "n < 10") (auto simp: Itoa.simps [of n] intro: exI [of _ "n mod 10"])
qed

lemma digit_inj: "d < 10 \<Longrightarrow> e < 10 \<Longrightarrow> digit_char d = digit_char e \<Longrightarrow> d = e"
  by (metis digit_value_digit option.inject)

lemma ParseUint_append:
  "ParseUint (xs @ ys) n = (case ParseUint xs n of Inl e \<Rightarrow> Inl e | Inr m \<Rightarrow> ParseUint ys m)"
  by (induction xs arbitrary: n) (auto split: option.split)

lemma ParseUint_Itoa: "n < 2 ^ 64 \<Longrightarrow> ParseUint (Itoa n) 0 = Inr n"
proof (induction n rule: Itoa.induct)
  case (1 n)
  show ?case
  proof (cases "n < 10")
    case True
    then show ?thesis by (subst Itoa.simps) simp
  next
    case False
    moreover have "n div 10 < 2 ^ 64" using 1(2) by simp
    ultimately show ?thesis
      using 1 by (subst Itoa.simps) (simp add: ParseUint_append)
  qed
qed

lemma hd_Itoa: "hd (Itoa n) \<noteq> CHR ''-'' \<and> hd (Itoa n) \<noteq> CHR ''+''"
proof -
  have "hd (Itoa n) \<in> set (Itoa n)" by simp
  then obtain d where "d < 10" "hd (Itoa n) = digit_char d" using Itoa_digits by blast
  moreover have "digit_value (CHR ''-'') = None" "digit_value (CHR ''+'') = None"
    by (simp_all add: digit_value_def)
  ultimately show ?thesis by (metis digit_value_digit option.distinct(1))
qed

lemma Atoi_FormatInt:
  assumes "- (2 ^ 63) \<le> i" and "i < 2 ^ 63"
  shows "Atoi (FormatInt i) = (word_of_int i, None)"
proof (cases "i < 0")
  case True
  then have "nat (- i) < 2 ^ 64" "\<not> nat (- i) > 2 ^ 63" using assms by simp_all
  with True show ?thesis
    by (simp add: Atoi_def ParseInt_def FormatInt_def Let_def ParseUint_Itoa)
next
  case False
  then have "nat i < 2 ^ 64" "\<not> nat i \<ge> 2 ^ 63" using assms by simp_all
  with False show ?thesis
    using hd_Itoa [of "nat i"] by (simp add: Atoi_def ParseInt_def FormatInt_def Let_def ParseUint_Itoa)
qed

section \<open>Durations\<close>

text \<open>
  A duration is a number of nanoseconds. \<open>fmtFrac\<close> prints a fraction of \<open>prec\<close> digits without
  its trailing zeros, and no point if nothing is left.
\<close>

fun last_digits :: "nat \<Rightarrow> nat \<Rightarrow> string" where
  "last_digits 0 u = []"
| "last_digits (Suc k) u = last_digits k (u div 10) @ [digit_char (u mod 10)]"

definition fmtFrac :: "nat \<Rightarrow> nat \<Rightarrow> string" where
  "fmtFrac u prec =
     (let ds = rev (dropWhile (\<lambda>c. c = CHR ''0'') (rev (last_digits prec u)))
      in if ds = [] then [] else CHR ''.'' # ds)"

definition duration_abs :: "nat \<Rightarrow> string" where
  "duration_abs u =
     (if u = 0 then ''0s''
      else if u < 10 ^ 3 then Itoa u @ ''ns''
      else if u < 10 ^ 6 then Itoa (u div 10 ^ 3) @ fmtFrac u 3 @ [CHR 0xC2, CHR 0xB5] @ ''s''
      else if u < 10 ^ 9 then Itoa (u div 10 ^ 6) @ fmtFrac u 6 @ ''ms''
      else
        let s = u div 10 ^ 9; sec = Itoa (s mod 60) @ fmtFrac u 9 @ ''s''; m = s div 60
        in if m = 0 then sec
           else
             let h = m div 60; mins = Itoa (m mod 60) @ ''m'' @ sec
             in if h = 0 then mins else Itoa h @ ''h'' @ mins)"

definition duration_String :: "int \<Rightarrow> string" where
  "duration_String d = (if d < 0 then CHR ''-'' # duration_abs (nat (- d)) else duration_abs (nat d))"

end
