(* ===== verification/Rpc_Server.thy ===== *)
theory Rpc_Server
  imports Rpc_Service Go_Number Machine
begin

text \<open>
  MyRPC/server.go and the message types of MyRPC/codec: a connection is checked, then its
  requests are read one after the other and handled concurrently. The gob codec is a
  parameter: the messages of the connection are opaque, and the code only decodes them, as a
  header or into a new argument. The second half of the theory is the state machine of the two
  goroutines that handle one request.
\<close>

section \<open>State\<close>

record header =
  h_ServiceMethod :: string
  h_Seq :: uint64
  h_Error :: string

record rpc_option =
  opt_MagicNum :: int
  opt_CodecType :: string
  opt_ConnectTimeout :: int
  opt_HandleTimeout :: int

definition MagicNum :: int where
  "MagicNum = 0x3bef5c"

definition GobType :: string where
  "GobType = ''application/gob''"

text \<open>The map of codecs that \<open>init\<close> fills has one entry.\<close>

definition has_codec :: "string \<Rightarrow> bool" where
  "has_codec t \<longleftrightarrow> t = GobType"

definition DefaultOption :: rpc_option where
  "DefaultOption = \<lparr>opt_MagicNum = MagicNum, opt_CodecType = GobType,
     opt_ConnectTimeout = 10 * 10 ^ 9, opt_HandleTimeout = 0\<rparr>"

record ('v, 'w) server =
  serviceMap :: "string \<Rightarrow> ('v, 'w) service option"

definition NewServer :: "('v, 'w) server" where
  "NewServer = \<lparr>serviceMap = Map.empty\<rparr>"

text \<open>What the codec makes of a message, and the value a new reply starts with.\<close>

record ('m, 'v) codec_fns =
  dec_header :: "'m \<Rightarrow> string + header"
  dec_body :: "new_value \<Rightarrow> 'm \<Rightarrow> string + 'v"
  init_value :: "new_value \<Rightarrow> 'v"

record 'v request =
  rq_h :: header
  rq_argv :: 'v
  rq_replyv :: 'v
  rq_service :: string
  rq_method :: string

section \<open>Services\<close>

definition already_defined :: string where
  "already_defined = ''rpc:'' @ [CHR 0xE6, CHR 0x9C, CHR 0x8D, CHR 0xE5, CHR 0x8A, CHR 0xA1,
     CHR 0xE5, CHR 0xB7, CHR 0xB2, CHR 0xE5, CHR 0xAE, CHR 0x9A, CHR 0xE4, CHR 0xB9, CHR 0x89,
     CHR 0xEF, CHR 0xBC, CHR 0x9A]"

definition Register ::
  "('v, 'w) go_receiver \<Rightarrow> ('v, 'w) server \<Rightarrow> string option outcome \<times> ('v, 'w) server" where
  "Register rcvr srv =
     (case newService rcvr of
        Ret s \<Rightarrow>
          (case serviceMap srv (svc_name s) of
             Some _ \<Rightarrow> (Ret (Some (already_defined @ svc_name s)), srv)
           | None \<Rightarrow> (Ret None, srv\<lparr>serviceMap := (serviceMap srv)(svc_name s \<mapsto> s)\<rparr>))
      | Panic m \<Rightarrow> (Panic m, srv)
      | Hang \<Rightarrow> (Hang, srv))"

definition rpc_server_prefix :: string where
  "rpc_server_prefix = ''rpc'' @ [CHR 0xE6, CHR 0x9C, CHR 0x8D, CHR 0xE5, CHR 0x8A, CHR 0xA1,
     CHR 0xE5, CHR 0x99, CHR 0xA8, CHR 0xEF, CHR 0xBC, CHR 0x9A]"

definition cannot_find :: string where
  "cannot_find = [CHR 0xE6, CHR 0x89, CHR 0xBE, CHR 0xE4, CHR 0xB8, CHR 0x8D, CHR 0xE5, CHR 0x88, CHR 0xB0]"

definition ill_formed :: string where
  "ill_formed = ''service/method'' @ [CHR 0xE8, CHR 0xAF, CHR 0xB7, CHR 0xE6, CHR 0xB1, CHR 0x82,
     CHR 0xE6, CHR 0xA0, CHR 0xBC, CHR 0xE5, CHR 0xBC, CHR 0x8F, CHR 0xE9, CHR 0x94, CHR 0x99,
     CHR 0xE8, CHR 0xAF, CHR 0xAF, CHR 0xEF, CHR 0xBC, CHR 0x9A]"

text \<open>On success the names of the service and of the method and the method itself.\<close>

definition findService ::
  "string \<Rightarrow> ('v, 'w) server \<Rightarrow> string + string \<times> string \<times> ('v, 'w) methodType" where
  "findService serviceMethod srv =
     (case strings_LastIndex serviceMethod (CHR ''.'') of
        None \<Rightarrow> Inl (rpc_server_prefix @ ill_formed @ serviceMethod)
      | Some dot \<Rightarrow>
          let serviceName = take dot serviceMethod; methodName = drop (dot + 1) serviceMethod
          in case serviceMap srv serviceName of
               None \<Rightarrow> Inl (rpc_server_prefix @ cannot_find @ ''service'' @ serviceName)
             | Some svc \<Rightarrow>
                 (case svc_method svc methodName of
                    None \<Rightarrow> Inl (rpc_server_prefix @ cannot_find @ ''method'' @ methodName)
                  | Some mtype \<Rightarrow> Inr (serviceName, methodName, mtype)))"

text \<open>\<open>call\<close> on a request: the method runs and the counter in the server's map goes up.\<close>

definition server_call ::
  "('v, 'w) server \<Rightarrow> 'v request \<Rightarrow> 'w \<Rightarrow> ((string option \<times> 'v) outcome \<times> 'w) \<times> ('v, 'w) server" where
  "server_call srv rq w =
     (let svc = the (serviceMap srv (rq_service rq));
          mtype = the (svc_method svc (rq_method rq));
          (res, mtype1) = service_call svc mtype (rq_argv rq) (rq_replyv rq) w;
          svc1 = svc\<lparr>svc_method := (svc_method svc)(rq_method rq \<mapsto> mtype1)\<rparr>
      in (res, srv\<lparr>serviceMap := (serviceMap srv)(rq_service rq \<mapsto> svc1)\<rparr>))"

section \<open>Reading requests\<close>

fun readRequestHeader :: "('m, 'v) codec_fns \<Rightarrow> 'm list \<Rightarrow> (string + header) \<times> 'm list" where
  "readRequestHeader cc [] = (Inl ''EOF'', [])"
| "readRequestHeader cc (m # ms) = (dec_header cc m, ms)"

fun ReadBody :: "('m, 'v) codec_fns \<Rightarrow> new_value \<Rightarrow> 'm list \<Rightarrow> (string + 'v) \<times> 'm list" where
  "ReadBody cc nv [] = (Inl ''EOF'', [])"
| "ReadBody cc nv (m # ms) = (dec_body cc nv m, ms)"

text \<open>
  The three results of \<open>readRequest\<close> that its caller tells apart: no request at all, a request
  with an error, a request.
\<close>

datatype 'v read_result =
    No_request string
  | Bad_request header string
  | Good_request "'v request"

definition readRequest ::
  "('m, 'v) codec_fns \<Rightarrow> ('v, 'w) server \<Rightarrow> 'm list \<Rightarrow> 'v read_result outcome \<times> 'm list" where
  "readRequest cc srv ms =
     (case readRequestHeader cc ms of
        (Inl e, ms1) \<Rightarrow> (Ret (No_request e), ms1)
      | (Inr h, ms1) \<Rightarrow>
          (case findService (h_ServiceMethod h) srv of
             Inl e \<Rightarrow> (Ret (Bad_request h e), ms1)
           | Inr (sn, mn, mtype) \<Rightarrow>
               bind_run (newArgv mtype, ms1) (\<lambda>argv ms2.
               bind_run (newReplyv mtype, ms2) (\<lambda>replyv ms3.
                 case ReadBody cc argv ms3 of
                   (Inl e, ms4) \<Rightarrow> (Ret (Bad_request h e), ms4)
                 | (Inr v, ms4) \<Rightarrow>
                     (Ret (Good_request \<lparr>rq_h = h, rq_argv = v, rq_replyv = init_value cc replyv,
                        rq_service = sn, rq_method = mn\<rparr>), ms4)))))"

lemma readRequestHeader_shorter:
  "readRequestHeader cc ms = (Inr h, ms1) \<Longrightarrow> length ms1 < length ms"
  by (cases ms) auto

lemma ReadBody_shorter: "ReadBody cc nv ms = (y, ms1) \<Longrightarrow> length ms1 \<le> length ms"
  by (cases ms) auto

lemma readRequest_shorter:
  assumes "readRequest cc srv ms = (Ret r, ms1)" and "\<And>e. r \<noteq> No_request e"
  shows "length ms1 < length ms"
proof (cases "readRequestHeader cc ms")
  case (Pair x ms0)
  with assms obtain h where "x = Inr h" by (cases x) (auto simp: readRequest_def)
  with Pair have lt: "length ms0 < length ms" by (simp add: readRequestHeader_shorter)
  have "length ms1 \<le> length ms0"
    using assms(1) Pair \<open>x = Inr h\<close>
    by (auto simp: readRequest_def bind_run_Ret_iff split: sum.splits prod.splits)
      (metis ReadBody_shorter prod.exhaust sum.exhaust)
  with lt show ?thesis by simp
qed

text \<open>
  The loop of \<open>serverCodec\<close>: what it does with each request it reads. It ends when there is no
  request; a panic in it ends the whole server.
\<close>

datatype 'v action = Reply_error header | Handle "'v request"

function serve_loop ::
  "('m, 'v) codec_fns \<Rightarrow> ('v, 'w) server \<Rightarrow> 'm list \<Rightarrow> 'v action list \<times> string option" where
  "serve_loop cc srv ms =
     (case readRequest cc srv ms of
        (Ret (No_request e), ms1) \<Rightarrow> ([], None)
      | (Ret (Bad_request h e), ms1) \<Rightarrow>
          let (acts, p) = serve_loop cc srv ms1 in (Reply_error (h\<lparr>h_Error := e\<rparr>) # acts, p)
      | (Ret (Good_request rq), ms1) \<Rightarrow>
          let (acts, p) = serve_loop cc srv ms1 in (Handle rq # acts, p)
      | (Panic m, ms1) \<Rightarrow> ([], Some m)
      | (Hang, ms1) \<Rightarrow> ([], None))"
  by pat_completeness auto
termination
  by (relation "measure (\<lambda>(cc, srv, ms). length ms)") (auto dest!: sym [of "(_, _)"] readRequest_shorter)

declare serve_loop.simps [simp del]

text \<open>
  \<open>ServerConn\<close>: the option, then the requests. The JSON decoder reads what has arrived, the
  option and perhaps messages behind it; those stay in its buffer, which nobody reads again.
\<close>

definition ServerConn ::
  "('m, 'v) codec_fns \<Rightarrow> ('v, 'w) server \<Rightarrow> string + rpc_option \<Rightarrow> 'm list \<Rightarrow> 'm list \<Rightarrow>
   'v action list \<times> string option" where
  "ServerConn cc srv opt buffered rest =
     (case opt of
        Inl e \<Rightarrow> ([], None)
      | Inr op \<Rightarrow>
          if opt_MagicNum op \<noteq> MagicNum then ([], None)
          else if \<not> has_codec (opt_CodecType op) then ([], None)
          else serve_loop cc srv rest)"

section \<open>The goroutines of one request\<close>

text \<open>
  \<open>handleRequest\<close> starts a goroutine that calls the method and sends the response, and meets it
  on two unbuffered channels; with a timeout set it may instead stop waiting and send an error.
  \<open>M_\<close> are the places of the handler, \<open>C_\<close> those of the goroutine it starts. A response is the
  error of its header and the body, \<open>None\<close> for the placeholder that errors are sent with.
\<close>

datatype handler_pc = M_Select | M_Got_called | M_Timed_out | M_Done
datatype 'v caller_pc = C_Calling | C_Called "string option \<times> 'v" | C_Sending "string option \<times> 'v" | C_Sent | C_Done

record 'v handling =
  hd_main :: handler_pc
  hd_call :: "'v caller_pc"
  hd_sent :: "(string \<times> 'v option) list"

definition handle_start :: "'v handling" where
  "handle_start = \<lparr>hd_main = M_Select, hd_call = C_Calling, hd_sent = []\<rparr>"

definition handle_timeout :: "int \<Rightarrow> string" where
  "handle_timeout timeout = rpc_server_prefix @
     [CHR 0xE8, CHR 0xAF, CHR 0xB7, CHR 0xE6, CHR 0xB1, CHR 0x82] @
     ''handle timeout'' @
     [CHR 0xEF, CHR 0xBC, CHR 0x9A, CHR 0xE5, CHR 0xBA, CHR 0x94, CHR 0xE5, CHR 0x9C, CHR 0xA8] @
     duration_String timeout @ [CHR 0xE5, CHR 0x86, CHR 0x85]"

definition result_response :: "string option \<times> 'v \<Rightarrow> string \<times> 'v option" where
  "result_response r = (case r of (Some e, v) \<Rightarrow> (e, None) | (None, v) \<Rightarrow> ('''', Some v))"

inductive handle_step :: "int \<Rightarrow> 'v handling \<Rightarrow> 'v handling \<Rightarrow> bool" for timeout :: int where
  returns: "hd_call s = C_Calling \<Longrightarrow> handle_step timeout s (s\<lparr>hd_call := C_Called r\<rparr>)"
| called: "hd_main s = M_Select \<Longrightarrow> hd_call s = C_Called r \<Longrightarrow>
     handle_step timeout s (s\<lparr>hd_main := M_Got_called, hd_call := C_Sending r\<rparr>)"
| send: "hd_call s = C_Sending r \<Longrightarrow>
     handle_step timeout s (s\<lparr>hd_sent := hd_sent s @ [result_response r], hd_call := C_Sent\<rparr>)"
| sent: "hd_main s = M_Got_called \<Longrightarrow> hd_call s = C_Sent \<Longrightarrow>
     handle_step timeout s (s\<lparr>hd_main := M_Done, hd_call := C_Done\<rparr>)"
| expire: "timeout \<noteq> 0 \<Longrightarrow> hd_main s = M_Select \<Longrightarrow>
     handle_step timeout s (s\<lparr>hd_main := M_Timed_out\<rparr>)"
| send_timeout: "hd_main s = M_Timed_out \<Longrightarrow>
     handle_step timeout s (s\<lparr>hd_sent := hd_sent s @ [(handle_timeout timeout, None)], hd_main := M_Done\<rparr>)"

abbreviation handle_steps :: "int \<Rightarrow> 'v handling \<Rightarrow> 'v handling \<Rightarrow> bool" where
  "handle_steps timeout \<equiv> (handle_step timeout)\<^sup>*\<^sup>*"

text \<open>
  Where the two goroutines can be and what has been sent then: either the handler took the
  result, or it timed out and the other goroutine has not got past the first channel.
\<close>

definition handle_inv :: "int \<Rightarrow> 'v handling \<Rightarrow> bool" where
  "handle_inv timeout s \<longleftrightarrow>
     (case hd_main s of
        M_Select \<Rightarrow> hd_sent s = [] \<and> (hd_call s = C_Calling \<or> (\<exists>r. hd_call s = C_Called r))
      | M_Got_called \<Rightarrow> (\<exists>r. hd_call s = C_Sending r \<and> hd_sent s = [] \<or>
                              hd_call s = C_Sent \<and> hd_sent s = [result_response r])
      | M_Timed_out \<Rightarrow> timeout \<noteq> 0 \<and> hd_sent s = [] \<and> (hd_call s = C_Calling \<or> (\<exists>r. hd_call s = C_Called r))
      | M_Done \<Rightarrow> (\<exists>r. hd_call s = C_Done \<and> hd_sent s = [result_response r]) \<or>
          timeout \<noteq> 0 \<and> hd_sent s = [(handle_timeout timeout, None)] \<and>
          (hd_call s = C_Calling \<or> (\<exists>r. hd_call s = C_Called r)))"

lemma handle_step_inv: "handle_step timeout s s' \<Longrightarrow> handle_inv timeout s \<Longrightarrow> handle_inv timeout s'"
  by (erule handle_step.cases) (auto simp: handle_inv_def split: handler_pc.splits)

lemma handle_start_inv: "handle_inv timeout handle_start"
  by (simp add: handle_inv_def handle_start_def)

interpretation hand: machine "\<lambda>s. s = handle_start" "handle_step timeout" "handle_inv timeout" for timeout
  by unfold_locales (simp add: handle_start_inv, rule handle_step_inv)

text \<open>A timed-out handler: the other goroutine never gets past the first channel.\<close>

definition abandoned :: "'v handling \<Rightarrow> bool" where
  "abandoned s \<longleftrightarrow> hd_main s \<in> {M_Timed_out, M_Done} \<and> (hd_call s = C_Calling \<or> (\<exists>r. hd_call s = C_Called r))"

lemma abandoned_step: "handle_step timeout s s' \<Longrightarrow> abandoned s \<Longrightarrow> abandoned s'"
  by (erule handle_step.cases) (auto simp: abandoned_def)

lemma abandoned_steps: "handle_steps timeout s s' \<Longrightarrow> abandoned s \<Longrightarrow> abandoned s'"
  by (induction rule: rtranclp_induct) (auto intro: abandoned_step)

section \<open>Reading well-formed requests\<close>

text \<open>Two messages, a header and a body, that the loop reads as one request.\<close>

definition reads_as ::
  "('m, 'v) codec_fns \<Rightarrow> ('v, 'w) server \<Rightarrow> 'm \<Rightarrow> 'm \<Rightarrow> 'v action \<Rightarrow> bool" where
  "reads_as cc srv mh mb act \<longleftrightarrow>
     (\<exists>h sn mn mtype a r. dec_header cc mh = Inr h \<and> findService (h_ServiceMethod h) srv = Inr (sn, mn, mtype) \<and>
        newArgv mtype = Ret a \<and> newReplyv mtype = Ret r \<and>
        (case dec_body cc a mb of
           Inl e \<Rightarrow> act = Reply_error (h\<lparr>h_Error := e\<rparr>)
         | Inr v \<Rightarrow> act = Handle \<lparr>rq_h = h, rq_argv = v, rq_replyv = init_value cc r,
             rq_service = sn, rq_method = mn\<rparr>))"

lemma serve_loop_request:
  assumes "reads_as cc srv mh mb act"
  shows "serve_loop cc srv (mh # mb # ms) = (act # fst (serve_loop cc srv ms), snd (serve_loop cc srv ms))"
proof -
  obtain h sn mn mtype a r where f: "dec_header cc mh = Inr h" "findService (h_ServiceMethod h) srv = Inr (sn, mn, mtype)"
    "newArgv mtype = Ret a" "newReplyv mtype = Ret r"
    "case dec_body cc a mb of
       Inl e \<Rightarrow> act = Reply_error (h\<lparr>h_Error := e\<rparr>)
     | Inr v \<Rightarrow> act = Handle \<lparr>rq_h = h, rq_argv = v, rq_replyv = init_value cc r, rq_service = sn, rq_method = mn\<rparr>"
    using assms unfolding reads_as_def by blast
  then show ?thesis
    by (subst serve_loop.simps) (auto simp: readRequest_def Let_def case_prod_beta split: sum.splits)
qed

lemma serve_loop_requests:
  assumes "\<forall>(mh, mb, act) \<in> set items. reads_as cc srv mh mb act"
  shows "serve_loop cc srv (concat (map (\<lambda>(mh, mb, act). [mh, mb]) items) @ rest) =
    (map (\<lambda>(mh, mb, act). act) items @ fst (serve_loop cc srv rest), snd (serve_loop cc srv rest))"
  using assms by (induction items) (auto simp: serve_loop_request)

lemma serve_loop_unknown:
  assumes "dec_header cc mh = Inr h" and "findService (h_ServiceMethod h) srv = Inl e"
  shows "serve_loop cc srv (mh # ms) =
    (Reply_error (h\<lparr>h_Error := e\<rparr>) # fst (serve_loop cc srv ms), snd (serve_loop cc srv ms))"
  by (subst serve_loop.simps) (simp add: readRequest_def assms Let_def case_prod_beta)

lemma serve_loop_no_header:
  assumes "dec_header cc m = Inl e"
  shows "serve_loop cc srv (m # ms) = ([], None)"
  by (subst serve_loop.simps) (simp add: readRequest_def assms)

text \<open>A method whose reply type has no elements takes the whole server down when it is called.\<close>

lemma value_reply_panics:
  assumes "dec_header cc mh = Inr h" and "findService (h_ServiceMethod h) srv = Inr (sn, mn, mtype)"
    and "newArgv mtype = Ret a" and "type_Elem (ReplyType mtype) = Panic msg"
  shows "serve_loop cc srv (mh # ms) = ([], Some msg)"
  by (subst serve_loop.simps) (simp add: readRequest_def newReplyv_def assms)

section \<open>Properties\<close>

text \<open>A server with the service of the example, and a codec that tells headers from bodies.\<close>

definition demo_server :: "(int \<times> int, unit) server" where
  "demo_server = snd (Register foo NewServer)"

definition demo_codec :: "(header + int \<times> int, int \<times> int) codec_fns" where
  "demo_codec = \<lparr>dec_header = (\<lambda>m. case m of Inl h \<Rightarrow> Inr h | Inr b \<Rightarrow> Inl ''gob: type mismatch''),
     dec_body = (\<lambda>nv m. case m of Inl h \<Rightarrow> Inl ''gob: type mismatch'' | Inr b \<Rightarrow> Inr b),
     init_value = (\<lambda>nv. (0, 0))\<rparr>"

definition demo_header :: "string \<Rightarrow> uint64 \<Rightarrow> header" where
  "demo_header sm n = \<lparr>h_ServiceMethod = sm, h_Seq = n, h_Error = ''''\<rparr>"

lemma demo_find:
  "findService ''Foo.Sum'' demo_server = Inr (''Foo'', ''Sum'', \<lparr>mt_method = foo_Sum,
     ArgType = Defined ''Args'' ''main'' (StructOf []), ReplyType = PtrTo (Basic ''int''), numCalls = 0\<rparr>)"
  "\<exists>e. findService ''Foo.No'' demo_server = Inl e"
  by (simp_all add: findService_def demo_server_def Register_def newService_def registerMethods_def NewServer_def
      foo_def foo_Bad_def foo_Sum_def register_method_eq suitable_def isExportedOrBuiltinType_def
      IsExported_def Let_def)

lemma demo_reads:
  "reads_as demo_codec demo_server (Inl (demo_header ''Foo.Sum'' n)) (Inr v)
     (Handle \<lparr>rq_h = demo_header ''Foo.Sum'' n, rq_argv = v, rq_replyv = (0, 0), rq_service = ''Foo'', rq_method = ''Sum''\<rparr>)"
  unfolding reads_as_def
  by (intro exI conjI) (auto simp: demo_codec_def demo_header_def demo_find newArgv_def newReplyv_def
      type_Kind_def type_Elem_def)



text \<open>
  C33: A request for a method that does not exist costs the client its connection: the server
  answers with an error but leaves the argument unread, takes it for the next header, fails,
  and closes; every request behind it is lost.
\<close>

theorem unknown_method_drops_connection:
  assumes "dec_header cc mh = Inr h" and "findService (h_ServiceMethod h) srv = Inl e"
    and "dec_header cc mb = Inl e'"
  shows "serve_loop cc srv (mh # mb # later) = ([Reply_error (h\<lparr>h_Error := e\<rparr>)], None)"
  by (simp add: serve_loop_unknown [OF assms(1,2)] serve_loop_no_header [OF assms(3)])

theorem unknown_method_drops_connection_witness:
  "\<exists>h. serve_loop demo_codec demo_server
      [Inl (demo_header ''Foo.No'' 1), Inr (3, 4), Inl (demo_header ''Foo.Sum'' 2), Inr (5, 6)] =
    ([Reply_error h], None)"
proof -
  obtain e where e: "findService (h_ServiceMethod (demo_header ''Foo.No'' 1)) demo_server = Inl e"
    using demo_find(2) by (auto simp: demo_header_def)
  have "dec_header demo_codec (Inl (demo_header ''Foo.No'' 1)) = Inr (demo_header ''Foo.No'' 1)"
    "dec_header demo_codec (Inr (3, 4)) = Inl ''gob: type mismatch''"
    by (simp_all add: demo_codec_def)
  from unknown_method_drops_connection [OF this(1) e this(2)] show ?thesis by blast
qed

fun main_weight :: "handler_pc \<Rightarrow> nat" where
  "main_weight M_Select = 2"
| "main_weight M_Got_called = 1"
| "main_weight M_Timed_out = 1"
| "main_weight M_Done = 0"

fun call_weight :: "'v caller_pc \<Rightarrow> nat" where
  "call_weight C_Calling = 4"
| "call_weight (C_Called r) = 3"
| "call_weight (C_Sending r) = 2"
| "call_weight C_Sent = 1"
| "call_weight C_Done = 0"

definition handle_left :: "'v handling \<Rightarrow> nat" where
  "handle_left s = main_weight (hd_main s) + call_weight (hd_call s)"

lemma handle_progress:
  assumes "handle_inv timeout s" and "hd_main s \<noteq> M_Done"
  shows "\<exists>s'. handle_step timeout s s'"
  using assms by (cases "hd_main s") (auto simp: handle_inv_def intro: handle_step.intros)

lemma handle_decrease: "handle_step timeout s s' \<Longrightarrow> handle_left s' < handle_left s"
  by (erule handle_step.cases) (auto simp: handle_left_def)

interpretation handler: ending_machine "\<lambda>s. s = handle_start" "handle_step timeout" "handle_inv timeout"
  "\<lambda>s. hd_main s = M_Done" handle_left for timeout
  by unfold_locales (rule handle_progress, assumption+, rule handle_decrease)

text \<open>
  C15: Every handled request gets exactly one response, however the two goroutines and the
  timeout interleave: never a second one; one when the handler is done, the method's own if no
  timeout is set; and once the method has returned the handling never deadlocks and always
  ends.
\<close>

theorem handleRequest_one_response:
  assumes "handle_steps timeout handle_start s"
  shows "length (hd_sent s) \<le> 1 \<and>
    (hd_main s = M_Done \<longrightarrow> (\<exists>r. hd_sent s = [result_response r]) \<or>
       timeout \<noteq> 0 \<and> hd_sent s = [(handle_timeout timeout, None)]) \<and>
    (hd_main s \<noteq> M_Done \<and> hd_call s \<noteq> C_Calling \<longrightarrow> (\<exists>s'. handle_step timeout s s')) \<and>
    (\<forall>s'. handle_step timeout s s' \<longrightarrow> handle_left s' < handle_left s) \<and>
    (\<exists>s'. handle_steps timeout s s' \<and> hd_main s' = M_Done)"
proof -
  have inv: "handle_inv timeout s" by (rule hand.inv_reached [OF assms refl])
  then have "length (hd_sent s) \<le> 1" "hd_main s = M_Done \<longrightarrow> (\<exists>r. hd_sent s = [result_response r]) \<or>
       timeout \<noteq> 0 \<and> hd_sent s = [(handle_timeout timeout, None)]"
    by (auto simp: handle_inv_def split: handler_pc.splits)
  with handle_progress [OF inv] handle_decrease handler.can_end [OF inv] show ?thesis by blast
qed

text \<open>A handler that timed out while the method was running, and answered.\<close>

definition demo_timed_out :: "int handling" where
  "demo_timed_out = \<lparr>hd_main = M_Timed_out, hd_call = C_Calling, hd_sent = []\<rparr>"

definition demo_late :: "int handling" where
  "demo_late = \<lparr>hd_main = M_Done, hd_call = C_Called (None, 7), hd_sent = [(handle_timeout 5, None)]\<rparr>"

lemma demo_timed_out_reach: "handle_steps 5 handle_start demo_timed_out"
proof -
  have "handle_step 5 handle_start demo_timed_out"
    using handle_step.expire [of 5 "handle_start :: int handling"] by (simp add: handle_start_def demo_timed_out_def)
  then show ?thesis by (rule r_into_rtranclp)
qed

lemma demo_late_reach: "handle_steps 5 demo_timed_out demo_late"
proof -
  have "handle_step 5 demo_timed_out (demo_timed_out\<lparr>hd_call := C_Called (None, 7)\<rparr>)"
    by (rule handle_step.returns) (simp add: demo_timed_out_def)
  moreover have "handle_step 5 (demo_timed_out\<lparr>hd_call := C_Called (None, 7)\<rparr>) demo_late"
    using handle_step.send_timeout [of "demo_timed_out\<lparr>hd_call := C_Called (None, 7)\<rparr>" 5]
    by (simp add: demo_timed_out_def demo_late_def)
  ultimately show ?thesis by (meson reach_refl reach_step)
qed

theorem handleRequest_one_response_witness: "length (hd_sent demo_late) \<le> 1"
  using handleRequest_one_response [OF rtranclp_trans [OF demo_timed_out_reach demo_late_reach]] by blast

text \<open>
  A request that times out leaks a goroutine: the one that runs the method can never hand
  over its result afterwards; when the method returns it blocks for good on a channel that
  nobody reads.
\<close>

theorem handle_timeout_leaks_goroutine:
  assumes "handle_steps timeout handle_start s" and "hd_main s = M_Timed_out"
    and "handle_steps timeout s s'"
  shows "hd_call s' \<noteq> C_Done \<and>
    (hd_main s' = M_Done \<and> hd_call s' \<noteq> C_Calling \<longrightarrow> (\<nexists>s''. handle_step timeout s' s''))"
proof -
  have "handle_inv timeout s" by (rule hand.inv_reached [OF assms(1) refl])
  then have "abandoned s" using assms(2) by (auto simp: handle_inv_def abandoned_def)
  then have "abandoned s'" by (rule abandoned_steps [OF assms(3)])
  then show ?thesis by (auto simp: abandoned_def elim: handle_step.cases)
qed

theorem handle_timeout_leaks_goroutine_witness: "\<nexists>s''. handle_step 5 demo_late s''"
proof -
  have "hd_main demo_timed_out = M_Timed_out" "hd_main demo_late = M_Done" "hd_call demo_late \<noteq> C_Calling"
    by (simp_all add: demo_timed_out_def demo_late_def)
  with handle_timeout_leaks_goroutine [OF demo_timed_out_reach this(1) demo_late_reach] show ?thesis by blast
qed

end
