(* ===== verification/Rpc_Conn.thy ===== *)
theory Rpc_Conn
  imports Rpc_Server "HOL-Library.Sublist"
begin

text \<open>
  \<open>serverCodec\<close> of MyRPC/server.go with everything that runs on one connection: the loop that
  reads the requests, the goroutines that handle them, the mutex that keeps responses apart and
  the wait group that keeps the connection open until all of them are done. A response is
  written in two halves, header and body, as the codec does; the connection may fail at any
  time, and what is written to it then is lost without notice.

  \<open>cn_acts\<close>, the requests read so far, and \<open>cn_written\<close>, the responses whose writing is over,
  are for the proofs only.
\<close>

section \<open>State\<close>

datatype conn_pc = Reading | Replying header | Awaiting | Conn_closed | Crashed string

datatype 'v item = Item_header header | Item_body "'v option"

text \<open>The owner of the mutex: the loop, or the handler of a number; its response; what is written.\<close>

record 'v writer =
  wr_by :: "nat option"
  wr_resp :: "header \<times> 'v option"
  wr_half :: nat

record ('m, 'v) conn =
  cn_in :: "'m list"
  cn_pc :: conn_pc
  cn_wait :: nat
  cn_hand :: "('v request \<times> 'v handling) list"
  cn_send :: "'v writer option"
  cn_out :: "'v item list"
  cn_up :: bool
  cn_acts :: "'v action list"
  cn_written :: "(header \<times> 'v option) list"

definition conn_start :: "'m list \<Rightarrow> ('m, 'v) conn" where
  "conn_start ms = \<lparr>cn_in = ms, cn_pc = Reading, cn_wait = 0, cn_hand = [], cn_send = None, cn_out = [],
     cn_up = True, cn_acts = [], cn_written = []\<rparr>"

text \<open>The header and the body a request is answered with; a result leaves the header as it came.\<close>

definition respond :: "'v request \<Rightarrow> string \<times> 'v option \<Rightarrow> header \<times> 'v option" where
  "respond rq = (\<lambda>(e, b). (case b of None \<Rightarrow> (rq_h rq)\<lparr>h_Error := e\<rparr> | Some v \<Rightarrow> rq_h rq, b))"

section \<open>Steps\<close>

definition put_item :: "'v item \<Rightarrow> ('m, 'v) conn \<Rightarrow> ('m, 'v) conn" where
  "put_item x C = (if cn_up C then C\<lparr>cn_out := cn_out C @ [x]\<rparr> else C)"

definition send_lock :: "nat option \<Rightarrow> header \<times> 'v option \<Rightarrow> ('m, 'v) conn \<Rightarrow> ('m, 'v) conn" where
  "send_lock by r C = C\<lparr>cn_send := Some \<lparr>wr_by = by, wr_resp = r, wr_half = 0\<rparr>\<rparr>"

definition send_half :: "'v writer \<Rightarrow> ('m, 'v) conn \<Rightarrow> ('m, 'v) conn" where
  "send_half wr C =
     put_item (if wr_half wr = 0 then Item_header (fst (wr_resp wr)) else Item_body (snd (wr_resp wr)))
       (C\<lparr>cn_send := Some (wr\<lparr>wr_half := Suc (wr_half wr)\<rparr>)\<rparr>)"

definition send_unlock :: "'v writer \<Rightarrow> ('m, 'v) conn \<Rightarrow> ('m, 'v) conn" where
  "send_unlock wr C = C\<lparr>cn_send := None, cn_written := wr_resp wr # cn_written C\<rparr>"

text \<open>A handler moves; its deferred \<open>wait.Done()\<close> comes with its last step.\<close>

definition hand_moves :: "nat \<Rightarrow> 'v handling \<Rightarrow> ('m, 'v) conn \<Rightarrow> ('m, 'v) conn" where
  "hand_moves k st' C =
     (let (rq, st) = cn_hand C ! k
      in C\<lparr>cn_hand := (cn_hand C)[k := (rq, st')],
           cn_wait := (if hd_main st \<noteq> M_Done \<and> hd_main st' = M_Done then cn_wait C - 1 else cn_wait C)\<rparr>)"

text \<open>What the loop does with the result of \<open>readRequest\<close>.\<close>

definition loop_read :: "'v read_result outcome \<Rightarrow> 'm list \<Rightarrow> ('m, 'v) conn \<Rightarrow> ('m, 'v) conn" where
  "loop_read r ms C =
     (case r of
        Ret (No_request e) \<Rightarrow> C\<lparr>cn_in := ms, cn_pc := Awaiting\<rparr>
      | Ret (Bad_request h e) \<Rightarrow>
          C\<lparr>cn_in := ms, cn_pc := Replying (h\<lparr>h_Error := e\<rparr>), cn_acts := cn_acts C @ [Reply_error (h\<lparr>h_Error := e\<rparr>)]\<rparr>
      | Ret (Good_request rq) \<Rightarrow>
          C\<lparr>cn_in := ms, cn_wait := Suc (cn_wait C), cn_hand := cn_hand C @ [(rq, handle_start)],
            cn_acts := cn_acts C @ [Handle rq]\<rparr>
      | Panic m \<Rightarrow> C\<lparr>cn_in := ms, cn_pc := Crashed m\<rparr>
      | Hang \<Rightarrow> C)"

inductive conn_step ::
  "('m, 'v) codec_fns \<Rightarrow> ('v, 'w) server \<Rightarrow> int \<Rightarrow> ('m, 'v) conn \<Rightarrow> ('m, 'v) conn \<Rightarrow> bool"
  for cc srv timeout where
  read: "cn_pc C = Reading \<Longrightarrow> readRequest cc srv (cn_in C) = (r, ms) \<Longrightarrow> r \<noteq> Hang \<Longrightarrow>
     conn_step cc srv timeout C (loop_read r ms C)"
| reply_lock: "cn_pc C = Replying h \<Longrightarrow> cn_send C = None \<Longrightarrow>
     conn_step cc srv timeout C (send_lock None (h, None) C)"
| hand_lock: "k < length (cn_hand C) \<Longrightarrow> cn_hand C ! k = (rq, st) \<Longrightarrow> handle_step timeout st st' \<Longrightarrow>
     hd_sent st' = hd_sent st @ [r] \<Longrightarrow> cn_send C = None \<Longrightarrow>
     conn_step cc srv timeout C (send_lock (Some k) (respond rq r) C)"
| half: "cn_send C = Some wr \<Longrightarrow> wr_half wr < 2 \<Longrightarrow> conn_step cc srv timeout C (send_half wr C)"
| reply_unlock: "cn_pc C = Replying h \<Longrightarrow> cn_send C = Some wr \<Longrightarrow> wr_half wr = 2 \<Longrightarrow> wr_by wr = None \<Longrightarrow>
     conn_step cc srv timeout C ((send_unlock wr C)\<lparr>cn_pc := Reading\<rparr>)"
| hand_unlock: "cn_send C = Some wr \<Longrightarrow> wr_half wr = 2 \<Longrightarrow> wr_by wr = Some k \<Longrightarrow> k < length (cn_hand C) \<Longrightarrow>
     cn_hand C ! k = (rq, st) \<Longrightarrow> handle_step timeout st st' \<Longrightarrow> hd_sent st' = hd_sent st @ [r] \<Longrightarrow>
     conn_step cc srv timeout C (hand_moves k st' (send_unlock wr C))"
| hand_quiet: "k < length (cn_hand C) \<Longrightarrow> cn_hand C ! k = (rq, st) \<Longrightarrow> handle_step timeout st st' \<Longrightarrow>
     hd_sent st' = hd_sent st \<Longrightarrow> conn_step cc srv timeout C (hand_moves k st' C)"
| awaited: "cn_pc C = Awaiting \<Longrightarrow> cn_wait C = 0 \<Longrightarrow> conn_step cc srv timeout C (C\<lparr>cn_pc := Conn_closed\<rparr>)"
| breaks: "cn_up C \<Longrightarrow> conn_step cc srv timeout C (C\<lparr>cn_up := False\<rparr>)"

abbreviation conn_steps ::
  "('m, 'v) codec_fns \<Rightarrow> ('v, 'w) server \<Rightarrow> int \<Rightarrow> ('m, 'v) conn \<Rightarrow> ('m, 'v) conn \<Rightarrow> bool" where
  "conn_steps cc srv timeout \<equiv> (conn_step cc srv timeout)\<^sup>*\<^sup>*"

section \<open>One handler among others\<close>

lemma newArgv_comes_back: "newArgv m \<noteq> Hang" "newReplyv m \<noteq> Hang"
  by (auto simp: newArgv_def newReplyv_def type_Elem_def split: go_type.split kind.split)

lemma readRequest_rest:
  assumes "readRequest cc srv ms = (r, ms')"
  shows "length ms' \<le> length ms \<and> r \<noteq> Hang"
proof -
  obtain x ms1 where h: "readRequestHeader cc ms = (x, ms1)" by fastforce
  then have le: "length ms1 \<le> length ms" by (cases ms) auto
  show ?thesis
  proof (cases x)
    case (Inl e)
    with assms h le show ?thesis by (auto simp: readRequest_def)
  next
    case (Inr hd)
    show ?thesis
    proof (cases "findService (h_ServiceMethod hd) srv")
      case (Inl e)
      with assms h le Inr show ?thesis by (auto simp: readRequest_def)
    next
      case f: (Inr f)
      obtain sn mn mt where "f = (sn, mn, mt)" by (cases f) auto
      note eq = assms h Inr f this
      show ?thesis
      proof (cases "newArgv mt")
        case (Ret a)
        show ?thesis
        proof (cases "newReplyv mt")
          case reply: (Ret b)
          obtain y ms2 where b: "ReadBody cc a ms1 = (y, ms2)" by fastforce
          from ReadBody_shorter [OF b] eq le Ret reply b show ?thesis
            by (auto simp: readRequest_def split: sum.splits)
        qed (use eq le Ret newArgv_comes_back(2) [of mt] in \<open>auto simp: readRequest_def\<close>)
      qed (use eq le newArgv_comes_back(1) [of mt] in \<open>auto simp: readRequest_def\<close>)
    qed
  qed
qed

text \<open>The response that a handler, or the goroutine it started, is about to send.\<close>

definition sending :: "int \<Rightarrow> 'v handling \<Rightarrow> string \<times> 'v option \<Rightarrow> bool" where
  "sending timeout st r \<longleftrightarrow> (\<exists>q. hd_call st = C_Sending q \<and> r = result_response q) \<or>
     hd_main st = M_Timed_out \<and> r = (handle_timeout timeout, None)"

lemma sends_sending:
  "handle_step timeout st st' \<Longrightarrow> hd_sent st' = hd_sent st @ [r] \<Longrightarrow> sending timeout st r"
  by (erule handle_step.cases) (auto simp: sending_def)

lemma sending_sends:
  "sending timeout st r \<Longrightarrow> \<exists>st'. handle_step timeout st st' \<and> hd_sent st' = hd_sent st @ [r]"
  unfolding sending_def by (elim disjE exE conjE) (force intro: handle_step.send handle_step.send_timeout)+

lemma sending_unique:
  "handle_inv timeout st \<Longrightarrow> sending timeout st r \<Longrightarrow> sending timeout st r' \<Longrightarrow> r' = r"
  by (auto simp: sending_def handle_inv_def split: handler_pc.splits)

lemma sending_quiet:
  assumes "handle_inv timeout st" and "handle_step timeout st st'" and "hd_sent st' = hd_sent st"
    and "sending timeout st r"
  shows "sending timeout st' r"
  using assms(2) by cases (use assms in \<open>auto simp: sending_def handle_inv_def\<close>)

lemma sending_not_done: "handle_inv timeout st \<Longrightarrow> sending timeout st r \<Longrightarrow> hd_main st \<noteq> M_Done"
  by (auto simp: sending_def handle_inv_def)

lemma handle_sends_or_quiet:
  "handle_step timeout st st' \<Longrightarrow> hd_sent st' = hd_sent st \<or> (\<exists>r. hd_sent st' = hd_sent st @ [r])"
  by (erule handle_step.cases) auto

lemma done_stays: "handle_step timeout st st' \<Longrightarrow> hd_main st = M_Done \<Longrightarrow> hd_main st' = M_Done"
  by (erule handle_step.cases) auto

section \<open>Invariant\<close>

text \<open>The error responses and the requests among what the loop read.\<close>

fun errors_of :: "'v action list \<Rightarrow> (header \<times> 'v option) list" where
  "errors_of [] = []"
| "errors_of (Reply_error h # as) = (h, None) # errors_of as"
| "errors_of (Handle rq # as) = errors_of as"

fun handles_of :: "'v action list \<Rightarrow> 'v request list" where
  "handles_of [] = []"
| "handles_of (Reply_error h # as) = handles_of as"
| "handles_of (Handle rq # as) = rq # handles_of as"

lemma errors_of_append: "errors_of (xs @ ys) = errors_of xs @ errors_of ys"
  by (induction xs rule: errors_of.induct) simp_all

lemma handles_of_append: "handles_of (xs @ ys) = handles_of xs @ handles_of ys"
  by (induction xs rule: handles_of.induct) simp_all

definition items :: "header \<times> 'v option \<Rightarrow> 'v item list" where
  "items r = [Item_header (fst r), Item_body (snd r)]"

definition cn_partial :: "('m, 'v) conn \<Rightarrow> 'v item list" where
  "cn_partial C = (case cn_send C of None \<Rightarrow> [] | Some wr \<Rightarrow> take (wr_half wr) (items (wr_resp wr)))"

definition hand_busy :: "'v request \<times> 'v handling \<Rightarrow> bool" where
  "hand_busy = (\<lambda>(rq, st). hd_main st \<noteq> M_Done)"

definition hand_sent :: "'v request \<times> 'v handling \<Rightarrow> (header \<times> 'v option) list" where
  "hand_sent = (\<lambda>(rq, st). map (respond rq) (hd_sent st))"

definition hands_ok :: "int \<Rightarrow> ('m, 'v) conn \<Rightarrow> bool" where
  "hands_ok timeout C \<longleftrightarrow> (\<forall>(rq, st) \<in> set (cn_hand C). handle_inv timeout st) \<and>
     cn_wait C = length (filter hand_busy (cn_hand C)) \<and> map fst (cn_hand C) = handles_of (cn_acts C)"

text \<open>The mutex: who is writing a response has that response to send.\<close>

definition owes :: "int \<Rightarrow> ('m, 'v) conn \<Rightarrow> nat option \<Rightarrow> header \<times> 'v option \<Rightarrow> bool" where
  "owes timeout C by resp \<longleftrightarrow> (case by of
     None \<Rightarrow> \<exists>h. cn_pc C = Replying h \<and> resp = (h, None)
   | Some k \<Rightarrow> k < length (cn_hand C) \<and>
       (\<exists>r. sending timeout (snd (cn_hand C ! k)) r \<and> resp = respond (fst (cn_hand C ! k)) r))"

definition writer_ok :: "int \<Rightarrow> ('m, 'v) conn \<Rightarrow> bool" where
  "writer_ok timeout C \<longleftrightarrow>
     (\<forall>wr. cn_send C = Some wr \<longrightarrow> wr_half wr \<le> 2 \<and> owes timeout C (wr_by wr) (wr_resp wr))"

lemma owes_simps [simp]:
  "owes timeout C None resp \<longleftrightarrow> (\<exists>h. cn_pc C = Replying h \<and> resp = (h, None))"
  by (simp add: owes_def)

lemma owes_Some:
  assumes "owes timeout C (Some k) resp"
  obtains r where "k < length (cn_hand C)" "sending timeout (snd (cn_hand C ! k)) r"
    "resp = respond (fst (cn_hand C ! k)) r"
  using assms by (fastforce simp: owes_def)

lemma owes_SomeI:
  "k < length (cn_hand C) \<Longrightarrow> sending timeout (snd (cn_hand C ! k)) r \<Longrightarrow>
   owes timeout C (Some k) (respond (fst (cn_hand C ! k)) r)"
  by (auto simp: owes_def simp del: split_paired_Ex)

lemma owes_upd [simp]:
  "owes timeout (C\<lparr>cn_send := x\<rparr>) = owes timeout C" "owes timeout (C\<lparr>cn_out := out\<rparr>) = owes timeout C"
  "owes timeout (C\<lparr>cn_up := u\<rparr>) = owes timeout C"
  by (simp_all add: owes_def fun_eq_iff split: option.split)

lemma owes_pc:
  "owes timeout C ow r \<Longrightarrow> (\<And>h. cn_pc C \<noteq> Replying h) \<Longrightarrow> owes timeout (C\<lparr>cn_pc := p\<rparr>) ow r"
  by (cases ow) (auto simp: owes_def)

text \<open>Every response written so far belongs to what was read, and the other way round.\<close>

definition conn_answered :: "('m, 'v) conn \<Rightarrow> bool" where
  "conn_answered C \<longleftrightarrow> mset (cn_written C) + (case cn_pc C of Replying h \<Rightarrow> {#(h, None)#} | _ \<Rightarrow> {#}) =
     mset (errors_of (cn_acts C)) + mset (concat (map hand_sent (cn_hand C)))"

definition cn_all :: "('m, 'v) conn \<Rightarrow> 'v item list" where
  "cn_all C = concat (map items (rev (cn_written C))) @ cn_partial C"

definition whole_out :: "('m, 'v) conn \<Rightarrow> bool" where
  "whole_out C \<longleftrightarrow> prefix (cn_out C) (cn_all C) \<and> (cn_up C \<longrightarrow> cn_out C = cn_all C)"

definition loop_ok ::
  "('m, 'v) codec_fns \<Rightarrow> ('v, 'w) server \<Rightarrow> 'm list \<Rightarrow> ('m, 'v) conn \<Rightarrow> bool" where
  "loop_ok cc srv ms C \<longleftrightarrow>
     (case cn_pc C of
        Crashed m \<Rightarrow> serve_loop cc srv ms = (cn_acts C, Some m)
      | Awaiting \<Rightarrow> serve_loop cc srv ms = (cn_acts C, None)
      | Conn_closed \<Rightarrow> serve_loop cc srv ms = (cn_acts C, None) \<and> cn_wait C = 0
      | _ \<Rightarrow> serve_loop cc srv ms =
          (cn_acts C @ fst (serve_loop cc srv (cn_in C)), snd (serve_loop cc srv (cn_in C))))"

definition conn_inv ::
  "('m, 'v) codec_fns \<Rightarrow> ('v, 'w) server \<Rightarrow> int \<Rightarrow> 'm list \<Rightarrow> ('m, 'v) conn \<Rightarrow> bool" where
  "conn_inv cc srv timeout ms C \<longleftrightarrow>
     hands_ok timeout C \<and> writer_ok timeout C \<and> conn_answered C \<and> whole_out C \<and> loop_ok cc srv ms C"

subsection \<open>The parts are kept\<close>

lemma filter_update:
  "k < length xs \<Longrightarrow> length (filter P (xs[k := y])) + of_bool (P (xs ! k)) = length (filter P xs) + of_bool (P y)"
  by (subst (2) id_take_nth_drop [of k xs]) (simp_all add: upd_conv_take_nth_drop)

lemma concat_update:
  assumes "k < length xs"
  shows "mset (concat (map f (xs[k := y]))) + mset (f (xs ! k)) = mset (concat (map f xs)) + mset (f y)"
proof -
  have "mset (concat (map f xs)) =
      mset (concat (map f (take k xs))) + mset (f (xs ! k)) + mset (concat (map f (drop (Suc k) xs)))"
    by (subst id_take_nth_drop [OF assms]) simp
  then show ?thesis using assms by (simp add: upd_conv_take_nth_drop ac_simps)
qed

lemma concat_singles: "(\<And>x. x \<in> set xs \<Longrightarrow> f x = [g x]) \<Longrightarrow> concat (map f xs) = map g xs"
  by (induction xs) simp_all

lemma conn_start_inv: "conn_inv cc srv timeout ms (conn_start ms)"
  by (simp add: conn_inv_def hands_ok_def writer_ok_def conn_answered_def whole_out_def cn_all_def cn_partial_def
      loop_ok_def conn_start_def)

lemma serve_loop_read:
  assumes "readRequest cc srv ms = (r, ms')"
  shows "serve_loop cc srv ms = (case r of
      Ret (No_request e) \<Rightarrow> ([], None)
    | Ret (Bad_request h e) \<Rightarrow>
        (Reply_error (h\<lparr>h_Error := e\<rparr>) # fst (serve_loop cc srv ms'), snd (serve_loop cc srv ms'))
    | Ret (Good_request rq) \<Rightarrow> (Handle rq # fst (serve_loop cc srv ms'), snd (serve_loop cc srv ms'))
    | Panic m \<Rightarrow> ([], Some m)
    | Hang \<Rightarrow> ([], None))"
  by (subst serve_loop.simps) (simp add: assms Let_def case_prod_beta split: outcome.split read_result.split)

lemma read_keeps:
  assumes "conn_inv cc srv timeout ms C" and "cn_pc C = Reading"
    and "readRequest cc srv (cn_in C) = (r, ms')" and "r \<noteq> Hang"
  shows "conn_inv cc srv timeout ms (loop_read r ms' C)"
proof -
  have S: "serve_loop cc srv ms =
      (cn_acts C @ fst (serve_loop cc srv (cn_in C)), snd (serve_loop cc srv (cn_in C)))"
    using assms(1,2) by (simp add: conn_inv_def loop_ok_def)
  note L = S [unfolded serve_loop_read [OF assms(3)]]
  have I: "hands_ok timeout C" "writer_ok timeout C" "conn_answered C" "whole_out C"
    using assms(1) by (simp_all add: conn_inv_def)
  have W: "writer_ok timeout (loop_read r ms' C)"
    unfolding writer_ok_def
  proof (intro allI impI)
    fix wr assume "cn_send (loop_read r ms' C) = Some wr"
    then have "cn_send C = Some wr"
      by (simp add: loop_read_def split: outcome.splits read_result.splits)
    with I(2) have W: "wr_half wr \<le> 2" "owes timeout C (wr_by wr) (wr_resp wr)" by (simp_all add: writer_ok_def)
    with assms(2) obtain k where k: "wr_by wr = Some k" by (cases "wr_by wr") auto
    with W(2) have "owes timeout C (Some k) (wr_resp wr)" by simp
    then obtain x where x: "k < length (cn_hand C)" "sending timeout (snd (cn_hand C ! k)) x"
      "wr_resp wr = respond (fst (cn_hand C ! k)) x" by (rule owes_Some)
    have "k < length (cn_hand (loop_read r ms' C))" "cn_hand (loop_read r ms' C) ! k = cn_hand C ! k"
      using x(1) by (simp_all add: loop_read_def nth_append split: outcome.split read_result.split)
    with owes_SomeI [of k "loop_read r ms' C" timeout x] x W(1) k
    show "wr_half wr \<le> 2 \<and> owes timeout (loop_read r ms' C) (wr_by wr) (wr_resp wr)" by simp
  qed
  have H: "handle_inv timeout handle_start" by (rule handle_start_inv)
  show ?thesis
  proof (cases r)
    case (Ret x)
    then show ?thesis using I W assms(2) L H unfolding conn_inv_def
      by (cases x) (auto simp: hands_ok_def conn_answered_def whole_out_def cn_all_def cn_partial_def loop_ok_def
        loop_read_def errors_of_append handles_of_append hand_busy_def hand_sent_def handle_start_def)
  next
    case (Panic m)
    with I W assms(2) L show ?thesis unfolding conn_inv_def
      by (auto simp: hands_ok_def conn_answered_def whole_out_def cn_all_def cn_partial_def loop_ok_def loop_read_def)
  qed (use assms(4) in simp)
qed

lemma handler_inv:
  "hands_ok timeout C \<Longrightarrow> k < length (cn_hand C) \<Longrightarrow> cn_hand C ! k = (rq, st) \<Longrightarrow> handle_inv timeout st"
  unfolding hands_ok_def by (metis (mono_tags, lifting) case_prodD nth_mem)

lemma hand_moves_hands:
  assumes "hands_ok timeout C" and "k < length (cn_hand C)" and "cn_hand C ! k = (rq, st)"
    and "handle_step timeout st st'"
  shows "hands_ok timeout (hand_moves k st' C)"
proof -
  have inv: "handle_inv timeout st'" using handle_step_inv [OF assms(4) handler_inv [OF assms(1-3)]] .
  have busy: "length (filter hand_busy ((cn_hand C)[k := (rq, st')])) + of_bool (hd_main st \<noteq> M_Done) =
      cn_wait C + of_bool (hd_main st' \<noteq> M_Done)"
    using filter_update [OF assms(2), of hand_busy "(rq, st')"] assms(1,3) by (simp add: hands_ok_def hand_busy_def)
  have "map fst ((cn_hand C)[k := (rq, st')]) = map fst (cn_hand C)"
    using assms(2,3) by (simp add: map_update list_update_same_conv)
  moreover have "\<forall>(rq, st) \<in> set ((cn_hand C)[k := (rq, st')]). handle_inv timeout st"
    using assms(1) inv by (auto simp: hands_ok_def dest!: set_update_subset_insert [THEN subsetD])
  moreover have "length (filter hand_busy ((cn_hand C)[k := (rq, st')])) =
      (if hd_main st \<noteq> M_Done \<and> hd_main st' = M_Done then cn_wait C - 1 else cn_wait C)"
    using busy done_stays [OF assms(4)]
    by (cases "hd_main st = M_Done"; cases "hd_main st' = M_Done") simp_all
  ultimately show ?thesis
    using assms(1,3) by (simp add: hands_ok_def hand_moves_def)
qed

lemma hand_moves_simps [simp]:
  "cn_in (hand_moves k st' C) = cn_in C" "cn_pc (hand_moves k st' C) = cn_pc C"
  "cn_send (hand_moves k st' C) = cn_send C" "cn_out (hand_moves k st' C) = cn_out C"
  "cn_up (hand_moves k st' C) = cn_up C" "cn_acts (hand_moves k st' C) = cn_acts C"
  "cn_written (hand_moves k st' C) = cn_written C"
  "cn_hand (hand_moves k st' C) = (cn_hand C)[k := (fst (cn_hand C ! k), st')]"
  by (simp_all add: hand_moves_def case_prod_beta Let_def)

lemma hand_moves_length: "length (cn_hand (hand_moves k st' C)) = length (cn_hand C)"
  by simp

lemma hand_moves_loop:
  "loop_ok cc srv ms C \<Longrightarrow> loop_ok cc srv ms (hand_moves k st' C)"
  by (auto simp: loop_ok_def hand_moves_def case_prod_beta Let_def split: conn_pc.splits)

lemma quiet_owes:
  assumes "owes timeout C by resp" and "handle_inv timeout st" and "cn_hand C ! k = (rq, st)"
    and "handle_step timeout st st'" and "hd_sent st' = hd_sent st"
  shows "owes timeout (hand_moves k st' C) by resp"
proof (cases "by")
  case (Some j)
  with assms(1) have "owes timeout C (Some j) resp" by simp
  then obtain r where r: "j < length (cn_hand C)" "sending timeout (snd (cn_hand C ! j)) r"
    "resp = respond (fst (cn_hand C ! j)) r" by (rule owes_Some)
  have "sending timeout (snd (cn_hand (hand_moves k st' C) ! j)) r"
    "fst (cn_hand (hand_moves k st' C) ! j) = fst (cn_hand C ! j)"
    using r sending_quiet [OF assms(2,4,5), of r] assms(3) by (cases "j = k"; simp)+
  with owes_SomeI [of j "hand_moves k st' C" timeout r] r Some show ?thesis by simp
qed (use assms(1) in simp)

lemma quiet_keeps:
  assumes "conn_inv cc srv timeout ms C" and "k < length (cn_hand C)" and "cn_hand C ! k = (rq, st)"
    and "handle_step timeout st st'" and "hd_sent st' = hd_sent st"
  shows "conn_inv cc srv timeout ms (hand_moves k st' C)"
proof -
  have I: "hands_ok timeout C" "writer_ok timeout C" "conn_answered C" "whole_out C" "loop_ok cc srv ms C"
    using assms(1) by (simp_all add: conn_inv_def)
  note inv = handler_inv [OF I(1) assms(2,3)]
  have "writer_ok timeout (hand_moves k st' C)"
    using I(2) quiet_owes [OF _ inv assms(3-5)] by (simp add: writer_ok_def)
  moreover have "conn_answered (hand_moves k st' C)"
    using I(3) concat_update [OF assms(2), of hand_sent "(rq, st')"] assms(3,5)
    by (simp add: conn_answered_def hand_sent_def)
  moreover have "whole_out (hand_moves k st' C)" using I(4) by (simp add: whole_out_def cn_all_def cn_partial_def)
  ultimately show ?thesis
    using hand_moves_hands [OF I(1) assms(2-4)] hand_moves_loop [OF I(5)] by (simp add: conn_inv_def)
qed

lemma lock_keeps:
  assumes "conn_inv cc srv timeout ms C" and "cn_send C = None"
    and "owes timeout C by r"
  shows "conn_inv cc srv timeout ms (send_lock by r C)"
  using assms by (auto simp: conn_inv_def send_lock_def hands_ok_def writer_ok_def conn_answered_def whole_out_def
      cn_all_def cn_partial_def loop_ok_def dest: owes_pc split: conn_pc.splits)

lemma half_keeps:
  assumes "conn_inv cc srv timeout ms C" and "cn_send C = Some wr" and "wr_half wr < 2"
  shows "conn_inv cc srv timeout ms (send_half wr C)"
proof -
  have two: "wr_half wr = 0 \<or> wr_half wr = Suc 0" using assms(3) by auto
  have I: "hands_ok timeout C" "writer_ok timeout C" "conn_answered C" "whole_out C" "loop_ok cc srv ms C"
    using assms(1) by (simp_all add: conn_inv_def)
  have "cn_all (send_half wr C) = cn_all C @
        [if wr_half wr = 0 then Item_header (fst (wr_resp wr)) else Item_body (snd (wr_resp wr))]"
    using assms(2) two by (auto simp: cn_all_def cn_partial_def send_half_def put_item_def items_def)
  then have "whole_out (send_half wr C)"
    using I(4) by (auto simp: whole_out_def send_half_def put_item_def)
  moreover have "writer_ok timeout (send_half wr C)"
    using I(2) assms(2,3) by (auto simp: writer_ok_def send_half_def put_item_def dest: owes_pc)
  ultimately show ?thesis
    using I by (auto simp: conn_inv_def send_half_def put_item_def hands_ok_def conn_answered_def loop_ok_def
        split: conn_pc.splits)
qed

lemma unlock_out:
  assumes "whole_out C" and "cn_send C = Some wr" and "wr_half wr = 2"
  shows "whole_out (send_unlock wr C)"
  using assms by (simp add: whole_out_def send_unlock_def cn_all_def cn_partial_def items_def)

lemma reply_unlock_keeps:
  assumes "conn_inv cc srv timeout ms C" and "cn_pc C = Replying h" and "cn_send C = Some wr"
    and "wr_half wr = 2" and "wr_by wr = None"
  shows "conn_inv cc srv timeout ms ((send_unlock wr C)\<lparr>cn_pc := Reading\<rparr>)"
proof -
  have I: "hands_ok timeout C" "writer_ok timeout C" "conn_answered C" "whole_out C" "loop_ok cc srv ms C"
    using assms(1) by (simp_all add: conn_inv_def)
  have "whole_out ((send_unlock wr C)\<lparr>cn_pc := Reading\<rparr>)"
    using unlock_out [OF I(4) assms(3,4)] by (simp add: whole_out_def cn_all_def cn_partial_def)
  moreover have "wr_resp wr = (h, None)" using I(2) assms(2,3,5) by (auto simp: writer_ok_def)
  ultimately show ?thesis using I(1,3,5) assms(2)
    by (simp add: conn_inv_def send_unlock_def hands_ok_def writer_ok_def conn_answered_def loop_ok_def)
qed

lemma hand_unlock_keeps:
  assumes "conn_inv cc srv timeout ms C" and "cn_send C = Some wr" and "wr_half wr = 2" and "wr_by wr = Some k"
    and "k < length (cn_hand C)" and "cn_hand C ! k = (rq, st)"
    and "handle_step timeout st st'" and "hd_sent st' = hd_sent st @ [r]"
  shows "conn_inv cc srv timeout ms (hand_moves k st' (send_unlock wr C))"
proof -
  have I: "hands_ok timeout C" "writer_ok timeout C" "conn_answered C" "whole_out C" "loop_ok cc srv ms C"
    using assms(1) by (simp_all add: conn_inv_def)
  have "owes timeout C (Some k) (wr_resp wr)" using I(2) assms(2,4) by (auto simp: writer_ok_def)
  then obtain r' where r': "sending timeout st r'" "wr_resp wr = respond rq r'"
    by (rule owes_Some) (simp add: assms(6))
  have "r' = r"
    by (rule sending_unique [OF handler_inv [OF I(1) assms(5,6)] sends_sending [OF assms(7,8)] r'(1)])
  with r'(2) concat_update [OF assms(5), of hand_sent "(rq, st')"] I(3) assms(6,8)
  have "conn_answered (hand_moves k st' (send_unlock wr C))"
    by (simp add: conn_answered_def send_unlock_def hand_sent_def)
  moreover have "hands_ok timeout (hand_moves k st' (send_unlock wr C))"
    by (rule hand_moves_hands [OF _ _ _ assms(7)]) (use I(1) assms(5,6) in \<open>auto simp: hands_ok_def send_unlock_def\<close>)
  moreover have "loop_ok cc srv ms (hand_moves k st' (send_unlock wr C))"
    by (rule hand_moves_loop) (use I(5) in \<open>auto simp: loop_ok_def send_unlock_def split: conn_pc.splits\<close>)
  moreover have "whole_out (hand_moves k st' (send_unlock wr C))"
    using unlock_out [OF I(4) assms(2,3)] by (simp add: whole_out_def cn_all_def cn_partial_def)
  ultimately show ?thesis by (simp add: conn_inv_def writer_ok_def send_unlock_def)
qed

lemma conn_step_inv:
  assumes "conn_step cc srv timeout C C'" and "conn_inv cc srv timeout ms C"
  shows "conn_inv cc srv timeout ms C'"
  using assms(1)
proof cases
  case (read r ms')
  with read_keeps [OF assms(2)] show ?thesis by blast
next
  case (reply_lock h)
  with lock_keeps [OF assms(2), of None "(h, None)"] show ?thesis by simp
next
  case (hand_lock k rq st st' r)
  with owes_SomeI [of k C timeout r] sends_sending [of timeout st st' r]
  have "owes timeout C (Some k) (respond rq r)" by simp
  with lock_keeps [OF assms(2)] hand_lock show ?thesis by blast
next
  case (half wr)
  with half_keeps [OF assms(2)] show ?thesis by blast
next
  case (reply_unlock h wr)
  with reply_unlock_keeps [OF assms(2)] show ?thesis by blast
next
  case (hand_unlock wr k rq st st' r)
  with hand_unlock_keeps [OF assms(2)] show ?thesis by blast
next
  case (hand_quiet k rq st st')
  with quiet_keeps [OF assms(2)] show ?thesis by blast
qed (use assms(2) in \<open>auto simp: conn_inv_def hands_ok_def writer_ok_def conn_answered_def whole_out_def cn_all_def
    cn_partial_def loop_ok_def intro: owes_pc split: conn_pc.splits\<close>)

interpretation conn: machine "\<lambda>C. C = conn_start ms" "conn_step cc srv timeout" "conn_inv cc srv timeout ms"
  for cc srv timeout ms
  by unfold_locales (simp add: conn_start_inv, rule conn_step_inv)

section \<open>Progress\<close>

fun loop_weight :: "conn_pc \<Rightarrow> nat" where
  "loop_weight Reading = 2"
| "loop_weight (Replying h) = 6"
| "loop_weight Awaiting = 1"
| "loop_weight Conn_closed = 0"
| "loop_weight (Crashed m) = 0"

definition send_weight :: "'v writer option \<Rightarrow> nat" where
  "send_weight s = (case s of None \<Rightarrow> 3 | Some wr \<Rightarrow> 2 - wr_half wr)"

definition conn_left :: "('m, 'v) conn \<Rightarrow> nat" where
  "conn_left C = 40 * length (cn_in C) + loop_weight (cn_pc C) + send_weight (cn_send C) +
     4 * sum_list (map (handle_left \<circ> snd) (cn_hand C)) + of_bool (cn_up C)"

definition conn_over :: "('m, 'v) conn \<Rightarrow> bool" where
  "conn_over C \<longleftrightarrow> (case cn_pc C of Conn_closed \<Rightarrow> True | Crashed m \<Rightarrow> True | _ \<Rightarrow> False)"

lemma sum_update:
  fixes f :: "'a \<Rightarrow> nat"
  assumes "k < length xs"
  shows "sum_list (map f (xs[k := y])) + f (xs ! k) = sum_list (map f xs) + f y"
  by (subst (2) id_take_nth_drop [OF assms]) (use assms in \<open>simp add: upd_conv_take_nth_drop\<close>)

lemma hand_moves_left:
  assumes "k < length (cn_hand C)" and "cn_hand C ! k = (rq, st)" and "handle_step timeout st st'"
  shows "sum_list (map (handle_left \<circ> snd) (cn_hand (hand_moves k st' C))) <
    sum_list (map (handle_left \<circ> snd) (cn_hand C))"
  using sum_update [OF assms(1), of "handle_left \<circ> snd" "(rq, st')"] assms(2) handle_decrease [OF assms(3)]
  by (simp add: comp_def)

lemma conn_step_left:
  assumes "conn_step cc srv timeout C C'"
  shows "conn_left C' < conn_left C"
  using assms
proof cases
  case (read r ms)
  have len: "length ms \<le> length (cn_in C)" using readRequest_rest [OF read(3)] by blast
  have less: "length ms < length (cn_in C)" if "r = Ret x" "\<And>e. x \<noteq> No_request e" for x
    using readRequest_shorter [of cc srv "cn_in C" x ms] read(3) that by simp
  show ?thesis
  proof (cases r)
    case (Ret x)
    then show ?thesis using less read(1,2) len
      by (cases x) (auto simp: conn_left_def loop_read_def handle_start_def handle_left_def)
  qed (use read len in \<open>auto simp: conn_left_def loop_read_def\<close>)
next
  case (hand_unlock wr k rq st st' r)
  with hand_moves_left [of k C rq st timeout st'] show ?thesis
    by (simp add: conn_left_def send_weight_def send_unlock_def)
next
  case (hand_quiet k rq st st')
  with hand_moves_left [of k C rq st timeout st'] show ?thesis by (simp add: conn_left_def)
qed (auto simp: conn_left_def send_weight_def send_lock_def send_half_def put_item_def send_unlock_def)

lemma writer_moves:
  assumes "conn_inv cc srv timeout ms C" and "cn_send C = Some wr"
  shows "\<exists>C'. conn_step cc srv timeout C C'"
proof (cases "wr_half wr < 2")
  case True
  from conn_step.half [OF assms(2) this] show ?thesis by blast
next
  case False
  have ok: "writer_ok timeout C" using assms(1) by (simp add: conn_inv_def)
  with False assms(2) have two: "wr_half wr = 2" by (auto simp: writer_ok_def)
  show ?thesis
  proof (cases "wr_by wr")
    case None
    with ok assms(2) obtain h where "cn_pc C = Replying h" by (auto simp: writer_ok_def)
    from conn_step.reply_unlock [OF this assms(2) two None] show ?thesis by blast
  next
    case (Some k)
    obtain rq st where k: "cn_hand C ! k = (rq, st)" by fastforce
    have "owes timeout C (Some k) (wr_resp wr)" using ok assms(2) Some by (auto simp: writer_ok_def)
    then obtain r where "k < length (cn_hand C)" "sending timeout st r" by (rule owes_Some) (simp add: k)
    with sending_sends conn_step.hand_unlock [OF assms(2) two Some _ k] show ?thesis by blast
  qed
qed

lemma conn_progress:
  assumes "conn_inv cc srv timeout ms C" and "\<not> conn_over C"
  shows "\<exists>C'. conn_step cc srv timeout C C'"
proof (cases "cn_send C")
  case (Some wr)
  with writer_moves [OF assms(1)] show ?thesis by blast
next
  case None
  show ?thesis
  proof (cases "cn_pc C")
    case Reading
    obtain r ms' where r: "readRequest cc srv (cn_in C) = (r, ms')" by fastforce
    with readRequest_rest conn_step.read [OF Reading r] show ?thesis by blast
  next
    case (Replying h)
    from conn_step.reply_lock [OF this None] show ?thesis by blast
  next
    case Awaiting
    show ?thesis
    proof (cases "cn_wait C")
      case 0
      from conn_step.awaited [OF Awaiting this] show ?thesis by blast
    next
      case (Suc n)
      have ok: "hands_ok timeout C" using assms(1) by (simp add: conn_inv_def)
      with Suc have "filter hand_busy (cn_hand C) \<noteq> []" by (auto simp: hands_ok_def)
      then obtain x where "x \<in> set (cn_hand C)" "hand_busy x" by (auto simp: filter_empty_conv)
      then obtain k where "k < length (cn_hand C)" "cn_hand C ! k = x" by (auto simp: in_set_conv_nth)
      moreover obtain rq st where "x = (rq, st)" by fastforce
      ultimately have k: "k < length (cn_hand C)" "cn_hand C ! k = (rq, st)" "hd_main st \<noteq> M_Done"
        using \<open>hand_busy x\<close> by (simp_all add: hand_busy_def)
      obtain st' where st': "handle_step timeout st st'"
        using handle_progress [OF handler_inv [OF ok k(1,2)] k(3)] by blast
      from handle_sends_or_quiet [OF this] show ?thesis
        using conn_step.hand_quiet [OF k(1,2) st'] conn_step.hand_lock [OF k(1,2) st' _ None] by blast
    qed
  qed (use assms(2) in \<open>simp_all add: conn_over_def\<close>)
qed

interpretation conn_ends: ending_machine "\<lambda>C. C = conn_start ms" "conn_step cc srv timeout"
  "conn_inv cc srv timeout ms" conn_over conn_left for cc srv timeout ms
  by unfold_locales (rule conn_progress, assumption+, rule conn_step_left)

section \<open>Properties\<close>

text \<open>A connection with one request, whose method returns in time.\<close>

definition conn_rq :: "(int \<times> int) request" where
  "conn_rq = \<lparr>rq_h = demo_header ''Foo.Sum'' 1, rq_argv = (3, 4), rq_replyv = (0, 0), rq_service = ''Foo'', rq_method = ''Sum''\<rparr>"

definition demo_msgs :: "(header + int \<times> int) list" where
  "demo_msgs = [Inl (demo_header ''Foo.Sum'' 1), Inr (3, 4)]"

definition conn_demo ::
  "(header + int \<times> int) list \<Rightarrow> conn_pc \<Rightarrow> nat \<Rightarrow> (int \<times> int) handling list \<Rightarrow> (int \<times> int) writer option \<Rightarrow>
   nat \<Rightarrow> (header + int \<times> int, int \<times> int) conn" where
  "conn_demo ms pc n hs wr k = \<lparr>cn_in = ms, cn_pc = pc, cn_wait = n, cn_hand = map (Pair conn_rq) hs, cn_send = wr,
     cn_out = take k (items (respond conn_rq ('''', Some (7, 0)))), cn_up = True,
     cn_acts = replicate (length hs) (Handle conn_rq),
     cn_written = (if k = 2 \<and> wr = None then [respond conn_rq ('''', Some (7, 0))] else [])\<rparr>"

definition demo_hand :: "handler_pc \<Rightarrow> (int \<times> int) caller_pc \<Rightarrow> bool \<Rightarrow> (int \<times> int) handling" where
  "demo_hand m c b = \<lparr>hd_main = m, hd_call = c, hd_sent = (if b then [('''', Some (7, 0))] else [])\<rparr>"

definition demo_writer :: "nat \<Rightarrow> (int \<times> int) writer" where
  "demo_writer k = \<lparr>wr_by = Some 0, wr_resp = respond conn_rq ('''', Some (7, 0)), wr_half = k\<rparr>"

abbreviation conn_demo_step ::
  "(header + int \<times> int, int \<times> int) conn \<Rightarrow> (header + int \<times> int, int \<times> int) conn \<Rightarrow> bool" where
  "conn_demo_step \<equiv> conn_step demo_codec demo_server 0"

lemma conn_demo_read:
  "readRequest demo_codec demo_server demo_msgs = (Ret (Good_request conn_rq), [])"
  "readRequest demo_codec demo_server [] = (Ret (No_request ''EOF''), [])"
  by (simp_all add: readRequest_def demo_codec_def demo_msgs_def)
    (simp add: demo_header_def demo_find newArgv_def newReplyv_def type_Kind_def type_Elem_def conn_rq_def)

lemma demo_quiet:
  assumes "handle_step 0 (demo_hand m c b) (demo_hand m' c' b)" and "m \<noteq> M_Done"
  shows "conn_demo_step (conn_demo ms pc 1 [demo_hand m c b] wr k)
    (conn_demo ms pc (if m' = M_Done then 0 else 1) [demo_hand m' c' b] wr k)"
proof -
  have "conn_demo_step (conn_demo ms pc 1 [demo_hand m c b] wr k)
      (hand_moves 0 (demo_hand m' c' b) (conn_demo ms pc 1 [demo_hand m c b] wr k))"
    by (rule conn_step.hand_quiet [OF _ _ assms(1)]) (simp_all add: conn_demo_def demo_hand_def)
  with assms(2) show ?thesis
    by (cases "m' = M_Done") (simp_all add: hand_moves_def conn_demo_def demo_hand_def)
qed

lemma demo_closes:
  "conn_demo_step\<^sup>*\<^sup>* (conn_start demo_msgs) (conn_demo [] Conn_closed 0 [demo_hand M_Done C_Done True] None 2)"
proof -
  let ?q = "(None, (7, 0)) :: string option \<times> int \<times> int"
  let ?h = "\<lambda>m c. [demo_hand m c False]"
  have s1: "conn_demo_step (conn_start demo_msgs) (conn_demo [] Reading 1 (?h M_Select C_Calling) None 0)"
    using conn_step.read [of "conn_start demo_msgs", OF _ _, of demo_codec demo_server "Ret (Good_request conn_rq)" "[]"]
    by (simp add: conn_start_def conn_demo_read loop_read_def conn_demo_def demo_hand_def handle_start_def)
  have s2: "conn_demo_step (conn_demo [] Reading 1 (?h M_Select C_Calling) None 0)
      (conn_demo [] Reading 1 (?h M_Select (C_Called ?q)) None 0)"
    using demo_quiet [of M_Select C_Calling False M_Select "C_Called ?q"] handle_step.returns [of "demo_hand M_Select C_Calling False" 0 ?q]
    by (simp add: demo_hand_def)
  have s3: "conn_demo_step (conn_demo [] Reading 1 (?h M_Select (C_Called ?q)) None 0)
      (conn_demo [] Reading 1 (?h M_Got_called (C_Sending ?q)) None 0)"
    using demo_quiet [of M_Select "C_Called ?q" False M_Got_called "C_Sending ?q"]
      handle_step.called [of "demo_hand M_Select (C_Called ?q) False" ?q 0] by (simp add: demo_hand_def)
  have send: "handle_step 0 (demo_hand M_Got_called (C_Sending ?q) False) (demo_hand M_Got_called C_Sent True)"
    using handle_step.send [of "demo_hand M_Got_called (C_Sending ?q) False" ?q 0]
    by (simp add: demo_hand_def result_response_def)
  have s4: "conn_demo_step (conn_demo [] Reading 1 (?h M_Got_called (C_Sending ?q)) None 0)
      (conn_demo [] Reading 1 (?h M_Got_called (C_Sending ?q)) (Some (demo_writer 0)) 0)"
    using conn_step.hand_lock [where cc = demo_codec and srv = demo_server and k = 0
        and C = "conn_demo [] Reading 1 (?h M_Got_called (C_Sending ?q)) None 0" and rq = conn_rq
        and r = "('''', Some (7, 0))", OF _ _ send]
    by (simp add: conn_demo_def demo_hand_def send_lock_def demo_writer_def)
  have half: "conn_demo_step (conn_demo [] Reading 1 (?h M_Got_called (C_Sending ?q)) (Some (demo_writer k)) k)
      (conn_demo [] Reading 1 (?h M_Got_called (C_Sending ?q)) (Some (demo_writer (Suc k))) (Suc k))" if "k < 2" for k
    using conn_step.half [of "conn_demo [] Reading 1 (?h M_Got_called (C_Sending ?q)) (Some (demo_writer k)) k" "demo_writer k"] that
    by (auto simp: conn_demo_def demo_writer_def send_half_def put_item_def items_def less_Suc_eq numeral_2_eq_2)
  have s7: "conn_demo_step (conn_demo [] Reading 1 (?h M_Got_called (C_Sending ?q)) (Some (demo_writer 2)) 2)
      (conn_demo [] Reading 1 [demo_hand M_Got_called C_Sent True] None 2)"
    using conn_step.hand_unlock [where cc = demo_codec and srv = demo_server and k = 0
        and C = "conn_demo [] Reading 1 (?h M_Got_called (C_Sending ?q)) (Some (demo_writer 2)) 2"
        and wr = "demo_writer 2" and rq = conn_rq and r = "('''', Some (7, 0))", OF _ _ _ _ _ send]
    by (simp add: conn_demo_def demo_hand_def demo_writer_def hand_moves_def send_unlock_def)
  have s8: "conn_demo_step (conn_demo [] Reading 1 [demo_hand M_Got_called C_Sent True] None 2)
      (conn_demo [] Reading 0 [demo_hand M_Done C_Done True] None 2)"
    using demo_quiet [of M_Got_called C_Sent True M_Done C_Done]
      handle_step.sent [of "demo_hand M_Got_called C_Sent True" 0] by (simp add: demo_hand_def)
  have s9: "conn_demo_step (conn_demo [] Reading 0 [demo_hand M_Done C_Done True] None 2)
      (conn_demo [] Awaiting 0 [demo_hand M_Done C_Done True] None 2)"
    using conn_step.read [of "conn_demo [] Reading 0 [demo_hand M_Done C_Done True] None 2", OF _ _,
        of demo_codec demo_server "Ret (No_request ''EOF'')" "[]"]
    by (simp add: conn_demo_def conn_demo_read loop_read_def)
  have s10: "conn_demo_step (conn_demo [] Awaiting 0 [demo_hand M_Done C_Done True] None 2)
      (conn_demo [] Conn_closed 0 [demo_hand M_Done C_Done True] None 2)"
    using conn_step.awaited [of "conn_demo [] Awaiting 0 [demo_hand M_Done C_Done True] None 2"]
    by (simp add: conn_demo_def)
  have s5: "conn_demo_step (conn_demo [] Reading 1 (?h M_Got_called (C_Sending ?q)) (Some (demo_writer 0)) 0)
      (conn_demo [] Reading 1 (?h M_Got_called (C_Sending ?q)) (Some (demo_writer 1)) 1)"
    and s6: "conn_demo_step (conn_demo [] Reading 1 (?h M_Got_called (C_Sending ?q)) (Some (demo_writer 1)) 1)
      (conn_demo [] Reading 1 (?h M_Got_called (C_Sending ?q)) (Some (demo_writer 2)) 2)"
    using half [of 0] half [of 1] by (simp_all add: numeral_2_eq_2)
  note run = reach_step [OF reach_step [OF reach_step [OF reach_step [OF reach_step [OF r_into_rtranclp
    [of conn_demo_step, OF s1] s2] s3] s4] s5] s6]
  show ?thesis by (rule reach_step [OF reach_step [OF reach_step [OF reach_step [OF run s7] s8] s9] s10])
qed

text \<open>Once the connection is closed, nobody is writing and every handler has returned.\<close>

lemma closed_hands:
  assumes "conn_inv cc srv timeout ms C" and "cn_pc C = Conn_closed"
  shows "(\<forall>(rq, st) \<in> set (cn_hand C). hd_main st = M_Done) \<and> cn_send C = None"
proof -
  have ok: "hands_ok timeout C" "writer_ok timeout C" and "cn_wait C = 0"
    using assms by (simp_all add: conn_inv_def loop_ok_def)
  then have "filter hand_busy (cn_hand C) = []" by (simp add: hands_ok_def)
  then have fin: "hd_main st = M_Done" if "(rq, st) \<in> set (cn_hand C)" for rq st
    using that by (auto simp: filter_empty_conv hand_busy_def)
  have "cn_send C \<noteq> Some wr" for wr
  proof
    assume wr: "cn_send C = Some wr"
    then have "owes timeout C (wr_by wr) (wr_resp wr)" using ok(2) by (simp add: writer_ok_def)
    then obtain k where "owes timeout C (Some k) (wr_resp wr)"
      using assms(2) by (cases "wr_by wr") auto
    then obtain r where k: "k < length (cn_hand C)" "sending timeout (snd (cn_hand C ! k)) r"
      by (rule owes_Some)
    obtain rq st where st: "cn_hand C ! k = (rq, st)" by fastforce
    with k fin [of rq st] sending_not_done [OF handler_inv [OF ok(1) k(1) st], of r] show False
      by (auto dest: nth_mem)
  qed
  with fin show ?thesis by (cases "cn_send C") auto
qed

lemma closed_step:
  assumes "conn_step cc srv timeout C C'" and "conn_inv cc srv timeout ms C" and "cn_pc C = Conn_closed"
  shows "cn_pc C' = Conn_closed \<and> cn_out C' = cn_out C"
proof -
  note closed = closed_hands [OF assms(2,3)]
  have ok: "hands_ok timeout C" using assms(2) by (simp add: conn_inv_def)
  from assms(1) show ?thesis
  proof cases
    case (hand_lock k rq st st' r)
    with closed nth_mem [of k "cn_hand C"] sending_not_done [OF handler_inv [OF ok], of k rq st r]
      sends_sending [of timeout st st' r] show ?thesis by auto
  qed (use assms(3) closed in simp_all)
qed





text \<open>
  C24: And it always comes to that, provided the methods return: a connection that is neither
  closed nor has brought the server down can move, no run is longer than the messages to read
  allow, and some run reaches the end.
\<close>

theorem serverCodec_ends:
  assumes "conn_steps cc srv timeout (conn_start ms) C"
  shows "(\<not> conn_over C \<longrightarrow> (\<exists>C'. conn_step cc srv timeout C C')) \<and>
    (\<exists>C'. conn_steps cc srv timeout C C' \<and> conn_over C') \<and>
    (\<forall>n C'. (conn_step cc srv timeout ^^ n) (conn_start ms) C' \<longrightarrow> n \<le> 40 * length ms + 6)"
proof (intro conjI allI impI)
  have inv: "conn_inv cc srv timeout ms C" by (rule conn.inv_reached [OF assms refl])
  show "\<exists>C'. conn_step cc srv timeout C C'" if "\<not> conn_over C" by (rule conn_progress [OF inv that])
  show "\<exists>C'. conn_steps cc srv timeout C C' \<and> conn_over C'" by (rule conn_ends.can_end [OF inv])
  fix n and C' :: "('a, 'b) conn"
  assume "(conn_step cc srv timeout ^^ n) (conn_start ms) C'"
  from conn_ends.run_bound [OF this conn_start_inv] show "n \<le> 40 * length ms + 6"
    by (simp add: conn_left_def conn_start_def send_weight_def)
qed

theorem serverCodec_ends_witness:
  "\<exists>C. conn_demo_step\<^sup>*\<^sup>* (conn_start demo_msgs) C \<and> conn_over C"
  using serverCodec_ends [OF rtranclp.rtrancl_refl [of conn_demo_step "conn_start demo_msgs"]] by blast

end
