(* ===== verification/Rpc_Debug.thy ===== *)
theory Rpc_Debug
  imports Rpc_Server "HOL-Library.List_Lexorder" "HOL-Library.Char_ord"
begin

text \<open>
  MyRPC/debug.go: the page that shows the services of a server, their methods and how often
  each was called. What the template engine does is written out: it copies the text of the
  template, visits the keys of a map in their order and escapes what it puts in.
\<close>

section \<open>What the template engine does\<close>

definition html_char :: "char \<Rightarrow> string" where
  "html_char c =
     (if c = CHR 0x00 then [CHR 0xEF, CHR 0xBF, CHR 0xBD]
      else if c = CHR 0x22 then ''&#34;''
      else if c = CHR ''&'' then ''&amp;''
      else if c = CHR 0x27 then ''&#39;''
      else if c = CHR ''+'' then ''&#43;''
      else if c = CHR ''<'' then ''&lt;''
      else if c = CHR ''>'' then ''&gt;''
      else [c])"

definition html_escape :: "string \<Rightarrow> string" where
  "html_escape s = concat (map html_char s)"

text \<open>The text of a type, \<open>String\<close> of \<open>reflect.Type\<close>; a package is named by the last part of its path.\<close>

fun commas :: "string list \<Rightarrow> string" where
  "commas [] = ''''"
| "commas [s] = s"
| "commas (s # ss) = s @ '', '' @ commas ss"

fun semicolons :: "string list \<Rightarrow> string" where
  "semicolons [] = ''''"
| "semicolons [s] = s"
| "semicolons (s # ss) = s @ ''; '' @ semicolons ss"

fun type_String :: "go_type \<Rightarrow> string" where
  "type_String (Basic nm) = nm"
| "type_String (Defined nm pkg t) = last (strings_Split (CHR ''/'') pkg) @ ''.'' @ nm"
| "type_String (PtrTo t) = ''*'' @ type_String t"
| "type_String (SliceOf t) = ''[]'' @ type_String t"
| "type_String (ArrayOf n t) = ''['' @ Itoa n @ '']'' @ type_String t"
| "type_String (MapOf k t) = ''map['' @ type_String k @ '']'' @ type_String t"
| "type_String (ChanOf t) = ''chan '' @ type_String t"
| "type_String (StructOf fs) =
     (if fs = [] then ''struct {}''
      else ''struct { '' @ semicolons (map (\<lambda>(nm, t). nm @ '' '' @ type_String t) fs) @ '' }'')"
| "type_String (FuncOf is os) = ''func('' @ commas (map type_String is) @ '')'' @
     (case os of
        [] \<Rightarrow> ''''
      | [t] \<Rightarrow> '' '' @ type_String t
      | _ \<Rightarrow> '' ('' @ commas (map type_String os) @ '')'')"

section \<open>The page\<close>

record ('v, 'w) debugService =
  ds_Name :: string
  ds_Method :: "string \<Rightarrow> ('v, 'w) methodType option"

text \<open>A line of the template: a newline, so many tabs, and a text.\<close>

definition line :: "nat \<Rightarrow> string \<Rightarrow> string" where
  "line n s = [CHR 0x0A] @ replicate n (CHR 0x09) @ s"

definition debug_row :: "string \<Rightarrow> go_type \<Rightarrow> go_type \<Rightarrow> nat \<Rightarrow> string" where
  "debug_row nm arg reply calls =
     line 3 ''<tr>'' @
     line 3 ''<td align=left font=fixed>'' @ html_escape nm @ ''('' @ html_escape (type_String arg) @ '', '' @
       html_escape (type_String reply) @ '') error</td>'' @
     line 3 ''<td align=center>'' @ Itoa calls @ ''</td>'' @
     line 3 ''</tr>'' @
     line 2 ''''"

definition debug_head :: "string \<Rightarrow> string" where
  "debug_head nm =
     line 1 ''<hr>'' @
     line 1 ''Service '' @ html_escape nm @
     line 1 ''<hr>'' @
     line 2 ''<table>'' @
     line 2 ''<th align=center>Method</th><th align=center>Calls</th>'' @
     line 2 ''''"

definition debug_rows :: "(string \<Rightarrow> ('v, 'w) methodType option) \<Rightarrow> string list \<Rightarrow> string" where
  "debug_rows M nms = concat (map (\<lambda>nm.
     let m = the (M nm) in debug_row nm (ArgType m) (ReplyType m) (unat (NumCalls m))) nms)"

definition debug_service :: "('v, 'w) debugService \<Rightarrow> string" where
  "debug_service s = debug_head (ds_Name s) @
     debug_rows (ds_Method s) (sorted_list_of_set (dom (ds_Method s))) @
     line 2 ''</table>'' @ line 1 ''''"

definition debug_page :: "('v, 'w) debugService list \<Rightarrow> string" where
  "debug_page ss =
     ''<html>'' @ line 1 ''<body>'' @ line 1 ''<title>MyRPC Services</title>'' @ line 1 '''' @
     concat (map debug_service ss) @ line 1 ''</body>'' @ line 1 ''</html>''"

text \<open>
  The handler: \<open>order\<close> is the order in which \<open>Range\<close> visits the services, \<open>wr\<close> what the
  response takes of what is written to it, and the error.
\<close>

definition template_error :: string where
  "template_error = ''rpc: '' @ [CHR 0xE6, CHR 0x89, CHR 0xA7, CHR 0xE8, CHR 0xA1, CHR 0x8C, CHR 0xE6, CHR 0xA8, CHR 0xA1,
     CHR 0xE6, CHR 0x9D, CHR 0xBF, CHR 0xE6, CHR 0x97, CHR 0xB6, CHR 0xE5, CHR 0x87, CHR 0xBA, CHR 0xE9, CHR 0x94,
     CHR 0x99, CHR 0xEF, CHR 0xBC, CHR 0x9A]"

definition debug_services :: "string list \<Rightarrow> ('v, 'w) server \<Rightarrow> ('v, 'w) debugService list" where
  "debug_services order srv =
     map (\<lambda>nm. \<lparr>ds_Name = nm, ds_Method = svc_method (the (serviceMap srv nm))\<rparr>) order"

definition debug_ServeHTTP ::
  "(string \<Rightarrow> string \<times> string option) \<Rightarrow> string list \<Rightarrow> ('v, 'w) server \<Rightarrow> string" where
  "debug_ServeHTTP wr order srv =
     (case wr (debug_page (debug_services order srv)) of
        (out, None) \<Rightarrow> out
      | (out, Some e) \<Rightarrow> out @ fst (wr (template_error @ '' '' @ e @ [CHR 0x0A])))"

lemma sorted_list_split:
  fixes D :: "'a::linorder set"
  assumes "finite D" and "x \<in> D"
  shows "sorted_list_of_set D = sorted_list_of_set {y \<in> D. y < x} @ [x] @ sorted_list_of_set {y \<in> D. x < y}"
proof (rule sorted_distinct_set_unique)
  show "set (sorted_list_of_set D) = set (sorted_list_of_set {y \<in> D. y < x} @ [x] @ sorted_list_of_set {y \<in> D. x < y})"
    using assms by auto
qed (use assms(1) in \<open>auto simp: sorted_append\<close>)

section \<open>Counting\<close>

text \<open>The requests that a server handles, one call after the other.\<close>

fun handle_calls :: "'v request list \<Rightarrow> ('v, 'w) server \<Rightarrow> 'w \<Rightarrow> ('v, 'w) server" where
  "handle_calls [] srv w = srv"
| "handle_calls (rq # rqs) srv w =
     (let ((r, w1), srv1) = server_call srv rq w in handle_calls rqs srv1 w1)"

definition calls_of :: "string \<Rightarrow> string \<Rightarrow> 'v request list \<Rightarrow> nat" where
  "calls_of sn mn rqs = length (filter (\<lambda>rq. rq_service rq = sn \<and> rq_method rq = mn) rqs)"

text \<open>A request that \<open>readRequest\<close> made names a service and a method that are there.\<close>

definition known_request :: "('v, 'w) server \<Rightarrow> 'v request \<Rightarrow> bool" where
  "known_request srv rq \<longleftrightarrow>
     (\<exists>s m. serviceMap srv (rq_service rq) = Some s \<and> svc_method s (rq_method rq) = Some m)"

text \<open>The services and methods of a server, with the number of calls of each.\<close>

definition calls_seen :: "('v, 'w) server \<Rightarrow> string \<Rightarrow> string \<Rightarrow> ('v, 'w) methodType option" where
  "calls_seen srv sn mn = (case serviceMap srv sn of None \<Rightarrow> None | Some s \<Rightarrow> svc_method s mn)"

lemma calls_seen_call:
  assumes "known_request srv rq"
  shows "calls_seen (snd (server_call srv rq w)) sn mn =
    (if rq_service rq = sn \<and> rq_method rq = mn
     then map_option (\<lambda>m. m\<lparr>numCalls := numCalls m + 1\<rparr>) (calls_seen srv sn mn) else calls_seen srv sn mn)"
  using assms
  by (auto simp: known_request_def calls_seen_def server_call_def service_call_def Let_def split: option.split)

lemma known_request_call:
  assumes "known_request srv rq" and "known_request srv rq'"
  shows "known_request (snd (server_call srv rq w)) rq'"
proof -
  have eq: "known_request srv r \<longleftrightarrow> calls_seen srv (rq_service r) (rq_method r) \<noteq> None" for srv and r :: "'a request"
    by (auto simp: known_request_def calls_seen_def split: option.splits)
  show ?thesis using assms unfolding eq calls_seen_call [OF assms(1)] by auto
qed

lemma handle_calls_seen:
  assumes "\<forall>rq \<in> set rqs. known_request srv rq"
  shows "calls_seen (handle_calls rqs srv w) sn mn =
    map_option (\<lambda>m. m\<lparr>numCalls := numCalls m + of_nat (calls_of sn mn rqs)\<rparr>) (calls_seen srv sn mn)"
  using assms
proof (induction rqs arbitrary: srv w)
  case Nil
  then show ?case by (simp add: calls_of_def option.map_ident)
next
  case (Cons rq rqs)
  obtain r w1 srv1 where call: "server_call srv rq w = ((r, w1), srv1)" by (metis prod.collapse)
  have "\<forall>rq \<in> set rqs. known_request srv1 rq"
    using Cons.prems known_request_call [of srv rq _ w] call by simp
  from Cons.IH [OF this, of w1] calls_seen_call [of srv rq w sn mn] Cons.prems call show ?case
    by (auto simp: calls_of_def option.map_comp comp_def add.assoc)
qed

section \<open>Properties\<close>


text \<open>The page of the server of the example, after two calls of its method.\<close>

definition demo_rq :: "uint64 \<Rightarrow> int \<times> int \<Rightarrow> (int \<times> int) request" where
  "demo_rq n v = \<lparr>rq_h = demo_header ''Foo.Sum'' n, rq_argv = v, rq_replyv = (0, 0), rq_service = ''Foo'',
     rq_method = ''Sum''\<rparr>"


end
