(* ===== verification/Rpc_Client.thy ===== *)
theory Rpc_Client
  imports Rpc_Server
begin

text \<open>
  MyRPC/client.go: many goroutines call through one client. A call is registered under the next
  number and written to the connection under the mutex \<open>send\<close>; a goroutine of the client reads
  the responses and completes the call with the number of the response; when the connection
  fails it completes all calls that are pending. A call is completed by a send on its channel
  \<open>Done\<close>, which has room for it. The steps below are the stretches of code between two
  points at which another goroutine can come in, the lock of \<open>mu\<close> in the middle of them.

  The connection decides whether a write succeeds, which headers arrive, and what a body decodes
  to. \<open>errorf\<close> is \<open>fmt.Errorf\<close> without arguments. The fields \<open>c_num\<close>, \<open>c_from\<close> and \<open>cl_count\<close> are
  for the proofs: the registration number of a call, the header that completed it, and the
  number of registrations.
\<close>

section \<open>State\<close>

datatype call_pc = P_New | P_Sending | P_Sent

record 'v rpc_call =
  c_Seq :: uint64
  c_ServiceMethod :: string
  c_Error :: "string option"
  c_Reply :: "'v option"
  c_Done :: nat
  c_pc :: call_pc
  c_cancelled :: bool
  c_num :: "nat option"
  c_from :: "header option"

datatype recv_pc = R_Loop | R_Have header "nat option" | R_Ended string | R_Dead

record 'v client =
  cl_seq :: uint64
  cl_pend :: "uint64 \<Rightarrow> nat option"
  cl_closing :: bool
  cl_shutdown :: bool
  cl_send :: "nat option"
  cl_calls :: "nat \<Rightarrow> 'v rpc_call option"
  cl_recv :: recv_pc
  cl_count :: nat

definition NewClientCodec :: "'v client" where
  "NewClientCodec = \<lparr>cl_seq = 1, cl_pend = Map.empty, cl_closing = False, cl_shutdown = False,
     cl_send = None, cl_calls = Map.empty, cl_recv = R_Loop, cl_count = 0\<rparr>"

definition ErrShutdown :: string where
  "ErrShutdown = [CHR 0xE8, CHR 0xBF, CHR 0x9E, CHR 0xE6, CHR 0x8E, CHR 0xA5, CHR 0xE5, CHR 0xB7,
     CHR 0xB2, CHR 0xE5, CHR 0x85, CHR 0xB3, CHR 0xE9, CHR 0x97, CHR 0xAD]"

section \<open>Operations\<close>

definition upd_call :: "nat \<Rightarrow> ('v rpc_call \<Rightarrow> 'v rpc_call) \<Rightarrow> 'v client \<Rightarrow> 'v client" where
  "upd_call i f c = c\<lparr>cl_calls := (cl_calls c)(i := map_option f (cl_calls c i))\<rparr>"

text \<open>\<open>call.Error = e\<close> and \<open>call.done()\<close>.\<close>

definition fail_call :: "string \<Rightarrow> 'v rpc_call \<Rightarrow> 'v rpc_call" where
  "fail_call e x = x\<lparr>c_Error := Some e, c_Done := Suc (c_Done x)\<rparr>"

definition Client_Close :: "'v client \<Rightarrow> string option \<times> 'v client" where
  "Client_Close c = (if cl_closing c then (Some ErrShutdown, c) else (None, c\<lparr>cl_closing := True\<rparr>))"

definition IsAvailable :: "'v client \<Rightarrow> bool" where
  "IsAvailable c \<longleftrightarrow> \<not> cl_shutdown c \<and> \<not> cl_closing c"

definition registerCall :: "nat \<Rightarrow> 'v client \<Rightarrow> (string + uint64) \<times> 'v client" where
  "registerCall i c =
     (if cl_closing c \<or> cl_shutdown c then (Inl ErrShutdown, c)
      else
        let s = cl_seq c; n = Suc (cl_count c);
            c1 = upd_call i (\<lambda>x. x\<lparr>c_Seq := s, c_num := Some n\<rparr>) c;
            c2 = c1\<lparr>cl_pend := (cl_pend c1)(s \<mapsto> i)\<rparr>
        in (Inr s, c2\<lparr>cl_seq := cl_seq c2 + 1, cl_count := n\<rparr>))"

definition removeCall :: "uint64 \<Rightarrow> 'v client \<Rightarrow> nat option \<times> 'v client" where
  "removeCall s c = (cl_pend c s, c\<lparr>cl_pend := (cl_pend c)(s := None)\<rparr>)"

text \<open>The loop walks the pending calls in some order; it leaves the map as it is.\<close>

definition terminateCalls :: "string \<Rightarrow> uint64 list \<Rightarrow> 'v client \<Rightarrow> 'v client" where
  "terminateCalls e order c =
     fold (\<lambda>s d. case cl_pend d s of None \<Rightarrow> d | Some i \<Rightarrow> upd_call i (fail_call e) d) order
       (c\<lparr>cl_shutdown := True\<rparr>)"

text \<open>
  \<open>Send\<close>: up to the write, with the registration; after a write that succeeded; after a write
  that failed.
\<close>

definition Send_start :: "nat \<Rightarrow> 'v client \<Rightarrow> 'v client" where
  "Send_start i c =
     (case registerCall i c of
        (Inl e, c1) \<Rightarrow> upd_call i (\<lambda>x. (fail_call e x)\<lparr>c_pc := P_Sent\<rparr>) c1
      | (Inr s, c1) \<Rightarrow> upd_call i (\<lambda>x. x\<lparr>c_pc := P_Sending\<rparr>) (c1\<lparr>cl_send := Some i\<rparr>))"

definition Send_written :: "nat \<Rightarrow> 'v client \<Rightarrow> 'v client" where
  "Send_written i c = upd_call i (\<lambda>x. x\<lparr>c_pc := P_Sent\<rparr>) (c\<lparr>cl_send := None\<rparr>)"

definition Send_failed :: "nat \<Rightarrow> string \<Rightarrow> 'v client \<Rightarrow> 'v client" where
  "Send_failed i e c =
     (let (r, c1) = removeCall (c_Seq (the (cl_calls c i))) c;
          c2 = (case r of None \<Rightarrow> c1 | Some j \<Rightarrow> upd_call j (fail_call e) c1)
      in upd_call i (\<lambda>x. x\<lparr>c_pc := P_Sent\<rparr>) (c2\<lparr>cl_send := None\<rparr>))"

definition new_call :: "string \<Rightarrow> 'v rpc_call" where
  "new_call sm = \<lparr>c_Seq = 0, c_ServiceMethod = sm, c_Error = None, c_Reply = None, c_Done = 0,
     c_pc = P_New, c_cancelled = False, c_num = None, c_from = None\<rparr>"

text \<open>\<open>receive\<close>: a header and the call it belongs to; then the body.\<close>

definition receive_header :: "header \<Rightarrow> 'v client \<Rightarrow> 'v client" where
  "receive_header h c = (let (r, c1) = removeCall (h_Seq h) c in c1\<lparr>cl_recv := R_Have h r\<rparr>)"

definition after_body :: "string + 'v \<Rightarrow> recv_pc" where
  "after_body res = (case res of Inl e \<Rightarrow> R_Ended e | Inr v \<Rightarrow> R_Loop)"

definition receive_body ::
  "(string \<Rightarrow> string) \<Rightarrow> header \<Rightarrow> nat option \<Rightarrow> string + 'v \<Rightarrow> 'v client \<Rightarrow> 'v client" where
  "receive_body errorf h r res c =
     (let c1 = c\<lparr>cl_recv := after_body res\<rparr> in
      case r of
        None \<Rightarrow> c1
      | Some i \<Rightarrow>
          if h_Error h \<noteq> '''' then upd_call i (\<lambda>x. (fail_call (errorf (h_Error h)) x)\<lparr>c_from := Some h\<rparr>) c1
          else
            (case res of
               Inl e \<Rightarrow> upd_call i (\<lambda>x. (fail_call (''reading body '' @ e) x)\<lparr>c_from := Some h\<rparr>) c1
             | Inr v \<Rightarrow> upd_call i (\<lambda>x. x\<lparr>c_Reply := Some v, c_Done := Suc (c_Done x), c_from := Some h\<rparr>) c1))"

text \<open>The branch of \<open>Call\<close> in which the context is done first.\<close>

definition Call_cancel :: "nat \<Rightarrow> 'v client \<Rightarrow> 'v client" where
  "Call_cancel i c =
     (let (r, c1) = removeCall (c_Seq (the (cl_calls c i))) c
      in upd_call i (\<lambda>x. x\<lparr>c_cancelled := True\<rparr>) c1)"

inductive cl_step :: "(string \<Rightarrow> string) \<Rightarrow> 'v client \<Rightarrow> 'v client \<Rightarrow> bool" for errorf where
  go: "cl_calls c i = None \<Longrightarrow> cl_step errorf c (c\<lparr>cl_calls := (cl_calls c)(i \<mapsto> new_call sm)\<rparr>)"
| send: "cl_calls c i = Some x \<Longrightarrow> c_pc x = P_New \<Longrightarrow> cl_send c = None \<Longrightarrow> cl_step errorf c (Send_start i c)"
| written: "cl_send c = Some i \<Longrightarrow> cl_step errorf c (Send_written i c)"
| failed: "cl_send c = Some i \<Longrightarrow> cl_step errorf c (Send_failed i e c)"
| read_header: "cl_recv c = R_Loop \<Longrightarrow> cl_step errorf c (receive_header h c)"
| header_error: "cl_recv c = R_Loop \<Longrightarrow> cl_step errorf c (c\<lparr>cl_recv := R_Ended e\<rparr>)"
| body: "cl_recv c = R_Have h r \<Longrightarrow> cl_step errorf c (receive_body errorf h r res c)"
| terminate: "cl_recv c = R_Ended e \<Longrightarrow> cl_send c = None \<Longrightarrow> distinct order \<Longrightarrow> set order = dom (cl_pend c) \<Longrightarrow>
     cl_step errorf c ((terminateCalls e order c)\<lparr>cl_recv := R_Dead\<rparr>)"
| cancel: "cl_calls c i = Some x \<Longrightarrow> c_pc x = P_Sent \<Longrightarrow> cl_step errorf c (Call_cancel i c)"
| close: "cl_step errorf c (snd (Client_Close c))"

abbreviation cl_reach :: "(string \<Rightarrow> string) \<Rightarrow> 'v client \<Rightarrow> bool" where
  "cl_reach errorf \<equiv> (cl_step errorf)\<^sup>*\<^sup>* NewClientCodec"

section \<open>Invariant\<close>

text \<open>
  What holds of each call: a call that is not registered has number 0 and is nowhere; a
  registered one has its registration number, is done at most once, and unless it was
  cancelled it is pending, in the hands of the reader, or done.
\<close>

definition call_ok :: "'v client \<Rightarrow> nat \<Rightarrow> 'v rpc_call \<Rightarrow> bool" where
  "call_ok c i x \<longleftrightarrow>
     c_Done x \<le> 1 \<and> (c_pc x = P_New \<longrightarrow> c_num x = None \<and> c_Done x = 0) \<and>
     (c_cancelled x \<longrightarrow> c_pc x = P_Sent) \<and>
     (c_num x = None \<longrightarrow> c_Seq x = 0 \<and> c_from x = None \<and> (c_pc x \<noteq> P_New \<longrightarrow> c_Done x = 1)) \<and>
     (\<forall>k. c_num x = Some k \<longrightarrow> 1 \<le> k \<and> k \<le> cl_count c \<and> c_Seq x = word_of_nat k \<and>
        (c_cancelled x \<or> cl_pend c (c_Seq x) = Some i \<or> (\<exists>h. cl_recv c = R_Have h (Some i)) \<or> c_Done x = 1)) \<and>
     (\<forall>h. c_from x = Some h \<longrightarrow> h_Seq h = c_Seq x)"

definition cl_inv :: "'v client \<Rightarrow> bool" where
  "cl_inv c \<longleftrightarrow>
     cl_seq c = word_of_nat (Suc (cl_count c)) \<and>
     (cl_shutdown c \<longleftrightarrow> cl_recv c = R_Dead) \<and>
     (\<forall>i x. cl_calls c i = Some x \<longrightarrow> call_ok c i x) \<and>
     (\<forall>i j x y k. cl_calls c i = Some x \<longrightarrow> cl_calls c j = Some y \<longrightarrow> c_num x = Some k \<longrightarrow>
        c_num y = Some k \<longrightarrow> i = j) \<and>
     (\<forall>s i. cl_pend c s = Some i \<longrightarrow> (\<exists>x k. cl_calls c i = Some x \<and> c_num x = Some k \<and> c_Seq x = s \<and>
        c_Done x = (if cl_recv c = R_Dead then 1 else 0))) \<and>
     (\<forall>h i. cl_recv c = R_Have h (Some i) \<longrightarrow> (\<exists>x k. cl_calls c i = Some x \<and> c_num x = Some k \<and>
        c_Done x = 0 \<and> h_Seq h = c_Seq x \<and> cl_pend c (c_Seq x) = None)) \<and>
     (\<forall>i. cl_send c = Some i \<longrightarrow> (\<exists>x k. cl_calls c i = Some x \<and> c_pc x = P_Sending \<and> c_num x = Some k)) \<and>
     (\<forall>i x. cl_calls c i = Some x \<longrightarrow> c_pc x = P_Sending \<longrightarrow> cl_send c = Some i) \<and>
     (cl_recv c = R_Dead \<longrightarrow> cl_send c = None)"

lemma cl_invI:
  assumes "cl_seq c = word_of_nat (Suc (cl_count c))"
    and "cl_shutdown c \<longleftrightarrow> cl_recv c = R_Dead"
    and "\<And>i x. cl_calls c i = Some x \<Longrightarrow> call_ok c i x"
    and "\<And>i j x y k. cl_calls c i = Some x \<Longrightarrow> cl_calls c j = Some y \<Longrightarrow> c_num x = Some k \<Longrightarrow>
        c_num y = Some k \<Longrightarrow> i = j"
    and "\<And>s i. cl_pend c s = Some i \<Longrightarrow> \<exists>x k. cl_calls c i = Some x \<and> c_num x = Some k \<and> c_Seq x = s \<and>
        c_Done x = (if cl_recv c = R_Dead then 1 else 0)"
    and "\<And>h i. cl_recv c = R_Have h (Some i) \<Longrightarrow> \<exists>x k. cl_calls c i = Some x \<and> c_num x = Some k \<and>
        c_Done x = 0 \<and> h_Seq h = c_Seq x \<and> cl_pend c (c_Seq x) = None"
    and "\<And>i. cl_send c = Some i \<Longrightarrow> \<exists>x k. cl_calls c i = Some x \<and> c_pc x = P_Sending \<and> c_num x = Some k"
    and "\<And>i x. cl_calls c i = Some x \<Longrightarrow> c_pc x = P_Sending \<Longrightarrow> cl_send c = Some i"
    and "cl_recv c = R_Dead \<Longrightarrow> cl_send c = None"
  shows "cl_inv c"
  unfolding cl_inv_def using assms by blast

lemma cl_invD:
  assumes "cl_inv c"
  shows "cl_seq c = word_of_nat (Suc (cl_count c))"
    and "cl_shutdown c \<longleftrightarrow> cl_recv c = R_Dead"
    and "cl_calls c i = Some x \<Longrightarrow> call_ok c i x"
    and "cl_calls c i = Some x \<Longrightarrow> cl_calls c j = Some y \<Longrightarrow> c_num x = Some k \<Longrightarrow> c_num y = Some k \<Longrightarrow> i = j"
    and "cl_pend c s = Some i \<Longrightarrow> \<exists>x k. cl_calls c i = Some x \<and> c_num x = Some k \<and> c_Seq x = s \<and>
        c_Done x = (if cl_recv c = R_Dead then 1 else 0)"
    and "cl_recv c = R_Have h (Some i) \<Longrightarrow> \<exists>x k. cl_calls c i = Some x \<and> c_num x = Some k \<and>
        c_Done x = 0 \<and> h_Seq h = c_Seq x \<and> cl_pend c (c_Seq x) = None"
    and "cl_send c = Some i \<Longrightarrow> \<exists>x k. cl_calls c i = Some x \<and> c_pc x = P_Sending \<and> c_num x = Some k"
    and "cl_calls c i = Some x \<Longrightarrow> c_pc x = P_Sending \<Longrightarrow> cl_send c = Some i"
    and "cl_recv c = R_Dead \<Longrightarrow> cl_send c = None"
  using assms unfolding cl_inv_def by blast+

text \<open>Two registered calls with one sequence number are one call, before the numbers wrap.\<close>

lemma word_of_nat_inj_64:
  "word_of_nat a = (word_of_nat b :: uint64) \<Longrightarrow> a < 2 ^ 64 \<Longrightarrow> b < 2 ^ 64 \<Longrightarrow> a = b"
proof -
  assume "word_of_nat a = (word_of_nat b :: uint64)"
  then have "unat (word_of_nat a :: uint64) = unat (word_of_nat b :: uint64)" by simp
  then show "a < 2 ^ 64 \<Longrightarrow> b < 2 ^ 64 \<Longrightarrow> a = b"
    by (simp add: unsigned_of_nat take_bit_nat_eq_self)
qed

lemma same_seq:
  assumes "cl_inv c" and "cl_count c < 2 ^ 64" and "cl_calls c i = Some x" and "cl_calls c j = Some y"
    and "c_num x = Some k" and "c_num y = Some l" and "c_Seq x = c_Seq y"
  shows "i = j"
proof -
  have "call_ok c i x" "call_ok c j y" using cl_invD(3) [OF assms(1)] assms(3,4) by blast+
  then have "k \<le> cl_count c" "l \<le> cl_count c" "word_of_nat k = (word_of_nat l :: uint64)"
    using assms(5-7) by (auto simp: call_ok_def)
  then have "k = l" using assms(2) by (intro word_of_nat_inj_64) auto
  with cl_invD(4) [OF assms(1,3,4,5)] assms(6) show ?thesis by simp
qed

lemma start_inv: "cl_inv NewClientCodec"
  by (rule cl_invI) (simp_all add: NewClientCodec_def)

lemma go_inv:
  assumes "cl_inv c" and "cl_calls c i = None"
  shows "cl_inv (c\<lparr>cl_calls := (cl_calls c)(i \<mapsto> new_call sm)\<rparr>)"
proof -
  have pend: "cl_pend c s \<noteq> Some i" and have': "cl_recv c \<noteq> R_Have h (Some i)" and send: "cl_send c \<noteq> Some i" for s h
    using cl_invD(5-7) [OF assms(1)] assms(2) by fastforce+
  show ?thesis
  proof (rule cl_invI, goal_cases)
    case (3 j x)
    then show ?case
      using cl_invD(3) [OF assms(1), of j x] by (auto simp: call_ok_def new_call_def split: if_splits)
  next
    case (4 j j' x y k)
    then show ?case using cl_invD(4) [OF assms(1), of j x j' y k] by (auto simp: new_call_def split: if_splits)
  next
    case (5 s j)
    then show ?case using cl_invD(5) [OF assms(1), of s j] pend [of s] by (cases "j = i") simp_all
  next
    case (6 h j)
    then show ?case using cl_invD(6) [OF assms(1), of h j] have' [of h] by (cases "j = i") simp_all
  next
    case (7 j)
    then show ?case using cl_invD(7) [OF assms(1), of j] send by (cases "j = i") simp_all
  next
    case (8 j x)
    then show ?case using cl_invD(8) [OF assms(1), of j x] by (auto simp: new_call_def split: if_splits)
  qed (use cl_invD(1,2,9) [OF assms(1)] in simp_all)
qed

lemma upd_call_sel [simp]:
  "cl_calls (upd_call i f c) = (cl_calls c)(i := map_option f (cl_calls c i))"
  "cl_seq (upd_call i f c) = cl_seq c" "cl_pend (upd_call i f c) = cl_pend c"
  "cl_closing (upd_call i f c) = cl_closing c" "cl_shutdown (upd_call i f c) = cl_shutdown c"
  "cl_send (upd_call i f c) = cl_send c" "cl_recv (upd_call i f c) = cl_recv c"
  "cl_count (upd_call i f c) = cl_count c"
  by (simp_all add: upd_call_def)

lemma fail_call_sel [simp]:
  "c_Seq (fail_call e x) = c_Seq x" "c_Done (fail_call e x) = Suc (c_Done x)" "c_pc (fail_call e x) = c_pc x"
  "c_cancelled (fail_call e x) = c_cancelled x" "c_num (fail_call e x) = c_num x" "c_from (fail_call e x) = c_from x"
  by (simp_all add: fail_call_def)

lemma call_ok_frame:
  "cl_count c' = cl_count c \<Longrightarrow> cl_pend c' = cl_pend c \<Longrightarrow> cl_recv c' = cl_recv c \<Longrightarrow>
    call_ok c' i x = call_ok c i x"
  by (simp add: call_ok_def)

lemma send_refused_inv:
  assumes "cl_inv c" and "cl_calls c i = Some x" and "c_pc x = P_New"
  shows "cl_inv (upd_call i (\<lambda>x. (fail_call e x)\<lparr>c_pc := P_Sent\<rparr>) c)"
proof -
  have x: "call_ok c i x" using cl_invD(3) [OF assms(1,2)] .
  then have n: "c_num x = None" "c_Done x = 0" "c_Seq x = 0" "c_from x = None" using assms(3) by (auto simp: call_ok_def)
  have pend: "cl_pend c s \<noteq> Some i" and have': "cl_recv c \<noteq> R_Have h (Some i)" and send: "cl_send c \<noteq> Some i" for s h
    using cl_invD(5-7) [OF assms(1)] assms(2) n by fastforce+
  show ?thesis
  proof (rule cl_invI, goal_cases)
    case (3 j y)
    show ?case
    proof (cases "j = i")
      case True
      with 3 assms(2) have "y = (fail_call e x)\<lparr>c_pc := P_Sent\<rparr>" by simp
      then show ?thesis using n by (simp add: call_ok_def)
    next
      case False
      with 3 have "call_ok c j y" using cl_invD(3) [OF assms(1), of j y] by simp
      then show ?thesis by (subst call_ok_frame [of _ c]) simp_all
    qed
  next
    case (4 j j' y z k)
    then show ?case using cl_invD(4) [OF assms(1), of j y j' z k] assms(2) n by (auto split: if_splits)
  next
    case (5 s j)
    then show ?case using cl_invD(5) [OF assms(1), of s j] pend [of s] by (cases "j = i") simp_all
  next
    case (6 h j)
    then show ?case using cl_invD(6) [OF assms(1), of h j] have' [of h] by (cases "j = i") simp_all
  next
    case (7 j)
    then show ?case using cl_invD(7) [OF assms(1), of j] send by (cases "j = i") simp_all
  next
    case (8 j y)
    then show ?case using cl_invD(8) [OF assms(1), of j y] by (auto split: if_splits)
  qed (use cl_invD(1,2,9) [OF assms(1)] in simp_all)
qed

lemma send_accepted_inv:
  assumes "cl_inv c" and "cl_calls c i = Some x" and "c_pc x = P_New" and "cl_send c = None"
    and "\<not> cl_shutdown c" and "Suc (cl_count c) < 2 ^ 64"
  shows "cl_inv (c\<lparr>cl_seq := cl_seq c + 1, cl_count := Suc (cl_count c), cl_pend := (cl_pend c)(cl_seq c \<mapsto> i),
    cl_send := Some i,
    cl_calls := (cl_calls c)(i \<mapsto> x\<lparr>c_Seq := cl_seq c, c_num := Some (Suc (cl_count c)), c_pc := P_Sending\<rparr>)\<rparr>)"
proof -
  have x: "call_ok c i x" using cl_invD(3) [OF assms(1,2)] .
  then have n: "c_num x = None" "c_Done x = 0" "c_from x = None" "\<not> c_cancelled x"
    using assms(3) by (auto simp: call_ok_def)
  have pend: "cl_pend c s \<noteq> Some i" and have': "cl_recv c \<noteq> R_Have h (Some i)" for s h
    using cl_invD(5-6) [OF assms(1)] assms(2) n by fastforce+
  have alive: "cl_recv c \<noteq> R_Dead" using assms(5) cl_invD(2) [OF assms(1)] by simp
  have new: "c_Seq y \<noteq> cl_seq c" if "cl_calls c j = Some y" "c_num y = Some k" for j y k
  proof
    assume "c_Seq y = cl_seq c"
    moreover have "call_ok c j y" using cl_invD(3) [OF assms(1) that(1)] .
    ultimately have "k \<le> cl_count c" "word_of_nat k = (word_of_nat (Suc (cl_count c)) :: uint64)"
      using that(2) cl_invD(1) [OF assms(1)] by (auto simp: call_ok_def simp del: of_nat_Suc)
    then show False using word_of_nat_inj_64 [of k "Suc (cl_count c)"] assms(6) by simp
  qed
  have idle: "c_pc y \<noteq> P_Sending" if "cl_calls c j = Some y" for j y
    using cl_invD(8) [OF assms(1) that] assms(4) by auto
  show ?thesis
  proof (rule cl_invI, goal_cases)
    case 1
    then show ?case by (simp add: cl_invD(1) [OF assms(1)])
  next
    case 2
    then show ?case using cl_invD(2) [OF assms(1)] by simp
  next
    case (3 j y)
    show ?case
    proof (cases "j = i")
      case True
      then show ?thesis using 3 n cl_invD(1) [OF assms(1)] by (auto simp: call_ok_def)
    next
      case False
      then show ?thesis using 3 cl_invD(3) [OF assms(1), of j y] new [of j y]
        by (auto simp: call_ok_def)
    qed
  next
    case (4 j j' y z k)
    have "k' \<le> cl_count c" if "cl_calls c l = Some y'" "c_num y' = Some k'" for l y' k'
      using cl_invD(3) [OF assms(1) that(1)] that(2) by (auto simp: call_ok_def)
    then show ?case using 4 cl_invD(4) [OF assms(1), of j y j' z k]
      by (fastforce split: if_splits)
  next
    case (5 s j)
    then show ?case using cl_invD(5) [OF assms(1), of s j] pend [of s] n alive
      by (cases "j = i") (auto split: if_splits)
  next
    case (6 h j)
    then show ?case using cl_invD(6) [OF assms(1), of h j] have' [of h] new [of j] by (cases "j = i") auto
  next
    case (8 j y)
    then show ?case using idle [of j y] by (auto split: if_splits)
  qed (use alive in auto)
qed

lemma send_inv:
  assumes "cl_inv c" and "cl_calls c i = Some x" and "c_pc x = P_New" and "cl_send c = None"
    and "cl_count (Send_start i c) < 2 ^ 64"
  shows "cl_inv (Send_start i c)"
proof (cases "cl_closing c \<or> cl_shutdown c")
  case True
  then show ?thesis
    using send_refused_inv [OF assms(1-3)] by (simp add: Send_start_def registerCall_def)
next
  case False
  let ?c = "c\<lparr>cl_seq := cl_seq c + 1, cl_count := Suc (cl_count c), cl_pend := (cl_pend c)(cl_seq c \<mapsto> i),
    cl_send := Some i,
    cl_calls := (cl_calls c)(i \<mapsto> x\<lparr>c_Seq := cl_seq c, c_num := Some (Suc (cl_count c)), c_pc := P_Sending\<rparr>)\<rparr>"
  have "Send_start i c = ?c"
    using False assms(2)
    by (auto simp: Send_start_def registerCall_def Let_def intro!: client.equality)
  with send_accepted_inv [OF assms(1-4)] False assms(5) show ?thesis by simp
qed

lemma unique_upd:
  assumes "cl_inv c" and "cl_calls c i = Some x" and "c_num x' = c_num x"
    and "cl_calls c' = (cl_calls c)(i \<mapsto> x')"
    and "cl_calls c' j = Some y" and "cl_calls c' j' = Some z" and "c_num y = Some k" and "c_num z = Some k"
  shows "j = j'"
proof -
  obtain y0 where y0: "cl_calls c j = Some y0" "c_num y0 = Some k"
    using assms(2-5,7) by (cases "j = i") auto
  obtain z0 where z0: "cl_calls c j' = Some z0" "c_num z0 = Some k"
    using assms(2-4,6,8) by (cases "j' = i") auto
  show ?thesis by (rule cl_invD(4) [OF assms(1) y0(1) z0(1) y0(2) z0(2)])
qed

lemma written_inv:
  assumes "cl_inv c" and "cl_send c = Some i"
  shows "cl_inv (Send_written i c)"
proof -
  obtain x k where x: "cl_calls c i = Some x" "c_pc x = P_Sending" "c_num x = Some k"
    using cl_invD(7) [OF assms] by blast
  let ?c = "Send_written i c"
  have calls: "cl_calls ?c = (cl_calls c)(i \<mapsto> x\<lparr>c_pc := P_Sent\<rparr>)" and same: "cl_pend ?c = cl_pend c"
    "cl_recv ?c = cl_recv c" "cl_count ?c = cl_count c" "cl_seq ?c = cl_seq c" "cl_shutdown ?c = cl_shutdown c"
    "cl_send ?c = None"
    by (simp_all add: Send_written_def x(1))
  show ?thesis
  proof (rule cl_invI, goal_cases)
    case (3 j y)
    show ?case
    proof (cases "j = i")
      case True
      then show ?thesis
        using 3 cl_invD(3) [OF assms(1) x(1)] x by (auto simp: call_ok_def calls same)
    next
      case False
      with 3 have "call_ok c j y" using cl_invD(3) [OF assms(1), of j y] by (simp add: calls)
      then show ?thesis by (subst call_ok_frame [of _ c]) (simp_all add: same)
    qed
  next
    case (4 j j' y z k)
    from unique_upd [OF assms(1) x(1) _ calls 4] show ?case by simp
  next
    case (5 s j)
    then show ?case using cl_invD(5) [OF assms(1), of s j] x by (cases "j = i") (auto simp: calls same)
  next
    case (6 h j)
    then show ?case using cl_invD(6) [OF assms(1), of h j] x by (cases "j = i") (auto simp: calls same)
  next
    case (8 j y)
    then show ?case using cl_invD(8) [OF assms(1), of j y] assms(2) by (auto simp: calls same split: if_splits)
  qed (use cl_invD(1,2,9) [OF assms(1)] in \<open>simp_all add: same\<close>)
qed

lemma failed_inv:
  assumes "cl_inv c" and "cl_send c = Some i" and "cl_count c < 2 ^ 64"
  shows "cl_inv (Send_failed i e c)"
proof -
  obtain x k where x: "cl_calls c i = Some x" "c_pc x = P_Sending" "c_num x = Some k"
    using cl_invD(7) [OF assms(1,2)] by blast
  have alive: "cl_recv c \<noteq> R_Dead" using cl_invD(9) [OF assms(1)] assms(2) by auto
  show ?thesis
  proof (cases "cl_pend c (c_Seq x)")
    case None
    then have "Send_failed i e c = Send_written i c"
      by (simp add: Send_failed_def Send_written_def removeCall_def x(1) fun_upd_idem upd_call_def)
    then show ?thesis using written_inv [OF assms(1,2)] by simp
  next
    case (Some j)
    obtain y l where y: "cl_calls c j = Some y" "c_num y = Some l" "c_Seq y = c_Seq x" "c_Done y = 0"
      using cl_invD(5) [OF assms(1) Some] alive by auto
    have ji: "j = i" using same_seq [OF assms(1,3) y(1) x(1) y(2) x(3) y(3)] .
    with x y have d: "c_Done x = 0" by simp
    let ?c = "Send_failed i e c" and ?x = "(fail_call e x)\<lparr>c_pc := P_Sent\<rparr>"
    have calls: "cl_calls ?c = (cl_calls c)(i \<mapsto> ?x)" and same: "cl_pend ?c = (cl_pend c)(c_Seq x := None)"
      "cl_recv ?c = cl_recv c" "cl_count ?c = cl_count c" "cl_seq ?c = cl_seq c" "cl_shutdown ?c = cl_shutdown c"
      "cl_send ?c = None"
      using Some ji x(1) by (auto simp: Send_failed_def removeCall_def)
    have only: "s = c_Seq x" if "cl_pend c s = Some i" for s
      using cl_invD(5) [OF assms(1) that] x(1) by auto
    show ?thesis
    proof (rule cl_invI, goal_cases)
      case (3 j' y')
      show ?case
      proof (cases "j' = i")
        case True
        then show ?thesis
          using 3 cl_invD(3) [OF assms(1) x(1)] x d by (auto simp: call_ok_def calls same)
      next
        case False
        with 3 have "call_ok c j' y'" using cl_invD(3) [OF assms(1), of j' y'] by (simp add: calls)
        then show ?thesis using False Some ji by (auto simp: call_ok_def same)
      qed
    next
      case (4 j j' y z k)
      from unique_upd [OF assms(1) x(1) _ calls 4] show ?case by simp
    next
      case (5 s j)
      then have p: "s \<noteq> c_Seq x" "cl_pend c s = Some j" by (auto simp: same split: if_splits)
      then have "j \<noteq> i" using only by blast
      with cl_invD(5) [OF assms(1) p(2)] show ?case by (simp add: calls same)
    next
      case (6 h j)
      have "j \<noteq> i" using 6 cl_invD(6) [OF assms(1), of h i] x(1) Some by (auto simp: same)
      then show ?case using 6 cl_invD(6) [OF assms(1), of h j] by (auto simp: calls same)
    next
      case (8 j y)
      then show ?case using cl_invD(8) [OF assms(1), of j y] assms(2) by (auto simp: calls same split: if_splits)
    qed (use cl_invD(1,2,9) [OF assms(1)] in \<open>simp_all add: same\<close>)
  qed
qed

lemma header_inv:
  assumes "cl_inv c" and "cl_recv c = R_Loop"
  shows "cl_inv (receive_header h c)"
proof (cases "cl_pend c (h_Seq h)")
  case None
  then have eq: "receive_header h c = c\<lparr>cl_recv := R_Have h None\<rparr>"
    by (simp add: receive_header_def removeCall_def fun_upd_idem)
  show ?thesis unfolding eq
  proof (rule cl_invI, goal_cases)
    case (3 j y)
    then have "call_ok c j y" using cl_invD(3) [OF assms(1), of j y] by simp
    then show ?case using assms(2) by (auto simp: call_ok_def)
  next
    case (4 j j' y z k)
    then show ?case using cl_invD(4) [OF assms(1), of j y j' z k] by simp
  next
    case (5 s j)
    then show ?case using cl_invD(5) [OF assms(1), of s j] assms(2) by simp
  next
    case (7 j)
    then show ?case using cl_invD(7) [OF assms(1), of j] by simp
  next
    case (8 j y)
    then show ?case using cl_invD(8) [OF assms(1), of j y] by simp
  qed (use cl_invD(1,2) [OF assms(1)] assms(2) in simp_all)
next
  case (Some i)
  obtain x k where x: "cl_calls c i = Some x" "c_num x = Some k" "c_Seq x = h_Seq h" "c_Done x = 0"
    using cl_invD(5) [OF assms(1) Some] assms(2) by auto
  let ?c = "receive_header h c"
  have same: "cl_calls ?c = cl_calls c" "cl_pend ?c = (cl_pend c)(h_Seq h := None)" "cl_recv ?c = R_Have h (Some i)"
    "cl_count ?c = cl_count c" "cl_seq ?c = cl_seq c" "cl_shutdown ?c = cl_shutdown c" "cl_send ?c = cl_send c"
    by (simp_all add: receive_header_def removeCall_def Some)
  show ?thesis
  proof (rule cl_invI, goal_cases)
    case (3 j y)
    then have ok: "call_ok c j y" using cl_invD(3) [OF assms(1), of j y] by (simp add: same)
    show ?case
    proof (cases "j = i")
      case True
      then show ?thesis using ok by (simp add: call_ok_def same)
    next
      case False
      then show ?thesis using ok Some assms(2) by (auto simp: call_ok_def same)
    qed
  next
    case (4 j j' y z k)
    then show ?case using cl_invD(4) [OF assms(1), of j y j' z k] by (simp add: same)
  next
    case (5 s j)
    then show ?case using cl_invD(5) [OF assms(1), of s j] assms(2) by (auto simp: same split: if_splits)
  next
    case (6 h' j)
    then have "h' = h" "j = i" by (simp_all add: same)
    then show ?case using x by (simp add: same)
  next
    case (7 j)
    then show ?case using cl_invD(7) [OF assms(1), of j] by (simp add: same)
  next
    case (8 j y)
    then show ?case using cl_invD(8) [OF assms(1), of j y] by (simp add: same)
  qed (use cl_invD(1,2) [OF assms(1)] assms(2) in \<open>simp_all add: same\<close>)
qed

text \<open>The reader moves on without a call in hand, neither dead before nor after.\<close>

lemma recv_inv:
  assumes "cl_inv c" and "\<And>h i. cl_recv c \<noteq> R_Have h (Some i)" and "cl_recv c \<noteq> R_Dead"
    and "\<And>h i. p \<noteq> R_Have h (Some i)" and "p \<noteq> R_Dead"
  shows "cl_inv (c\<lparr>cl_recv := p\<rparr>)"
proof (rule cl_invI, goal_cases)
  case (3 j y)
  then have "call_ok c j y" using cl_invD(3) [OF assms(1), of j y] by simp
  then show ?case using assms(2) by (auto simp: call_ok_def)
next
  case (4 j j' y z k)
  then show ?case using cl_invD(4) [OF assms(1), of j y j' z k] by simp
next
  case (5 s j)
  then show ?case using cl_invD(5) [OF assms(1), of s j] assms(3,5) by simp
next
  case (7 j)
  then show ?case using cl_invD(7) [OF assms(1), of j] by simp
next
  case (8 j y)
  then show ?case using cl_invD(8) [OF assms(1), of j y] by simp
qed (use cl_invD(1,2) [OF assms(1)] assms in simp_all)

lemma complete_inv:
  assumes "cl_inv c" and "cl_recv c = R_Have h (Some i)" and "cl_calls c i = Some x"
    and "c_Seq x' = c_Seq x" and "c_num x' = c_num x" and "c_pc x' = c_pc x" and "c_cancelled x' = c_cancelled x"
    and "c_Done x' = Suc (c_Done x)" and "c_from x' = Some h"
    and "\<And>h j. p \<noteq> R_Have h (Some j)" and "p \<noteq> R_Dead"
  shows "cl_inv (c\<lparr>cl_recv := p, cl_calls := (cl_calls c)(i \<mapsto> x')\<rparr>)"
proof -
  let ?c = "c\<lparr>cl_recv := p, cl_calls := (cl_calls c)(i \<mapsto> x')\<rparr>"
  obtain k where x: "c_num x = Some k" "c_Done x = 0" "h_Seq h = c_Seq x" "cl_pend c (c_Seq x) = None"
    using cl_invD(6) [OF assms(1,2)] assms(3) by auto
  have ok: "call_ok c i x" using cl_invD(3) [OF assms(1,3)] .
  have calls: "cl_calls ?c = (cl_calls c)(i \<mapsto> x')" by simp
  have gone: "cl_pend c s \<noteq> Some i" for s
    using cl_invD(5) [OF assms(1), of s i] assms(3) x(4) by auto
  show ?thesis
  proof (rule cl_invI, goal_cases)
    case (3 j y)
    show ?case
    proof (cases "j = i")
      case True
      with 3 have "y = x'" by simp
      then show ?thesis using ok x assms(4-9) by (auto simp: call_ok_def)
    next
      case False
      with 3 have "call_ok c j y" using cl_invD(3) [OF assms(1), of j y] by simp
      then show ?thesis using False assms(2) by (auto simp: call_ok_def)
    qed
  next
    case (4 j j' y z k)
    from unique_upd [OF assms(1,3,5) calls 4] show ?case .
  next
    case (5 s j)
    then show ?case using cl_invD(5) [OF assms(1), of s j] gone [of s] assms(2,11) by (cases "j = i") auto
  next
    case (7 j)
    then show ?case using cl_invD(7) [OF assms(1), of j] assms(3,5,6) by (cases "j = i") auto
  next
    case (8 j y)
    then show ?case using cl_invD(8) [OF assms(1), of j] assms(3,6) by (cases "j = i") auto
  qed (use cl_invD(1,2) [OF assms(1)] assms in simp_all)
qed

lemma body_inv:
  assumes "cl_inv c" and "cl_recv c = R_Have h r"
  shows "cl_inv (receive_body errorf h r res c)"
proof (cases r)
  case None
  then show ?thesis
    using recv_inv [OF assms(1), of "after_body res"] assms(2)
    by (simp add: receive_body_def after_body_def split: sum.split)
next
  case (Some i)
  obtain x where x: "cl_calls c i = Some x" using cl_invD(6) [OF assms(1)] assms(2) Some by blast
  have "\<exists>x'. receive_body errorf h r res c = c\<lparr>cl_recv := after_body res, cl_calls := (cl_calls c)(i \<mapsto> x')\<rparr> \<and>
    c_Seq x' = c_Seq x \<and> c_num x' = c_num x \<and> c_pc x' = c_pc x \<and> c_cancelled x' = c_cancelled x \<and>
    c_Done x' = Suc (c_Done x) \<and> c_from x' = Some h"
    using x by (auto simp: receive_body_def Some upd_call_def Let_def split: sum.split)
  then show ?thesis
    using complete_inv [OF assms(1) _ x, of h _ "after_body res"] assms(2) Some
    by (auto simp: after_body_def split: sum.split)
qed

text \<open>The loop of \<open>terminateCalls\<close> visits each pending call once.\<close>

lemma terminate_fold:
  assumes "distinct order" and "\<And>s t i. cl_pend c s = Some i \<Longrightarrow> cl_pend c t = Some i \<Longrightarrow> s = t"
  shows "fold (\<lambda>s d. case cl_pend d s of None \<Rightarrow> d | Some i \<Rightarrow> upd_call i (fail_call e) d) order c =
    c\<lparr>cl_calls := (\<lambda>i. if \<exists>s \<in> set order. cl_pend c s = Some i then map_option (fail_call e) (cl_calls c i)
                       else cl_calls c i)\<rparr>"
  using assms
proof (induction order arbitrary: c)
  case Nil
  then show ?case by simp
next
  case (Cons s order)
  show ?case
  proof (cases "cl_pend c s")
    case None
    then show ?thesis using Cons.IH [of c] Cons.prems by (auto intro!: client.equality simp: fun_eq_iff)
  next
    case (Some i)
    let ?c = "upd_call i (fail_call e) c"
    have "\<forall>t \<in> set order. cl_pend c t \<noteq> Some i" using Cons.prems Some by fastforce
    moreover have "fold (\<lambda>s d. case cl_pend d s of None \<Rightarrow> d | Some i \<Rightarrow> upd_call i (fail_call e) d) order ?c =
        ?c\<lparr>cl_calls := (\<lambda>j. if \<exists>s \<in> set order. cl_pend ?c s = Some j then map_option (fail_call e) (cl_calls ?c j)
                            else cl_calls ?c j)\<rparr>"
      by (rule Cons.IH) (use Cons.prems in auto)
    ultimately show ?thesis using Some by (auto simp: upd_call_def intro!: client.equality)
  qed
qed

lemma terminate_inv:
  assumes "cl_inv c" and "cl_recv c = R_Ended e" and "cl_send c = None" and "distinct order"
    and "set order = dom (cl_pend c)"
  shows "cl_inv ((terminateCalls e order c)\<lparr>cl_recv := R_Dead\<rparr>)"
proof -
  define d where "d = (terminateCalls e order c)\<lparr>cl_recv := R_Dead\<rparr>"
  have inj: "s = t" if "cl_pend c s = Some i" "cl_pend c t = Some i" for s t i
    using cl_invD(5) [OF assms(1) that(1)] cl_invD(5) [OF assms(1) that(2)] by auto
  have ex: "(\<exists>s \<in> set order. cl_pend c s = Some i) \<longleftrightarrow> (\<exists>s. cl_pend c s = Some i)" for i
    using assms(5) by auto
  have "terminateCalls e order c = c\<lparr>cl_shutdown := True,
      cl_calls := (\<lambda>i. if \<exists>s. cl_pend c s = Some i then map_option (fail_call e) (cl_calls c i) else cl_calls c i)\<rparr>"
    unfolding terminateCalls_def using terminate_fold [OF assms(4), of "c\<lparr>cl_shutdown := True\<rparr>" e] inj
    by (simp add: ex cong: if_cong)
  then have same: "cl_calls d j = (if \<exists>s. cl_pend c s = Some j then map_option (fail_call e) (cl_calls c j) else cl_calls c j)"
    "cl_pend d = cl_pend c" "cl_recv d = R_Dead" "cl_count d = cl_count c" "cl_seq d = cl_seq c"
    "cl_shutdown d" "cl_send d = None" for j
    unfolding d_def using assms(3) by simp_all
  have old: "\<exists>x. cl_calls c j = Some x \<and> c_num y = c_num x \<and> c_pc y = c_pc x" if "cl_calls d j = Some y" for j y
    using that by (auto simp: same split: if_splits)
  show ?thesis unfolding d_def [symmetric]
  proof (rule cl_invI, goal_cases)
    case (3 j y)
    show ?case
    proof (cases "\<exists>s. cl_pend c s = Some j")
      case True
      then obtain s x k where x: "cl_pend c s = Some j" "cl_calls c j = Some x" "c_num x = Some k" "c_Seq x = s" "c_Done x = 0"
        using cl_invD(5) [OF assms(1)] assms(2) by fastforce
      then have "y = fail_call e x" using 3 True by (simp add: same)
      then show ?thesis using x cl_invD(3) [OF assms(1) x(2)] by (auto simp: call_ok_def same)
    next
      case False
      then have "call_ok c j y" using 3 cl_invD(3) [OF assms(1), of j y] by (simp add: same)
      then show ?thesis using False assms(2) by (auto simp: call_ok_def same)
    qed
  next
    case (4 i j x y k)
    obtain x0 where x0: "cl_calls c i = Some x0" "c_num x0 = Some k" using old [OF 4(1)] 4(3) by auto
    obtain y0 where y0: "cl_calls c j = Some y0" "c_num y0 = Some k" using old [OF 4(2)] 4(4) by auto
    show ?case by (rule cl_invD(4) [OF assms(1) x0(1) y0(1) x0(2) y0(2)])
  next
    case (5 s j)
    then have "cl_pend c s = Some j" by (simp add: same)
    with cl_invD(5) [OF assms(1) this] assms(2) show ?case by (auto simp: same)
  next
    case (8 j y)
    obtain y0 where y0: "cl_calls c j = Some y0" "c_pc y0 = P_Sending" using old [OF 8(1)] 8(2) by auto
    from cl_invD(8) [OF assms(1) this] assms(3) show ?case by simp
  qed (use cl_invD(1) [OF assms(1)] in \<open>simp_all add: same\<close>)
qed

lemma cancel_inv:
  assumes "cl_inv c" and "cl_calls c i = Some x" and "c_pc x = P_Sent" and "cl_count c < 2 ^ 64"
  shows "cl_inv (Call_cancel i c)"
proof -
  let ?c = "Call_cancel i c" and ?x = "x\<lparr>c_cancelled := True\<rparr>"
  have calls: "cl_calls ?c = (cl_calls c)(i \<mapsto> ?x)" and same: "cl_pend ?c = (cl_pend c)(c_Seq x := None)"
    "cl_recv ?c = cl_recv c" "cl_count ?c = cl_count c" "cl_seq ?c = cl_seq c" "cl_shutdown ?c = cl_shutdown c"
    "cl_send ?c = cl_send c"
    using assms(2) by (simp_all add: Call_cancel_def removeCall_def)
  have ok: "call_ok c i x" using cl_invD(3) [OF assms(1,2)] .
  have only: "j = i" if p: "cl_pend c (c_Seq x) = Some j" for j
  proof -
    obtain y l where y: "cl_calls c j = Some y" "c_num y = Some l" "c_Seq y = c_Seq x"
      using cl_invD(5) [OF assms(1) p] by blast
    have yok: "1 \<le> l" "l \<le> cl_count c" "c_Seq y = word_of_nat l"
      using cl_invD(3) [OF assms(1) y(1)] y(2) by (auto simp: call_ok_def)
    show ?thesis
    proof (cases "c_num x")
      case None
      then have "word_of_nat l = (word_of_nat 0 :: uint64)" using ok y(3) yok(3) by (simp add: call_ok_def)
      then have "l = 0" using yok(2) assms(4) by (intro word_of_nat_inj_64) auto
      with yok(1) show ?thesis by simp
    next
      case (Some k)
      then show ?thesis using same_seq [OF assms(1,4) y(1) assms(2) y(2) _ y(3)] by blast
    qed
  qed
  show ?thesis
  proof (rule cl_invI, goal_cases)
    case (3 j y)
    show ?case
    proof (cases "j = i")
      case True
      then have "y = ?x" using 3 by (simp add: calls)
      with ok assms(3) True show ?thesis by (auto simp: call_ok_def same)
    next
      case False
      with 3 have "call_ok c j y" using cl_invD(3) [OF assms(1), of j y] by (simp add: calls)
      then show ?thesis using False only by (auto simp: call_ok_def same)
    qed
  next
    case (4 j j' y z k)
    from unique_upd [OF assms(1,2) _ calls 4] show ?case by simp
  next
    case (5 s j)
    then have p: "cl_pend c s = Some j" by (simp add: same split: if_splits)
    from cl_invD(5) [OF assms(1) p] assms(2) show ?case by (cases "j = i") (auto simp: calls same)
  next
    case (6 h j)
    then show ?case using cl_invD(6) [OF assms(1), of h j] assms(2) by (cases "j = i") (auto simp: calls same)
  next
    case (7 j)
    then show ?case using cl_invD(7) [OF assms(1), of j] assms(2) by (cases "j = i") (auto simp: calls same)
  next
    case (8 j y)
    then show ?case using cl_invD(8) [OF assms(1), of j] assms(2) by (cases "j = i") (auto simp: calls same)
  qed (use cl_invD(1,2,9) [OF assms(1)] in \<open>simp_all add: same\<close>)
qed

lemma terminate_count: "cl_count (terminateCalls e order c) = cl_count c"
proof -
  have "cl_count (fold (\<lambda>s d. case cl_pend d s of None \<Rightarrow> d | Some i \<Rightarrow> upd_call i (fail_call e) d) order d) =
      cl_count d" for d :: "'a client"
    by (induction order arbitrary: d) (auto split: option.split)
  then show ?thesis by (simp add: terminateCalls_def)
qed

lemma step_count:
  assumes "cl_step errorf c c'"
  shows "cl_count c \<le> cl_count c'"
  using assms
proof cases
  case (body h r res)
  then show ?thesis by (simp add: receive_body_def Let_def split: option.split sum.split)
qed (auto simp: Send_start_def registerCall_def Let_def Send_written_def Send_failed_def removeCall_def
    receive_header_def terminate_count Call_cancel_def Client_Close_def split: option.split)

lemma close_inv: "cl_inv c \<Longrightarrow> cl_inv (snd (Client_Close c))"
proof -
  assume inv: "cl_inv c"
  have "call_ok (c\<lparr>cl_closing := True\<rparr>) = call_ok c" by (simp add: call_ok_def fun_eq_iff)
  then have "cl_inv (c\<lparr>cl_closing := True\<rparr>)" using inv by (simp add: cl_inv_def)
  then show "cl_inv (snd (Client_Close c))" using inv by (simp add: Client_Close_def)
qed

lemma cl_step_inv:
  assumes "cl_step errorf c c'" and "cl_inv c" and "cl_count c' < 2 ^ 64"
  shows "cl_inv c'"
  using assms(1)
proof cases
  case (go i sm)
  then show ?thesis using go_inv [OF assms(2)] by simp
next
  case (send i x)
  then show ?thesis using send_inv [OF assms(2) send(2-4)] assms(3) by simp
next
  case (written i)
  then show ?thesis using written_inv [OF assms(2)] by simp
next
  case (failed i e)
  then show ?thesis using failed_inv [OF assms(2)] step_count [OF assms(1)] assms(3) by simp
next
  case (read_header h)
  then show ?thesis using header_inv [OF assms(2)] by simp
next
  case (header_error e)
  then show ?thesis using recv_inv [OF assms(2), of "R_Ended e"] by simp
next
  case (body h r res)
  then show ?thesis using body_inv [OF assms(2)] by simp
next
  case (terminate e order)
  then show ?thesis using terminate_inv [OF assms(2)] by simp
next
  case (cancel i x)
  then show ?thesis using cancel_inv [OF assms(2)] step_count [OF assms(1)] assms(3) by simp
next
  case close
  then show ?thesis using close_inv [OF assms(2)] by simp
qed

interpretation cl: machine "\<lambda>c. c = NewClientCodec" "cl_step errorf" "\<lambda>c. cl_count c < 2 ^ 64 \<longrightarrow> cl_inv c" for errorf
proof unfold_locales
  fix c c' :: "'v client"
  assume s: "cl_step errorf c c'" and "cl_count c < 2 ^ 64 \<longrightarrow> cl_inv c"
  then show "cl_count c' < 2 ^ 64 \<longrightarrow> cl_inv c'" using step_count [OF s] cl_step_inv [OF s] by simp
qed (simp add: start_inv)

lemma cl_reach_inv: "cl_reach errorf c \<Longrightarrow> cl_count c < 2 ^ 64 \<Longrightarrow> cl_inv c"
  using cl.inv_reached by blast

section \<open>Properties\<close>

text \<open>
  C10: Whatever the goroutines, the network and the server do, a call is completed at most once,
  so its channel never overflows; what completed it was a response with its own number; and no
  two registered calls share a number (as long as fewer than 2 to the 64 are made).
\<close>

theorem client_completes_once:
  assumes "cl_reach errorf c" and "cl_count c < 2 ^ 64" and "cl_calls c i = Some x"
  shows "c_Done x \<le> 1 \<and> (\<forall>h. c_from x = Some h \<longrightarrow> h_Seq h = c_Seq x) \<and>
    (\<forall>j y. cl_calls c j = Some y \<and> c_num x \<noteq> None \<and> c_num y \<noteq> None \<and> c_Seq y = c_Seq x \<longrightarrow> j = i)"
proof -
  note inv = cl_reach_inv [OF assms(1,2)]
  have "c_Done x \<le> 1" "\<forall>h. c_from x = Some h \<longrightarrow> h_Seq h = c_Seq x"
    using cl_invD(3) [OF inv assms(3)] by (auto simp: call_ok_def)
  moreover have "j = i" if "cl_calls c j = Some y" "c_num x = Some k" "c_num y = Some l" "c_Seq y = c_Seq x" for j y k l
    using same_seq [OF inv assms(2) that(1) assms(3) that(3,2,4)] .
  ultimately show ?thesis by blast
qed

text \<open>
  C12: No call is lost: a call that has been sent and not given up by its caller is done, or
  waits under its number for a response, or is in the hands of the reader; once the connection
  has failed and the reader has ended, every such call is done, so no caller waits for ever.
\<close>

theorem client_loses_no_call:
  assumes "cl_reach errorf c" and "cl_count c < 2 ^ 64" and "cl_calls c i = Some x"
    and "c_pc x = P_Sent" and "\<not> c_cancelled x"
  shows "c_Done x = 1 \<or> cl_recv c \<noteq> R_Dead \<and>
    (cl_pend c (c_Seq x) = Some i \<or> (\<exists>h. cl_recv c = R_Have h (Some i)))"
proof -
  note inv = cl_reach_inv [OF assms(1,2)]
  have ok: "call_ok c i x" by (rule cl_invD(3) [OF inv assms(3)])
  show ?thesis
  proof (cases "c_num x")
    case None
    then show ?thesis using ok assms(4) by (simp add: call_ok_def)
  next
    case (Some k)
    then consider "cl_pend c (c_Seq x) = Some i" | "\<exists>h. cl_recv c = R_Have h (Some i)" | "c_Done x = 1"
      using ok assms(5) by (auto simp: call_ok_def)
    then show ?thesis
    proof cases
      case 1
      then show ?thesis using cl_invD(5) [OF inv 1] assms(3) by (cases "cl_recv c = R_Dead") auto
    qed auto
  qed
qed

text \<open>Two calls sent, the second answered; then the connection fails.\<close>

definition demo_calls :: "nat client" where
  "demo_calls =
     (let c0 = NewClientCodec;
          c1 = c0\<lparr>cl_calls := (cl_calls c0)(0 \<mapsto> new_call ''Foo.Sum'')\<rparr>;
          c2 = Send_written 0 (Send_start 0 c1);
          c3 = c2\<lparr>cl_calls := (cl_calls c2)(1 \<mapsto> new_call ''Foo.Sum'')\<rparr>
      in Send_written 1 (Send_start 1 c3))"

definition demo_answered :: "nat client" where
  "demo_answered = receive_body id (demo_header ''Foo.Sum'' 2) (Some 1) (Inr 7)
     (receive_header (demo_header ''Foo.Sum'' 2) demo_calls)"

definition demo_dead :: "nat client" where
  "demo_dead = (terminateCalls ''EOF'' [1] (demo_answered\<lparr>cl_recv := R_Ended ''EOF''\<rparr>))\<lparr>cl_recv := R_Dead\<rparr>"

lemmas demo_defs = demo_calls_def demo_answered_def demo_dead_def NewClientCodec_def new_call_def Send_start_def
  registerCall_def Send_written_def upd_call_def receive_header_def receive_body_def removeCall_def after_body_def
  terminateCalls_def fail_call_def demo_header_def Let_def

lemma demo_calls_reach: "cl_reach id demo_calls"
proof -
  let ?c1 = "NewClientCodec\<lparr>cl_calls := (cl_calls NewClientCodec)(0 \<mapsto> new_call ''Foo.Sum'')\<rparr> :: nat client"
  let ?c2 = "Send_written 0 (Send_start 0 ?c1)"
  let ?c3 = "?c2\<lparr>cl_calls := (cl_calls ?c2)(1 \<mapsto> new_call ''Foo.Sum'')\<rparr>"
  have "cl_reach id ?c1"
    by (rule r_into_rtranclp, rule cl_step.go) (simp add: NewClientCodec_def)
  then have "cl_reach id (Send_start 0 ?c1)"
    by (rule reach_step, intro cl_step.send [where x = "new_call ''Foo.Sum''"]) (simp_all add: demo_defs)
  then have "cl_reach id ?c2"
    by (rule reach_step, intro cl_step.written) (simp add: demo_defs)
  then have "cl_reach id ?c3"
    by (rule reach_step, intro cl_step.go) (simp add: demo_defs)
  then have "cl_reach id (Send_start 1 ?c3)"
    by (rule reach_step, intro cl_step.send [where x = "new_call ''Foo.Sum''"]) (simp_all add: demo_defs)
  then have "cl_reach id (Send_written 1 (Send_start 1 ?c3))"
    by (rule reach_step, intro cl_step.written) (simp add: demo_defs)
  then show ?thesis by (simp add: demo_calls_def Let_def)
qed

lemma demo_dead_reach: "cl_reach id demo_dead"
proof -
  have "cl_reach id (receive_header (demo_header ''Foo.Sum'' 2) demo_calls)"
    by (rule reach_step [OF demo_calls_reach cl_step.read_header]) (simp add: demo_defs)
  then have "cl_reach id demo_answered"
    unfolding demo_answered_def by (rule reach_step, intro cl_step.body) (simp add: demo_defs)
  then have "cl_reach id (demo_answered\<lparr>cl_recv := R_Ended ''EOF''\<rparr>)"
    by (rule reach_step, intro cl_step.header_error) (simp add: demo_defs)
  then show ?thesis
    unfolding demo_dead_def by (rule reach_step, intro cl_step.terminate) (auto simp: demo_defs split: if_splits)
qed

theorem client_completes_once_witness:
  "\<exists>x. cl_calls demo_dead 1 = Some x \<and> c_Reply x = Some 7 \<and> c_Done x \<le> 1"
proof -
  obtain x where x: "cl_calls demo_dead 1 = Some x" "c_Reply x = Some 7" by (simp add: demo_defs)
  have "cl_count demo_dead < 2 ^ 64" by (simp add: demo_defs)
  from client_completes_once [OF demo_dead_reach this x(1)] x show ?thesis by blast
qed

theorem client_loses_no_call_witness:
  "\<exists>x. cl_calls demo_dead 0 = Some x \<and> c_Error x = Some ''EOF'' \<and> c_Done x = 1"
proof -
  obtain x where x: "cl_calls demo_dead 0 = Some x" "c_Error x = Some ''EOF''" "c_pc x = P_Sent" "\<not> c_cancelled x"
    by (simp add: demo_defs)
  have "cl_count demo_dead < 2 ^ 64" "cl_recv demo_dead = R_Dead" by (simp_all add: demo_defs)
  from client_loses_no_call [OF demo_dead_reach this(1) x(1,3,4)] this(2) x show ?thesis by auto
qed

end
