(* ===== verification/Rpc_Registry.thy ===== *)
theory Rpc_Registry
  imports Go_Strings Machine "HOL-Library.List_Lexorder" "HOL-Library.Char_ord"
begin

text \<open>
  MyRPC/registry/registry.go: the registry keeps the time of the last heartbeat of each server
  and answers a GET with the servers that are not too old. Times are numbers of nanoseconds.
  A method runs under the mutex of the registry and is one step; within \<open>aliveServers\<close> the
  clock is read anew for each address, and the map is walked in an order that Go leaves open,
  so both are arguments: \<open>clock a\<close> is the time read at address \<open>a\<close>, and \<open>order\<close> enumerates the
  addresses. The last section models the heartbeats that a server sends.
\<close>

section \<open>State and operations\<close>

record server_item =
  srv_Addr :: string
  srv_start :: int

record my_registry =
  reg_timeout :: int
  reg_servers :: "string \<Rightarrow> server_item option"

definition minute :: int where
  "minute = 60 * 10 ^ 9"

definition defaultTimeout :: int where
  "defaultTimeout = minute * 5"

definition registry_New :: "int \<Rightarrow> my_registry" where
  "registry_New timeout = \<lparr>reg_timeout = timeout, reg_servers = Map.empty\<rparr>"

definition putServer :: "string \<Rightarrow> int \<Rightarrow> my_registry \<Rightarrow> my_registry" where
  "putServer addr now r =
     (case reg_servers r addr of
        None \<Rightarrow> r\<lparr>reg_servers := (reg_servers r)(addr \<mapsto> \<lparr>srv_Addr = addr, srv_start = now\<rparr>)\<rparr>
      | Some s \<Rightarrow> r\<lparr>reg_servers := (reg_servers r)(addr \<mapsto> s\<lparr>srv_start := now\<rparr>)\<rparr>)"

text \<open>The body of the loop and the loop; deleting the current entry is all it does to the map.\<close>

definition alive_visit ::
  "(string \<Rightarrow> int) \<Rightarrow> string \<Rightarrow> string list \<times> my_registry \<Rightarrow> string list \<times> my_registry" where
  "alive_visit clock addr = (\<lambda>(alive, r).
     case reg_servers r addr of
       None \<Rightarrow> (alive, r)
     | Some s \<Rightarrow>
         if reg_timeout r = 0 \<or> clock addr < srv_start s + reg_timeout r then (alive @ [addr], r)
         else (alive, r\<lparr>reg_servers := (reg_servers r)(addr := None)\<rparr>))"

definition aliveServers ::
  "string list \<Rightarrow> (string \<Rightarrow> int) \<Rightarrow> my_registry \<Rightarrow> string list \<times> my_registry" where
  "aliveServers order clock r =
     (let (alive, r1) = fold (alive_visit clock) order ([], r) in (sort alive, r1))"

record reg_request =
  req_Method :: string
  req_Server :: string

record reg_response =
  rs_status :: nat
  rs_Servers :: "string option"

definition reg_ServeHTTP ::
  "reg_request \<Rightarrow> string list \<Rightarrow> (string \<Rightarrow> int) \<Rightarrow> my_registry \<Rightarrow> reg_response \<times> my_registry" where
  "reg_ServeHTTP req order clock r =
     (if req_Method req = ''GET'' then
        let (alive, r1) = aliveServers order clock r
        in (\<lparr>rs_status = 200, rs_Servers = Some (strings_Join alive (CHR '',''))\<rparr>, r1)
      else if req_Method req = ''POST'' then
        let addr = req_Server req
        in if addr = '''' then (\<lparr>rs_status = 500, rs_Servers = None\<rparr>, r)
           else (\<lparr>rs_status = 200, rs_Servers = None\<rparr>, putServer addr (clock addr) r)
      else (\<lparr>rs_status = 405, rs_Servers = None\<rparr>, r))"

section \<open>What a request answers and leaves\<close>

definition enumerates :: "string list \<Rightarrow> my_registry \<Rightarrow> bool" where
  "enumerates order r \<longleftrightarrow> distinct order \<and> set order = dom (reg_servers r)"

definition fresh :: "(string \<Rightarrow> int) \<Rightarrow> my_registry \<Rightarrow> string \<Rightarrow> bool" where
  "fresh clock r a \<longleftrightarrow> (case reg_servers r a of None \<Rightarrow> False
     | Some s \<Rightarrow> reg_timeout r = 0 \<or> clock a < srv_start s + reg_timeout r)"

lemma alive_fold:
  assumes "distinct order"
  shows "fold (alive_visit clock) order (acc, r) =
    (acc @ filter (fresh clock r) order,
     r\<lparr>reg_servers := (\<lambda>a. if a \<in> set order \<and> \<not> fresh clock r a then None else reg_servers r a)\<rparr>)"
  using assms
proof (induction order arbitrary: acc r)
  case Nil
  then show ?case by simp
next
  case (Cons a order)
  let ?r = "r\<lparr>reg_servers := (reg_servers r)(a := None)\<rparr>"
  have same: "b \<in> set order \<Longrightarrow> fresh clock ?r b = fresh clock r b" for b
    using Cons.prems by (cases "b = a") (simp_all add: fresh_def split: option.split)
  have "fresh clock r a \<Longrightarrow> alive_visit clock a (acc, r) = (acc @ [a], r)"
    by (auto simp: alive_visit_def fresh_def split: option.splits)
  moreover have "\<not> fresh clock r a \<Longrightarrow> alive_visit clock a (acc, r) = (acc, ?r)"
    by (auto simp: alive_visit_def fresh_def fun_upd_idem split: option.splits intro!: my_registry.equality)
  moreover have "filter (fresh clock ?r) order = filter (fresh clock r) order"
    using same by (rule filter_cong [OF refl])
  ultimately show ?case
    using Cons same
    by (cases "fresh clock r a") (auto intro!: my_registry.equality simp: fun_eq_iff)
qed

lemma aliveServers_eq:
  assumes "enumerates order r"
  shows "fst (aliveServers order clock r) = sorted_list_of_set {a. fresh clock r a}"
    and "snd (aliveServers order clock r) =
      r\<lparr>reg_servers := (\<lambda>a. if fresh clock r a then reg_servers r a else None)\<rparr>"
proof -
  have d: "distinct order" "set order = dom (reg_servers r)" using assms by (simp_all add: enumerates_def)
  let ?f = "filter (fresh clock r) order"
  have "{a. fresh clock r a} = set ?f"
    using d(2) by (auto simp: fresh_def split: option.splits)
  moreover have "sorted_list_of_set (set ?f) = sort ?f"
    using d(1) by (simp only: sorted_list_of_set_sort_remdups distinct_filter distinct_remdups_id)
  moreover have "fst (aliveServers order clock r) = sort ?f"
    using d(1) by (simp add: aliveServers_def alive_fold)
  ultimately show "fst (aliveServers order clock r) = sorted_list_of_set {a. fresh clock r a}"
    by simp
  show "snd (aliveServers order clock r) =
      r\<lparr>reg_servers := (\<lambda>a. if fresh clock r a then reg_servers r a else None)\<rparr>"
    using d by (auto simp: aliveServers_def alive_fold fun_eq_iff dom_def intro!: my_registry.equality)
qed

section \<open>Histories\<close>

text \<open>
  All requests a registry has answered so far, in the order of time: \<open>h\<close> lists the heartbeats,
  newest first, and \<open>t\<close> is a time not before any of them.
\<close>

inductive reg_history :: "int \<Rightarrow> (string \<times> int) list \<Rightarrow> int \<Rightarrow> my_registry \<Rightarrow> bool" for T :: int where
  start: "reg_history T [] t (registry_New T)"
| request: "reg_history T h t r \<Longrightarrow> enumerates order r \<Longrightarrow> \<forall>a. t \<le> clock a \<and> clock a \<le> t' \<Longrightarrow>
     reg_ServeHTTP req order clock r = (resp, r') \<Longrightarrow>
     reg_history T (if req_Method req = ''POST'' \<and> req_Server req \<noteq> ''''
                    then (req_Server req, clock (req_Server req)) # h else h) t' r'"

definition last_beat :: "(string \<times> int) list \<Rightarrow> string \<Rightarrow> int option" where
  "last_beat h = map_of h"

definition tracked :: "int \<Rightarrow> int \<Rightarrow> int option \<Rightarrow> server_item option \<Rightarrow> bool" where
  "tracked T t beat item = (case item of
     Some s \<Rightarrow> beat = Some (srv_start s)
   | None \<Rightarrow> (case beat of None \<Rightarrow> True | Some b \<Rightarrow> T \<noteq> 0 \<and> b + T \<le> t))"

lemma tracked_mono: "tracked T t b s \<Longrightarrow> t \<le> t' \<Longrightarrow> tracked T t' b s"
  by (auto simp: tracked_def split: option.splits)

lemma tracked_drop:
  assumes "tracked T t (last_beat h a) (reg_servers r a)" and "reg_timeout r = T"
    and "t \<le> clock a" and "clock a \<le> t'" and "\<not> fresh clock r a"
  shows "tracked T t' (last_beat h a) None"
  using assms by (auto simp: tracked_def fresh_def split: option.splits)

lemma history_servers:
  assumes "reg_history T h t r"
  shows "reg_timeout r = T \<and> (\<forall>a. tracked T t (last_beat h a) (reg_servers r a))"
  using assms
proof (induction rule: reg_history.induct)
  case (start t)
  then show ?case by (simp add: registry_New_def last_beat_def tracked_def)
next
  case (request h t r order clock t' req resp r')
  have le: "t \<le> clock a" "clock a \<le> t'" for a using request.hyps by auto
  then have "t \<le> t'" by (meson order_trans)
  note IH = conjunct1 [OF request.IH] conjunct2 [OF request.IH, rule_format]
  show ?case
  proof (cases "req_Method req = ''POST'' \<and> req_Server req \<noteq> ''''")
    case True
    then have "r' = putServer (req_Server req) (clock (req_Server req)) r"
      using request.hyps by (auto simp: reg_ServeHTTP_def Let_def)
    with True IH(1) tracked_mono [OF IH(2) \<open>t \<le> t'\<close>] show ?thesis
      by (simp add: putServer_def last_beat_def tracked_def split: option.split)
  next
    case other: False
    show ?thesis
    proof (cases "req_Method req = ''GET''")
      case True
      then have "r' = snd (aliveServers order clock r)"
        using request.hyps by (auto simp: reg_ServeHTTP_def Let_def split: prod.splits)
      then have "r' = r\<lparr>reg_servers := (\<lambda>a. if fresh clock r a then reg_servers r a else None)\<rparr>"
        using aliveServers_eq(2) [OF request.hyps(2)] by simp
      with True IH(1) tracked_mono [OF IH(2) \<open>t \<le> t'\<close>] tracked_drop [OF IH(2,1) le]
      show ?thesis by simp
    next
      case False
      then have "r' = r" using other request.hyps by (auto simp: reg_ServeHTTP_def Let_def split: if_splits)
      with other IH(1) tracked_mono [OF IH(2) \<open>t \<le> t'\<close>] show ?thesis by auto
    qed
  qed
qed

section \<open>Heartbeats\<close>

text \<open>
  The goroutine that \<open>Heartbeat\<close> starts. The ticker has a channel of one place that it fills
  each period as long as it runs; a tick that finds the place taken is dropped. \<open>Stop\<close> stops
  the ticker and leaves the channel as it is. \<open>hb_sent\<close> counts the heartbeats sent.
\<close>

datatype hb_pc = Hb_Loop | Hb_Wait | Hb_Send | Hb_Done

record heartbeat =
  hb_pc :: hb_pc
  hb_err :: bool
  hb_running :: bool
  hb_queued :: bool
  hb_sent :: nat

definition defaultPath :: string where
  "defaultPath = ''/_myrpc_/registry''"

text \<open>
  \<open>url_ok\<close> says that a URL can be parsed: if not, the request is nil and setting its header panics.
  \<open>Do\<close> gives an error only if no answer comes; its status is not looked at.
\<close>

definition sendHeartbeat ::
  "(string \<Rightarrow> bool) \<Rightarrow> (string \<Rightarrow> reg_request \<Rightarrow> 'w \<Rightarrow> string option \<times> 'w) \<Rightarrow> string \<Rightarrow> string \<Rightarrow> 'w \<Rightarrow>
   string option outcome \<times> 'w" where
  "sendHeartbeat url_ok Do registry addr w =
     (if \<not> url_ok registry then (Panic nil_pointer, w)
      else case Do registry \<lparr>req_Method = ''POST'', req_Server = addr\<rparr> w of
        (Some e, w1) \<Rightarrow> (Ret (Some e), w1)
      | (None, w1) \<Rightarrow> (Ret None, w1))"

definition heartbeat_period :: "int \<Rightarrow> int" where
  "heartbeat_period duration = (if duration = 0 then defaultTimeout - 1 * minute else duration)"

text \<open>The first heartbeat is sent before the goroutine starts; the argument is its error.\<close>

definition Heartbeat_start :: "bool \<Rightarrow> heartbeat" where
  "Heartbeat_start e =
     \<lparr>hb_pc = Hb_Loop, hb_err = e, hb_running = True, hb_queued = False, hb_sent = 1\<rparr>"

inductive hb_step :: "heartbeat \<Rightarrow> heartbeat \<Rightarrow> bool" where
  tick: "hb_running s \<Longrightarrow> hb_step s (s\<lparr>hb_queued := True\<rparr>)"
| check: "hb_pc s = Hb_Loop \<Longrightarrow> hb_step s (s\<lparr>hb_pc := (if hb_err s then Hb_Done else Hb_Wait)\<rparr>)"
| receive: "hb_pc s = Hb_Wait \<Longrightarrow> hb_queued s \<Longrightarrow>
     hb_step s (s\<lparr>hb_pc := Hb_Send, hb_queued := False\<rparr>)"
| send: "hb_pc s = Hb_Send \<Longrightarrow>
     hb_step s (s\<lparr>hb_pc := Hb_Loop, hb_err := e, hb_running := False, hb_sent := Suc (hb_sent s)\<rparr>)"

definition hb_reach :: "heartbeat \<Rightarrow> bool" where
  "hb_reach s \<longleftrightarrow> (\<exists>e. hb_step\<^sup>*\<^sup>* (Heartbeat_start e) s)"

lemma hb_reach_intros: "hb_reach (Heartbeat_start e)" "hb_reach s \<Longrightarrow> hb_step s s' \<Longrightarrow> hb_reach s'"
  unfolding hb_reach_def by (blast intro: reach_refl reach_step)+

text \<open>What can still be sent: the heartbeat under way, a queued tick, and a tick to come.\<close>

definition hb_budget :: "heartbeat \<Rightarrow> nat" where
  "hb_budget s = hb_sent s + (if hb_pc s = Hb_Send then 1 else 0) + (if hb_queued s then 1 else 0) +
     (if hb_running s \<and> \<not> hb_queued s then 1 else 0) + (if hb_running s \<and> hb_pc s \<noteq> Hb_Send then 1 else 0)"

lemma hb_step_budget: "hb_step s s' \<Longrightarrow> hb_budget s' \<le> hb_budget s"
  by (erule hb_step.cases) (auto simp: hb_budget_def)

interpretation hb: machine "\<lambda>s. \<exists>e. s = Heartbeat_start e" hb_step "\<lambda>s. hb_budget s \<le> 3"
proof unfold_locales
  fix s s'
  assume "hb_step s s'" and "hb_budget s \<le> 3"
  then show "hb_budget s' \<le> 3" using hb_step_budget [of s s'] by simp
qed (auto simp: hb_budget_def Heartbeat_start_def)

lemma hb_reach_budget: "hb_reach s \<Longrightarrow> hb_budget s \<le> 3"
  unfolding hb_reach_def using hb.inv_reached by blast

lemma hb_sent_mono: "hb_step s s' \<Longrightarrow> hb_sent s \<le> hb_sent s'"
  by (erule hb_step.cases) auto

text \<open>A heartbeat that the registry gets is a heartbeat it remembers.\<close>

lemma heartbeat_registers:
  assumes "url_ok registry" and "addr \<noteq> ''''"
    and "\<And>req r. Do registry req r = (None, snd (reg_ServeHTTP req [] (\<lambda>_. now) r))"
  shows "sendHeartbeat url_ok Do registry addr r = (Ret None, putServer addr now r)"
  using assms by (simp add: sendHeartbeat_def reg_ServeHTTP_def Let_def)

section \<open>Properties\<close>

text \<open>
  C20: Whatever requests the registry has answered, a GET lists exactly the servers whose last
  heartbeat is younger than the timeout (all that ever sent one, with timeout 0), sorted and
  without repetitions; the order in which Go walks the map plays no role, and a server that
  was dropped comes back with its next heartbeat.
\<close>

theorem registry_lists_recently_seen:
  assumes "reg_history T h t r" and "enumerates order r" and "\<forall>a. t \<le> clock a"
  shows "\<exists>l. fst (reg_ServeHTTP \<lparr>req_Method = ''GET'', req_Server = x\<rparr> order clock r) =
      \<lparr>rs_status = 200, rs_Servers = Some (strings_Join l (CHR '',''))\<rparr> \<and> sorted l \<and> distinct l \<and>
    set l = {a. case last_beat h a of None \<Rightarrow> False | Some b \<Rightarrow> T = 0 \<or> clock a < b + T}"
proof -
  have T: "reg_timeout r = T" and inv: "tracked T t (last_beat h a) (reg_servers r a)" for a
    using history_servers [OF assms(1)] by simp_all
  have "fresh clock r a \<longleftrightarrow> (case last_beat h a of None \<Rightarrow> False | Some b \<Rightarrow> T = 0 \<or> clock a < b + T)" for a
    using T assms(3) [rule_format, of a] inv [of a]
    by (auto simp: fresh_def tracked_def split: option.splits)
  moreover have "finite {a. fresh clock r a}"
    using assms(2) by (auto simp: enumerates_def fresh_def split: option.splits
        intro!: finite_subset [of _ "set order"])
  ultimately show ?thesis
    using aliveServers_eq(1) [OF assms(2), of clock]
    by (intro exI [of _ "sorted_list_of_set {a. fresh clock r a}"])
      (auto simp: reg_ServeHTTP_def Let_def split: prod.split)
qed

text \<open>Two servers report at times 1 and 4; the list is asked for at time 7, with a timeout of 5.\<close>

definition demo_registry :: my_registry where
  "demo_registry = putServer ''s2'' 4 (putServer ''s1'' 1 (registry_New 5))"

lemma demo_history: "reg_history 5 [(''s2'', 4), (''s1'', 1)] 4 demo_registry"
proof -
  let ?post = "\<lambda>a. \<lparr>req_Method = ''POST'', req_Server = a\<rparr>"
  have "reg_history 5 [(''s1'', 1)] 1 (putServer ''s1'' 1 (registry_New 5))"
    using reg_history.request [OF reg_history.start [of 5 0], of "[]" "\<lambda>_. 1" 1 "?post ''s1''"]
    by (simp add: reg_ServeHTTP_def enumerates_def registry_New_def Let_def)
  from reg_history.request [OF this, of "[''s1'']" "\<lambda>_. 4" 4 "?post ''s2''"]
  show ?thesis
    by (simp add: reg_ServeHTTP_def enumerates_def registry_New_def putServer_def demo_registry_def Let_def)
qed

theorem registry_lists_recently_seen_witness:
  "\<exists>l. fst (reg_ServeHTTP \<lparr>req_Method = ''GET'', req_Server = ''''\<rparr> [''s1'', ''s2''] (\<lambda>_. 7) demo_registry) =
      \<lparr>rs_status = 200, rs_Servers = Some (strings_Join l (CHR '',''))\<rparr> \<and> distinct l \<and> set l = {''s2''}"
proof -
  have "enumerates [''s1'', ''s2''] demo_registry"
    by (auto simp: enumerates_def demo_registry_def putServer_def registry_New_def)
  moreover have "{a. case last_beat [(''s2'', 4), (''s1'', 1)] a of None \<Rightarrow> False
      | Some b \<Rightarrow> (5::int) = 0 \<or> 7 < b + 5} = {''s2''}"
    by (auto simp: last_beat_def split: if_splits)
  ultimately show ?thesis
    using registry_lists_recently_seen [OF demo_history, of "[''s1'', ''s2'']" "\<lambda>_. 7" "''''"] by auto
qed

text \<open>
  The heartbeat goroutine stops its ticker after the first tick it takes, so whatever the
  timing a server sends at most three heartbeats in its life, although none failed; then it
  waits for a tick that cannot come, and the registry drops the server when the last one is
  older than the timeout.
\<close>

theorem Heartbeat_at_most_three:
  assumes "hb_reach s"
  shows "hb_sent s \<le> 3 \<and>
    ((\<not> hb_running s \<and> \<not> hb_queued s \<and> hb_pc s = Hb_Wait) \<longrightarrow> (\<nexists>s'. hb_step s s'))"
proof
  show "hb_sent s \<le> 3" using hb_reach_budget [OF assms] by (simp add: hb_budget_def)
  show "(\<not> hb_running s \<and> \<not> hb_queued s \<and> hb_pc s = Hb_Wait) \<longrightarrow> (\<nexists>s'. hb_step s s')"
    by (auto elim: hb_step.cases)
qed

text \<open>One tick after the start, no error, and the goroutine waits for ever.\<close>

definition hb_stuck :: heartbeat where
  "hb_stuck = \<lparr>hb_pc = Hb_Wait, hb_err = False, hb_running = False, hb_queued = False, hb_sent = 2\<rparr>"

lemma hb_stuck_reached: "hb_reach hb_stuck"
proof -
  let ?s = "\<lambda>pc run q n. \<lparr>hb_pc = pc, hb_err = False, hb_running = run, hb_queued = q, hb_sent = n\<rparr>"
  have "hb_reach (?s Hb_Loop True False 1)"
    using hb_reach_intros(1) [of False] by (simp add: Heartbeat_start_def)
  from hb_reach_intros(2) [OF this hb_step.check] have "hb_reach (?s Hb_Wait True False 1)" by simp
  from hb_reach_intros(2) [OF this hb_step.tick] have "hb_reach (?s Hb_Wait True True 1)" by simp
  from hb_reach_intros(2) [OF this hb_step.receive] have "hb_reach (?s Hb_Send True False 1)" by simp
  from hb_reach_intros(2) [OF this hb_step.send [where e = False]] have "hb_reach (?s Hb_Loop False False 2)"
    by (simp add: eval_nat_numeral)
  from hb_reach_intros(2) [OF this hb_step.check] show ?thesis by (simp add: hb_stuck_def)
qed

theorem Heartbeat_at_most_three_witness: "hb_err hb_stuck = False \<and> (\<nexists>s'. hb_step hb_stuck s')"
  using Heartbeat_at_most_three [OF hb_stuck_reached] by (simp add: hb_stuck_def)

end
