(* ===== verification/Discovery_Interface.thy ===== *)
theory Discovery_Interface
  imports Prelude
begin

text \<open>
  The contract between a service discovery and the client that uses it. The client relies on
  two things: a server it is given is one of the servers known at that moment, and the list of
  all servers is the list of those. An error is \<open>Inl\<close>. \<open>ok\<close> is what a discovery needs itself.
\<close>

locale discovery =
  fixes ok :: bool
    and servers :: "'d \<Rightarrow> string list"
    and get :: "int \<Rightarrow> 'd \<Rightarrow> (string + string) \<times> 'd"
    and get_all :: "'d \<Rightarrow> (string + string list) \<times> 'd"
  assumes get_member: "ok \<Longrightarrow> get m d = (Inr s, d') \<Longrightarrow> s \<in> set (servers d')"
    and get_all_servers: "get_all d = (Inr ss, d') \<Longrightarrow> ss = servers d'"
begin

lemma get_Inr: "ok \<Longrightarrow> fst (get m d) = Inr s \<Longrightarrow> s \<in> set (servers (snd (get m d)))"
  using get_member [of m d s "snd (get m d)"] by (simp add: prod_eq_iff)

lemma get_all_Inr: "fst (get_all d) = Inr ss \<Longrightarrow> ss = servers (snd (get_all d))"
  using get_all_servers [of d ss "snd (get_all d)"] by (simp add: prod_eq_iff)

text \<open>With no server known, none can be picked.\<close>

lemma none_known: "ok \<Longrightarrow> servers (snd (get m d)) = [] \<Longrightarrow> \<exists>e. fst (get m d) = Inl e"
  using get_Inr [of m d] by (cases "fst (get m d)") auto

end

end
