(* ===== verification/Rpc_Discovery.thy ===== *)
theory Rpc_Discovery
  imports Rpc_Registry Discovery_Interface
begin

text \<open>
  MyRPC/xclient/discovery.go and MyRPC/xclient/discovery_my.go: the two service discoveries of
  the client, one with a list of servers that the user gives, one that fetches the list from
  the registry and keeps it for a while. Every method runs under the mutex. The random source
  is a parameter, \<open>intn n\<close>; the clock is read where the code reads it and its readings are
  arguments. The value of the header that a GET of the registry returns is the network's.
\<close>

section \<open>A given list of servers\<close>

record 'r multi_discovery =
  ran :: 'r
  disc_servers :: "string list"
  disc_index :: nat

type_synonym 'r random_source = "nat \<Rightarrow> 'r \<Rightarrow> nat \<times> 'r"

definition RandomSelect :: int where
  "RandomSelect = 0"

definition RoundRobinSelect :: int where
  "RoundRobinSelect = 1"

definition no_server :: string where
  "no_server = ''rpc discovery: '' @ [CHR 0xE6, CHR 0xB2, CHR 0xA1, CHR 0xE6, CHR 0x9C, CHR 0x89,
     CHR 0xE5, CHR 0x8F, CHR 0xAF, CHR 0xE7, CHR 0x94, CHR 0xA8, CHR 0xE7, CHR 0x9A, CHR 0x84,
     CHR 0xE6, CHR 0x9C, CHR 0x8D, CHR 0xE5, CHR 0x8A, CHR 0xA1, CHR 0xE5, CHR 0x99, CHR 0xA8]"

definition bad_mode :: string where
  "bad_mode = ''rpc discovery: '' @ [CHR 0xE4, CHR 0xB8, CHR 0x8D, CHR 0xE6, CHR 0x94, CHR 0xAF,
     CHR 0xE6, CHR 0x8C, CHR 0x81, CHR 0xE7, CHR 0x9A, CHR 0x84] @ ''Select'' @
     [CHR 0xE6, CHR 0xA8, CHR 0xA1, CHR 0xE5, CHR 0xBC, CHR 0x8F]"

definition NewMultiServerDiscovery ::
  "'r random_source \<Rightarrow> 'r \<Rightarrow> string list \<Rightarrow> 'r multi_discovery" where
  "NewMultiServerDiscovery intn seed servers =
     (let d = \<lparr>ran = seed, disc_servers = servers, disc_index = 0\<rparr>;
          (i, g) = intn (2 ^ 31 - 1 - 1) (ran d)
      in d\<lparr>disc_index := i, ran := g\<rparr>)"

definition multi_Refresh :: "'r multi_discovery \<Rightarrow> string option \<times> 'r multi_discovery" where
  "multi_Refresh d = (None, d)"

definition multi_Update :: "string list \<Rightarrow> 'r multi_discovery \<Rightarrow> string option \<times> 'r multi_discovery" where
  "multi_Update servers d = (None, d\<lparr>disc_servers := servers\<rparr>)"

definition multi_Get ::
  "'r random_source \<Rightarrow> int \<Rightarrow> 'r multi_discovery \<Rightarrow> (string + string) \<times> 'r multi_discovery" where
  "multi_Get intn mode d =
     (let n = length (disc_servers d)
      in if n = 0 then (Inl no_server, d)
         else if mode = RandomSelect then
           let (i, g) = intn n (ran d) in (Inr (disc_servers d ! i), d\<lparr>ran := g\<rparr>)
         else if mode = RoundRobinSelect then
           let s = disc_servers d ! (disc_index d mod n)
           in (Inr s, d\<lparr>disc_index := (disc_index d + 1) mod n\<rparr>)
         else (Inl bad_mode, d))"

definition multi_GetAll :: "'r multi_discovery \<Rightarrow> (string + string list) \<times> 'r multi_discovery" where
  "multi_GetAll d = (Inr (disc_servers d), d)"

section \<open>The servers of a registry\<close>

record 'r registry_discovery =
  embedded :: "'r multi_discovery"
  rd_registry :: string
  rd_timeout :: int
  rd_lastUpdate :: int

text \<open>A GET returns an error, or the value of the header \<open>X-MyRPC-Servers\<close>, empty if missing.\<close>

type_synonym 'w registry_get = "string \<Rightarrow> 'w \<Rightarrow> (string + string) \<times> 'w"

definition second :: int where
  "second = 10 ^ 9"

text \<open>The zero value of Go's \<open>time.Time\<close>: the first of January of year 1.\<close>

definition zero_time :: int where
  "zero_time = - 62135596800 * second"

definition defaultUpdateTimeout :: int where
  "defaultUpdateTimeout = second * 10"

definition NewMyRegistryDiscovery ::
  "'r random_source \<Rightarrow> 'r \<Rightarrow> string \<Rightarrow> int \<Rightarrow> 'r registry_discovery" where
  "NewMyRegistryDiscovery intn seed registerAddr timeout0 =
     (let timeout = (if timeout0 = 0 then defaultUpdateTimeout else timeout0)
      in \<lparr>embedded = NewMultiServerDiscovery intn seed [], rd_registry = registerAddr,
          rd_timeout = timeout, rd_lastUpdate = zero_time\<rparr>)"

definition rd_set_servers :: "string list \<Rightarrow> 'r registry_discovery \<Rightarrow> 'r registry_discovery" where
  "rd_set_servers ss d = d\<lparr>embedded := (embedded d)\<lparr>disc_servers := ss\<rparr>\<rparr>"

definition rd_Update ::
  "int \<Rightarrow> string list \<Rightarrow> 'r registry_discovery \<Rightarrow> string option \<times> 'r registry_discovery" where
  "rd_Update now servers d = (None, (rd_set_servers servers d)\<lparr>rd_lastUpdate := now\<rparr>)"

definition kept_servers :: "string list \<Rightarrow> string list" where
  "kept_servers servers =
     fold (\<lambda>server acc. if strings_TrimSpace server \<noteq> '''' then acc @ [strings_TrimSpace server] else acc)
       servers []"

definition rd_Refresh ::
  "'w registry_get \<Rightarrow> int \<Rightarrow> int \<Rightarrow> 'r registry_discovery \<times> 'w \<Rightarrow>
   string option \<times> 'r registry_discovery \<times> 'w" where
  "rd_Refresh http_Get now now' = (\<lambda>(d, w).
     if now < rd_lastUpdate d + rd_timeout d then (None, d, w)
     else
       case http_Get (rd_registry d) w of
         (Inl e, w1) \<Rightarrow> (Some e, d, w1)
       | (Inr hdr, w1) \<Rightarrow>
           let servers = strings_Split (CHR '','') hdr;
               d1 = rd_set_servers (kept_servers servers) d
           in (None, d1\<lparr>rd_lastUpdate := now'\<rparr>, w1))"

definition rd_Get ::
  "'w registry_get \<Rightarrow> 'r random_source \<Rightarrow> int \<Rightarrow> int \<Rightarrow> int \<Rightarrow> 'r registry_discovery \<times> 'w \<Rightarrow>
   (string + string) \<times> 'r registry_discovery \<times> 'w" where
  "rd_Get http_Get intn now now' mode s =
     (case rd_Refresh http_Get now now' s of
        (Some e, s1) \<Rightarrow> (Inl e, s1)
      | (None, d1, w1) \<Rightarrow>
          let (r, m) = multi_Get intn mode (embedded d1) in (r, d1\<lparr>embedded := m\<rparr>, w1))"

definition rd_GetAll ::
  "'w registry_get \<Rightarrow> int \<Rightarrow> int \<Rightarrow> 'r registry_discovery \<times> 'w \<Rightarrow>
   (string + string list) \<times> 'r registry_discovery \<times> 'w" where
  "rd_GetAll http_Get now now' s =
     (case rd_Refresh http_Get now now' s of
        (Some e, s1) \<Rightarrow> (Inl e, s1)
      | (None, d1, w1) \<Rightarrow>
          let (r, m) = multi_GetAll (embedded d1) in (r, d1\<lparr>embedded := m\<rparr>, w1))"

section \<open>Both are service discoveries\<close>

text \<open>What Go documents of \<open>Intn\<close>: its result is below its argument.\<close>

definition intn_ok :: "'r random_source \<Rightarrow> bool" where
  "intn_ok intn \<longleftrightarrow> (\<forall>n g. 0 < n \<longrightarrow> fst (intn n g) < n)"

lemma multi_Get_member:
  assumes "intn_ok intn" and "multi_Get intn m d = (Inr s, d')"
  shows "s \<in> set (disc_servers d') \<and> disc_servers d' = disc_servers d"
proof -
  obtain i g where i: "intn (length (disc_servers d)) (ran d) = (i, g)" by fastforce
  then have "disc_servers d \<noteq> [] \<Longrightarrow> i < length (disc_servers d)"
    using assms(1) unfolding intn_ok_def by (metis fst_conv length_greater_0_conv)
  then show ?thesis
    using assms(2) by (auto simp: multi_Get_def Let_def i split: if_splits)
qed

interpretation md: discovery "intn_ok intn" disc_servers "multi_Get intn" multi_GetAll for intn
  by unfold_locales (auto simp: multi_GetAll_def dest: multi_Get_member)

interpretation rd: discovery "intn_ok intn" "\<lambda>s. disc_servers (embedded (fst s))"
  "rd_Get http_Get intn now now'" "rd_GetAll http_Get now now'" for http_Get intn now now'
proof unfold_locales
  fix m s x s'
  assume "intn_ok intn" and "rd_Get http_Get intn now now' m s = (Inr x, s')"
  then show "x \<in> set (disc_servers (embedded (fst s')))"
    by (auto simp: rd_Get_def split: prod.splits option.splits dest: multi_Get_member)
next
  fix s ss s'
  assume "rd_GetAll http_Get now now' s = (Inr ss, s')"
  then show "ss = disc_servers (embedded (fst s'))"
    by (auto simp: rd_GetAll_def multi_GetAll_def split: prod.splits option.splits)
qed

section \<open>Round robin\<close>

text \<open>The results of a number of \<open>Get\<close> calls in a row, in the mode \<open>RoundRobinSelect\<close>.\<close>

fun rr_Gets :: "'r random_source \<Rightarrow> nat \<Rightarrow> 'r multi_discovery \<Rightarrow> (string + string) list" where
  "rr_Gets intn 0 d = []"
| "rr_Gets intn (Suc k) d =
     (let (r, d1) = multi_Get intn RoundRobinSelect d in r # rr_Gets intn k d1)"

lemma rr_Get:
  assumes "disc_servers d \<noteq> []"
  shows "multi_Get intn RoundRobinSelect d =
    (Inr (disc_servers d ! (disc_index d mod length (disc_servers d))),
     d\<lparr>disc_index := (disc_index d + 1) mod length (disc_servers d)\<rparr>)"
  using assms by (simp add: multi_Get_def Let_def RandomSelect_def RoundRobinSelect_def)

lemma rr_Gets_nth:
  assumes "disc_servers d \<noteq> []"
  shows "rr_Gets intn k d =
    map (\<lambda>j. Inr (disc_servers d ! ((disc_index d + j) mod length (disc_servers d)))) [0..<k]"
  using assms
proof (induction k arbitrary: d)
  case 0
  then show ?case by simp
next
  case (Suc k)
  let ?n = "length (disc_servers d)"
  have "rr_Gets intn (Suc k) d = Inr (disc_servers d ! (disc_index d mod ?n)) #
      rr_Gets intn k (d\<lparr>disc_index := (disc_index d + 1) mod ?n\<rparr>)"
    by (simp add: rr_Get [OF Suc.prems])
  also have "\<dots> = map (\<lambda>j. Inr (disc_servers d ! ((disc_index d + j) mod ?n))) (0 # map Suc [0..<k])"
    using Suc.IH [of "d\<lparr>disc_index := (disc_index d + 1) mod ?n\<rparr>"] Suc.prems
    by (simp add: mod_add_left_eq)
  also have "0 # map Suc [0..<k] = [0..<Suc k]" by (metis upt_conv_Cons map_Suc_upt zero_less_Suc)
  finally show ?case .
qed

lemma rotate_nth: "map (\<lambda>j. xs ! ((i + j) mod length xs)) [0..<length xs] = rotate i xs"
  by (rule nth_equalityI) (simp_all add: nth_rotate add.commute)

lemma mset_rotate: "mset (rotate i xs) = mset xs"
  unfolding rotate_drop_take mset_append
  by (metis append_take_drop_id mset_append union_commute)

section \<open>Lists from the registry\<close>

lemma kept_servers_eq:
  "kept_servers ss = filter (\<lambda>s. s \<noteq> '''') (map strings_TrimSpace ss)"
proof -
  have "fold (\<lambda>s acc. if strings_TrimSpace s \<noteq> '''' then acc @ [strings_TrimSpace s] else acc) ss acc =
      acc @ filter (\<lambda>s. s \<noteq> '''') (map strings_TrimSpace ss)" for acc
    by (induction ss arbitrary: acc) simp_all
  then show ?thesis by (simp add: kept_servers_def)
qed

text \<open>An address that the comma-separated list of the header carries unharmed.\<close>

definition plain_addr :: "string \<Rightarrow> bool" where
  "plain_addr a \<longleftrightarrow> a \<noteq> '''' \<and> CHR '','' \<notin> set a \<and> trimmed a"

lemma kept_Join:
  assumes "\<forall>a \<in> set ss. plain_addr a"
  shows "kept_servers (strings_Split (CHR '','') (strings_Join ss (CHR '',''))) = ss"
proof (cases "ss = []")
  case True
  then show ?thesis by (simp add: kept_servers_eq)
next
  case False
  have "map strings_TrimSpace ss = ss"
    using assms by (induction ss) (simp_all add: plain_addr_def TrimSpace_trimmed)
  moreover have "filter (\<lambda>s. s \<noteq> '''') ss = ss"
    using assms by (auto simp: filter_id_conv plain_addr_def)
  ultimately show ?thesis
    using strings_Split_Join [OF False, of "CHR '',''"] assms
    by (simp add: kept_servers_eq plain_addr_def)
qed

text \<open>The network between the discovery and the registry, which is the world here.\<close>

definition registry_GET ::
  "(my_registry \<Rightarrow> string list) \<Rightarrow> (string \<Rightarrow> int) \<Rightarrow> my_registry registry_get" where
  "registry_GET order clock url r =
     (let (resp, r1) = reg_ServeHTTP \<lparr>req_Method = ''GET'', req_Server = ''''\<rparr> (order r) clock r
      in (Inr (case rs_Servers resp of None \<Rightarrow> '''' | Some s \<Rightarrow> s), r1))"

definition seen_recently :: "int \<Rightarrow> (string \<times> int) list \<Rightarrow> (string \<Rightarrow> int) \<Rightarrow> string set" where
  "seen_recently T h clock =
     {a. case last_beat h a of None \<Rightarrow> False | Some b \<Rightarrow> T = 0 \<or> clock a < b + T}"

lemma fresh_seen:
  assumes "reg_history T h t r" and "\<forall>a. t \<le> clock a"
  shows "{a. fresh clock r a} = seen_recently T h clock"
proof -
  have T: "reg_timeout r = T" and inv: "tracked T t (last_beat h a) (reg_servers r a)" for a
    using history_servers [OF assms(1)] by simp_all
  have "fresh clock r a \<longleftrightarrow> a \<in> seen_recently T h clock" for a
    using T assms(2) [rule_format, of a] inv [of a]
    by (auto simp: fresh_def tracked_def seen_recently_def split: option.splits)
  then show ?thesis by blast
qed

lemma Refresh_from_registry:
  assumes "reg_history T h t r" and "enumerates (order r) r" and "\<forall>a. t \<le> clock a"
    and "\<forall>p \<in> set h. plain_addr (fst p)" and "rd_lastUpdate d + rd_timeout d \<le> now"
  shows "\<exists>ss r'. rd_Refresh (registry_GET order clock) now now' (d, r) =
      (None, (rd_set_servers ss d)\<lparr>rd_lastUpdate := now'\<rparr>, r') \<and>
    sorted ss \<and> distinct ss \<and> set ss = seen_recently T h clock"
proof -
  let ?ss = "fst (aliveServers (order r) clock r)"
  have ss: "?ss = sorted_list_of_set (seen_recently T h clock)"
    using aliveServers_eq(1) [OF assms(2)] fresh_seen [OF assms(1,3)] by simp
  have sub: "seen_recently T h clock \<subseteq> set (map fst h)"
  proof
    fix a
    assume "a \<in> seen_recently T h clock"
    then obtain b where "map_of h a = Some b"
      by (auto simp: seen_recently_def last_beat_def split: option.splits)
    then show "a \<in> set (map fst h)" by (force dest: map_of_SomeD)
  qed
  then have fin: "finite (seen_recently T h clock)" by (rule finite_subset) simp
  have "\<forall>a \<in> set ?ss. plain_addr a"
    using sub assms(4) fin by (auto simp: ss)
  from kept_Join [OF this]
  have "rd_Refresh (registry_GET order clock) now now' (d, r) =
      (None, (rd_set_servers ?ss d)\<lparr>rd_lastUpdate := now'\<rparr>, snd (aliveServers (order r) clock r))"
    using assms(5) by (simp add: rd_Refresh_def registry_GET_def reg_ServeHTTP_def case_prod_beta Let_def)
  then show ?thesis using ss fin by auto
qed

lemma multi_Get_servers: "disc_servers (snd (multi_Get intn mode d)) = disc_servers d"
  by (simp add: multi_Get_def Let_def split: prod.split)

lemma rd_Get_kept:
  assumes "now < rd_lastUpdate d + rd_timeout d"
  shows "rd_Get http_Get intn now now' mode (d, w) =
    (let (r, m) = multi_Get intn mode (embedded d) in (r, d\<lparr>embedded := m\<rparr>, w))"
  using assms by (simp add: rd_Get_def rd_Refresh_def)

section \<open>Properties\<close>

text \<open>
  C25: Round robin is fair: from any starting index, as many calls in a row as there are servers
  return every server as often as it is listed, in the order of the list from where the index
  stands; the next calls go round again.
\<close>

theorem round_robin_is_fair:
  assumes "disc_servers d \<noteq> []"
  shows "rr_Gets intn (length (disc_servers d)) d = map Inr (rotate (disc_index d) (disc_servers d)) \<and>
    mset (rr_Gets intn (length (disc_servers d)) d) = image_mset Inr (mset (disc_servers d)) \<and>
    (j < k \<longrightarrow> rr_Gets intn k d ! j =
       Inr (disc_servers d ! ((disc_index d + j) mod length (disc_servers d))))"
proof -
  have "rr_Gets intn (length (disc_servers d)) d = map Inr (rotate (disc_index d) (disc_servers d))"
    by (simp add: rr_Gets_nth [OF assms] rotate_nth [symmetric])
  then show ?thesis
    using mset_rotate [of "disc_index d" "disc_servers d"]
    by (simp add: rr_Gets_nth [OF assms])
qed

theorem round_robin_is_fair_witness:
  "rr_Gets (\<lambda>n g. (0, g)) 3 \<lparr>ran = (), disc_servers = [''a'', ''b'', ''c''], disc_index = 7\<rparr> =
     [Inr ''b'', Inr ''c'', Inr ''a'']"
proof -
  let ?d = "\<lparr>ran = (), disc_servers = [''a'', ''b'', ''c''], disc_index = 7\<rparr>"
  have "disc_servers ?d \<noteq> []" by simp
  note conjunct1 [OF round_robin_is_fair [OF this, where intn = "\<lambda>n g. (0, g)"]]
  moreover have "length (disc_servers ?d) = 3" by simp
  moreover have "rotate (disc_index ?d) (disc_servers ?d) = [''b'', ''c'', ''a'']"
    by (simp add: rotate_drop_take)
  ultimately show ?thesis by (simp only: list.map)
qed

text \<open>
  C22: What the discovery gets from the registry is what the registry knows: when its list has
  expired, \<open>GetAll\<close> returns exactly the servers with a recent heartbeat, sorted and once each,
  provided the addresses are non-empty, hold no comma and no surrounding space.
\<close>

theorem discovery_lists_registry:
  assumes "reg_history T h t r" and "enumerates (order r) r" and "\<forall>a. t \<le> clock a"
    and "\<forall>p \<in> set h. plain_addr (fst p)" and "rd_lastUpdate d + rd_timeout d \<le> now"
  shows "\<exists>ss d' r'. rd_GetAll (registry_GET order clock) now now' (d, r) = (Inr ss, d', r') \<and>
    sorted ss \<and> distinct ss \<and> set ss = seen_recently T h clock \<and>
    disc_servers (embedded d') = ss \<and> rd_lastUpdate d' = now'"
proof -
  obtain ss r' where R: "rd_Refresh (registry_GET order clock) now now' (d, r) =
      (None, (rd_set_servers ss d)\<lparr>rd_lastUpdate := now'\<rparr>, r')"
    "sorted ss" "distinct ss" "set ss = seen_recently T h clock"
    using Refresh_from_registry [where order = order and clock = clock, OF assms] by blast
  then show ?thesis by (simp add: rd_GetAll_def multi_GetAll_def rd_set_servers_def)
qed

definition demo_discovery :: "unit registry_discovery" where
  "demo_discovery = NewMyRegistryDiscovery (\<lambda>n g. (0, g)) () ''http://registry'' 0"

definition demo_order :: "my_registry \<Rightarrow> string list" where
  "demo_order r = [''s1'', ''s2'']"

lemma demo_order_ok: "enumerates (demo_order demo_registry) demo_registry"
  by (auto simp: enumerates_def demo_order_def demo_registry_def putServer_def registry_New_def)

lemma demo_plain: "\<forall>p \<in> set [(''s2'', 4 :: int), (''s1'', 1)]. plain_addr (fst p)"
  by (simp add: plain_addr_def trimmed_def strip_one_def space_encodings_def)

lemma demo_seen: "seen_recently 5 [(''s2'', 4), (''s1'', 1)] (\<lambda>_. 7) = {''s2''}"
  by (auto simp: seen_recently_def last_beat_def split: if_splits)

lemma demo_stale: "rd_lastUpdate demo_discovery + rd_timeout demo_discovery \<le> 0"
  by (simp add: demo_discovery_def NewMyRegistryDiscovery_def zero_time_def second_def defaultUpdateTimeout_def Let_def)

theorem discovery_lists_registry_witness:
  "\<exists>ss s'. rd_GetAll (registry_GET demo_order (\<lambda>_. 7)) 0 1 (demo_discovery, demo_registry) = (Inr ss, s') \<and>
     distinct ss \<and> set ss = {''s2''}"
proof -
  have "\<forall>a. (4 :: int) \<le> (\<lambda>_. 7) (a :: string)" by simp
  from discovery_lists_registry [where order = demo_order and clock = "\<lambda>_. 7" and now' = 1,
      OF demo_history demo_order_ok this demo_plain demo_stale] demo_seen
  show ?thesis by auto
qed



end
