(* ===== verification/Rpc_Xclient.thy ===== *)
theory Rpc_Xclient
  imports Rpc_Client Rpc_Discovery
begin

text \<open>
  The rest of MyRPC/client.go, which makes clients, and MyRPC/xclient/xclient.go, which keeps
  one client per server and picks servers through a discovery. Connections are the network's:
  dialling, the state of a client and a call through it are functions of a world.
\<close>

section \<open>Options and dialling\<close>

definition too_many_options :: string where
  "too_many_options = ''option'' @ [CHR 0xE6, CHR 0x95, CHR 0xB0, CHR 0xE5, CHR 0xA4, CHR 0xA7,
     CHR 0xE4, CHR 0xBA, CHR 0x8E] @ ''1''"

text \<open>A nil option is \<open>None\<close>.\<close>

definition parseOptions :: "rpc_option option list \<Rightarrow> string + rpc_option" where
  "parseOptions opts =
     (if length opts = 0 \<or> opts ! 0 = None then Inr DefaultOption
      else if length opts \<noteq> 1 then Inl too_many_options
      else
        let opt = the (opts ! 0);
            opt1 = opt\<lparr>opt_MagicNum := opt_MagicNum DefaultOption\<rparr>
        in Inr (if opt_CodecType opt1 = '''' then opt1\<lparr>opt_CodecType := opt_CodecType DefaultOption\<rparr> else opt1))"

text \<open>
  \<open>DialTimeout\<close>: \<open>net_Dial\<close> makes the connection, \<open>f\<close> the client on it; \<open>expires\<close> says that the
  time runs out before \<open>f\<close> is done. The second component lists the connections it closed.
\<close>

definition connect_timeout :: "int \<Rightarrow> string" where
  "connect_timeout t = ''rpc'' @ [CHR 0xE5, CHR 0xAE, CHR 0xA2, CHR 0xE6, CHR 0x88, CHR 0xB7, CHR 0xE7, CHR 0xAB, CHR
     0xAF, CHR 0xEF, CHR 0xBC, CHR 0x9A, CHR 0xE8, CHR 0xBF, CHR 0x9E, CHR 0xE6, CHR 0x8E,
     CHR 0xA5, CHR 0xE8, CHR 0xB6, CHR 0x85, CHR 0xE6, CHR 0x97, CHR 0xB6, CHR 0xEF, CHR
     0xBC, CHR 0x9A, CHR 0xE5, CHR 0xBA, CHR 0x94, CHR 0xE5, CHR 0x9C, CHR 0xA8] @
     duration_String t @ [CHR 0xE5, CHR 0x86, CHR 0x85]"

definition DialTimeout ::
  "(string \<Rightarrow> string \<Rightarrow> int \<Rightarrow> string + 'c) \<Rightarrow> bool \<Rightarrow> ('c \<Rightarrow> rpc_option \<Rightarrow> string + 'cl) \<Rightarrow>
   string \<Rightarrow> string \<Rightarrow> rpc_option option list \<Rightarrow> (string + 'cl) \<times> 'c list" where
  "DialTimeout net_Dial expires f network address opts =
     (case parseOptions opts of
        Inl e \<Rightarrow> (Inl e, [])
      | Inr opt \<Rightarrow>
          (case net_Dial network address (opt_ConnectTimeout opt) of
             Inl e \<Rightarrow> (Inl e, [])
           | Inr conn \<Rightarrow>
               if opt_ConnectTimeout opt \<noteq> 0 \<and> expires then (Inl (connect_timeout (opt_ConnectTimeout opt)), [conn])
               else
                 (case f conn opt of
                    Inl e \<Rightarrow> (Inl e, [conn])
                  | Inr client \<Rightarrow> (Inr client, []))))"

definition bad_rpc_addr :: "string \<Rightarrow> string" where
  "bad_rpc_addr a = ''rpc'' @ [CHR 0xE5, CHR 0xAE, CHR 0xA2, CHR 0xE6, CHR 0x88, CHR 0xB7, CHR 0xE7, CHR 0xAB, CHR
     0xAF, CHR 0xE9, CHR 0x94, CHR 0x99, CHR 0xE8, CHR 0xAF, CHR 0xAF, CHR 0xEF, CHR 0xBC,
     CHR 0x9A, CHR 0xE6, CHR 0xA0, CHR 0xBC, CHR 0xE5, CHR 0xBC, CHR 0x8F, CHR 0xE2, CHR
     0x80, CHR 0x9C] @
     a @ [CHR 0xE2, CHR 0x80, CHR 0x9D, CHR 0xE9, CHR 0x94, CHR 0x99, CHR 0xE8, CHR 0xAF, CHR
     0xAF, CHR 0xEF, CHR 0xBC, CHR 0x8C, CHR 0xE5, CHR 0xBA, CHR 0x94, CHR 0xE4, CHR 0xB8,
     CHR 0xBA] @ ''protocol@addr''"

text \<open>The two ways to dial, by the function that makes the client: over HTTP or directly.\<close>

datatype client_maker = New_HTTP_client | New_client

definition XDial ::
  "(client_maker \<Rightarrow> string \<Rightarrow> string \<Rightarrow> rpc_option option list \<Rightarrow> string + 'cl) \<Rightarrow>
   string \<Rightarrow> rpc_option option list \<Rightarrow> string + 'cl" where
  "XDial dial rpcAddr opts =
     (let parts = strings_Split (CHR ''@'') rpcAddr
      in if length parts \<noteq> 2 then Inl (bad_rpc_addr rpcAddr)
         else
           let protocol = parts ! 0; addr = parts ! 1
           in if protocol = ''http'' then dial New_HTTP_client ''tcp'' addr opts
              else dial New_client protocol addr opts)"

section \<open>The client of many servers\<close>

text \<open>What a client pointer can be asked, in a world.\<close>

record ('v, 'w) network =
  available :: "nat \<Rightarrow> 'w \<Rightarrow> bool"
  close_client :: "nat \<Rightarrow> 'w \<Rightarrow> 'w"
  dial_client :: "string \<Rightarrow> rpc_option option \<Rightarrow> 'w \<Rightarrow> (string + nat) \<times> 'w"
  client_Call :: "nat \<Rightarrow> string \<Rightarrow> 'v \<Rightarrow> 'w \<Rightarrow> (string + 'v) \<times> 'w"

record 'd xclient =
  x_dis :: 'd
  x_mode :: int
  x_opt :: "rpc_option option"
  x_clients :: "string \<Rightarrow> nat option"

definition NewXClient :: "'d \<Rightarrow> int \<Rightarrow> rpc_option option \<Rightarrow> 'd xclient" where
  "NewXClient dis mode opt = \<lparr>x_dis = dis, x_mode = mode, x_opt = opt, x_clients = Map.empty\<rparr>"

text \<open>The loop of \<open>Close\<close> walks the map in some order.\<close>

definition X_Close :: "('v, 'w) network \<Rightarrow> string list \<Rightarrow> 'd xclient \<times> 'w \<Rightarrow> 'd xclient \<times> 'w" where
  "X_Close net order s =
     fold (\<lambda>a (X, w). case x_clients X a of
             None \<Rightarrow> (X, w)
           | Some c \<Rightarrow> (X\<lparr>x_clients := (x_clients X)(a := None)\<rparr>, close_client net c w)) order s"

definition X_dial :: "('v, 'w) network \<Rightarrow> string \<Rightarrow> 'd xclient \<times> 'w \<Rightarrow> (string + nat) \<times> 'd xclient \<times> 'w" where
  "X_dial net rpcAddr = (\<lambda>(X, w).
     let (client, X1, w1) =
           (case x_clients X rpcAddr of
              Some c \<Rightarrow>
                if \<not> available net c w
                then (None, X\<lparr>x_clients := (x_clients X)(rpcAddr := None)\<rparr>, close_client net c w)
                else (Some c, X, w)
            | None \<Rightarrow> (None, X, w))
     in case client of
          Some c \<Rightarrow> (Inr c, X1, w1)
        | None \<Rightarrow>
            (case dial_client net rpcAddr (x_opt X1) w1 of
               (Inl e, w2) \<Rightarrow> (Inl e, X1, w2)
             | (Inr c, w2) \<Rightarrow> (Inr c, X1\<lparr>x_clients := (x_clients X1)(rpcAddr \<mapsto> c)\<rparr>, w2)))"

definition X_call ::
  "('v, 'w) network \<Rightarrow> string \<Rightarrow> string \<Rightarrow> 'v \<Rightarrow> 'd xclient \<times> 'w \<Rightarrow> (string + 'v) \<times> 'd xclient \<times> 'w" where
  "X_call net rpcAddr serviceMethod args s =
     (case X_dial net rpcAddr s of
        (Inl e, s1) \<Rightarrow> (Inl e, s1)
      | (Inr c, X1, w1) \<Rightarrow> let (r, w2) = client_Call net c serviceMethod args w1 in (r, X1, w2))"

text \<open>\<open>get\<close> and \<open>get_all\<close> are the methods of the discovery.\<close>

definition X_Call ::
  "('v, 'w) network \<Rightarrow> (int \<Rightarrow> 'd \<Rightarrow> (string + string) \<times> 'd) \<Rightarrow> string \<Rightarrow> 'v \<Rightarrow> 'd xclient \<times> 'w \<Rightarrow>
   (string + 'v) \<times> 'd xclient \<times> 'w" where
  "X_Call net get serviceMethod args = (\<lambda>(X, w).
     let (r, d) = get (x_mode X) (x_dis X); X1 = X\<lparr>x_dis := d\<rparr>
     in case r of
          Inl e \<Rightarrow> (Inl e, X1, w)
        | Inr rpcAddr \<Rightarrow> X_call net rpcAddr serviceMethod args (X1, w))"

section \<open>Lemmas\<close>

text \<open>A client is kept under the address it was dialled for, and dialled only when needed.\<close>

lemma dial_kept:
  assumes "x_clients X a = Some c" and "available net c w"
  shows "X_dial net a (X, w) = (Inr c, X, w)"
  using assms by (simp add: X_dial_def)

lemma dial_other:
  assumes "X_dial net a (X, w) = (r, X1, w1)" and "b \<noteq> a"
  shows "x_clients X1 b = x_clients X b"
  using assms by (auto simp: X_dial_def Let_def split: option.splits if_splits prod.splits sum.splits)

lemma dial_result:
  assumes "X_dial net a (X, w) = (Inr c, X1, w1)"
  shows "x_clients X1 a = Some c"
  using assms by (auto simp: X_dial_def Let_def split: option.splits if_splits prod.splits sum.splits)

lemma XDial_well_formed:
  assumes "CHR ''@'' \<notin> set protocol" and "CHR ''@'' \<notin> set addr"
  shows "XDial dial (protocol @ ''@'' @ addr) opts =
    (if protocol = ''http'' then dial New_HTTP_client ''tcp'' addr opts else dial New_client protocol addr opts)"
  using assms strings_Split_append [OF assms(1), of addr]
  by (simp add: XDial_def strings_Split_no_sep Let_def)

lemma DialTimeout_closes:
  "DialTimeout net_Dial expires f network address opts = (Inr cl, closed) \<Longrightarrow> closed = []"
  by (auto simp: DialTimeout_def split: sum.splits if_splits)

context discovery
begin

text \<open>A call through a discovery fails with its error or goes to a server it knows.\<close>

lemma X_Call_target:
  assumes ok
  shows "\<exists>X1. x_clients X1 = x_clients X \<and> x_dis X1 = snd (get (x_mode X) (x_dis X)) \<and>
    (case fst (get (x_mode X) (x_dis X)) of
       Inl e \<Rightarrow> X_Call net get m args (X, w) = (Inl e, X1, w)
     | Inr s \<Rightarrow> s \<in> set (servers (x_dis X1)) \<and> X_Call net get m args (X, w) = X_call net s m args (X1, w))"
  using get_Inr [OF assms, of "x_mode X" "x_dis X"]
  by (intro exI [of _ "X\<lparr>x_dis := snd (get (x_mode X) (x_dis X))\<rparr>"])
    (auto simp: X_Call_def case_prod_beta Let_def split: sum.split)

end

section \<open>Properties\<close>

text \<open>
  A call over a registry fails with the discovery's error, without contacting any server,
  or goes to one server of the list the discovery holds after the pick, whatever the mode, the
  clock and the random numbers.
\<close>

theorem X_Call_goes_to_listed_server:
  assumes "intn_ok intn"
  shows "\<exists>X1. x_clients X1 = x_clients X \<and>
    x_dis X1 = snd (rd_Get http_Get intn now now' (x_mode X) (x_dis X)) \<and>
    (case fst (rd_Get http_Get intn now now' (x_mode X) (x_dis X)) of
       Inl e \<Rightarrow> X_Call net (rd_Get http_Get intn now now') m args (X, w) = (Inl e, X1, w)
     | Inr s \<Rightarrow> s \<in> set (disc_servers (embedded (fst (x_dis X1)))) \<and>
         X_Call net (rd_Get http_Get intn now now') m args (X, w) = X_call net s m args (X1, w))"
  by (rule rd.X_Call_target [OF assms])

text \<open>A network whose clients answer with the argument they get; the world counts the dials.\<close>

definition demo_network :: "(nat, nat) network" where
  "demo_network = \<lparr>available = (\<lambda>c w. c = w), close_client = (\<lambda>c w. w),
     dial_client = (\<lambda>a opt w. (Inr (Suc w), Suc w)),
     client_Call = (\<lambda>c m v w. (if v = 0 then Inl ''zero'' else Inr (v + c), w))\<rparr>"

definition demo_listed :: "unit registry_discovery" where
  "demo_listed = snd (rd_Update 0 [''tcp@a'', ''tcp@b''] demo_discovery)"

theorem X_Call_goes_to_listed_server_witness:
  "\<exists>X1. X_Call demo_network (rd_Get (\<lambda>u (v :: unit). (Inl '''', v)) (\<lambda>n g. (0, g)) 5 5) ''Foo.Sum'' 3
      (NewXClient (demo_listed, ()) RandomSelect None, 0) = X_call demo_network ''tcp@a'' ''Foo.Sum'' 3 (X1, 0)"
proof -
  let ?get = "rd_Get (\<lambda>u (v :: unit). (Inl '''', v)) (\<lambda>n g. (0, g)) 5 5"
  let ?X = "NewXClient (demo_listed, ()) RandomSelect None"
  have "intn_ok (\<lambda>n (g :: unit). (0, g))" by (simp add: intn_ok_def)
  from X_Call_goes_to_listed_server [OF this, of ?X "\<lambda>u (v :: unit). (Inl '''', v)" 5 5 demo_network "''Foo.Sum''" 3 0]
  obtain X1 where P: "case fst (?get RandomSelect (demo_listed, ())) of
      Inl e \<Rightarrow> X_Call demo_network ?get ''Foo.Sum'' 3 (?X, 0) = (Inl e, X1, 0)
    | Inr s \<Rightarrow> s \<in> set (disc_servers (embedded (fst (x_dis X1)))) \<and>
        X_Call demo_network ?get ''Foo.Sum'' 3 (?X, 0) = X_call demo_network s ''Foo.Sum'' 3 (X1, 0)"
    by (auto simp: NewXClient_def)
  have "fst (?get RandomSelect (demo_listed, ())) = Inr ''tcp@a''"
    by (simp add: rd_Get_def rd_Refresh_def demo_listed_def rd_Update_def rd_set_servers_def demo_discovery_def
        NewMyRegistryDiscovery_def NewMultiServerDiscovery_def defaultUpdateTimeout_def second_def multi_Get_def Let_def)
  with P show ?thesis by auto
qed

text \<open>
  \<open>dial\<close> keeps one client per server: a client it returns is the one kept for that address,
  the clients of other addresses are untouched, the next \<open>dial\<close> of the address returns the same
  client without dialling as long as it is available, and a failed dial leaves none behind.
\<close>

theorem X_dial_keeps_one_client:
  assumes "X_dial net a (X, w) = (r, X1, w1)"
  shows "(\<forall>b. b \<noteq> a \<longrightarrow> x_clients X1 b = x_clients X b) \<and>
    (case r of
       Inl e \<Rightarrow> x_clients X1 a = None
     | Inr c \<Rightarrow> x_clients X1 a = Some c \<and>
         (\<forall>w2. available net c w2 \<longrightarrow> X_dial net a (X1, w2) = (Inr c, X1, w2)))"
proof (cases r)
  case (Inl e)
  then have "x_clients X1 a = None"
    using assms by (auto simp: X_dial_def Let_def split: option.splits if_splits prod.splits sum.splits)
  with Inl dial_other [OF assms] show ?thesis by simp
next
  case (Inr c)
  have "x_clients X1 a = Some c" using dial_result assms Inr by metis
  with Inr dial_other [OF assms] dial_kept [of X1 a c net] show ?thesis by simp
qed

theorem X_dial_keeps_one_client_witness:
  "X_dial demo_network ''tcp@a'' (snd (X_dial demo_network ''tcp@a'' (NewXClient () 0 None, 0))) =
     (Inr 1, snd (X_dial demo_network ''tcp@a'' (NewXClient () 0 None, 0)))"
proof -
  obtain r X1 w1 where d: "X_dial demo_network ''tcp@a'' (NewXClient () 0 None, 0) = (r, X1, w1)"
    by (metis prod.exhaust)
  have r: "r = Inr 1" using d by (auto simp: X_dial_def NewXClient_def demo_network_def)
  have w1: "w1 = 1" using d by (auto simp: X_dial_def NewXClient_def demo_network_def)
  have "available demo_network 1 1" by (simp add: demo_network_def)
  with X_dial_keeps_one_client [OF d] d r w1 show ?thesis by simp
qed

end
