(* ===== verification/Rpc_Codec.thy ===== *)
theory Rpc_Codec
  imports Rpc_Server
begin

text \<open>
  MyRPC/codec/gob.go: a header and a body are encoded into a buffered writer, which is flushed
  to the connection at the end. Go's \<open>bufio.Writer\<close> is modelled with its buffer and the error it
  keeps; the gob encoder and the connection are parameters: the encoder turns a value into
  bytes, or fails without writing any, and remembers what types it has sent.
\<close>

section \<open>The buffered writer\<close>

text \<open>\<open>conn_write\<close> gives the error of a write, \<open>conn_close\<close> that of closing.\<close>

record 'c conn_ops =
  conn_write :: "bytes \<Rightarrow> 'c \<Rightarrow> string option \<times> 'c"
  conn_close :: "'c \<Rightarrow> string option \<times> 'c"

record bufio =
  bw_buf :: bytes
  bw_err :: "string option"

definition bw_size :: nat where
  "bw_size = 4096"

definition bw_Flush :: "'c conn_ops \<Rightarrow> bufio \<times> 'c \<Rightarrow> bufio \<times> 'c" where
  "bw_Flush ops = (\<lambda>(b, c).
     if bw_err b \<noteq> None \<or> bw_buf b = [] then (b, c)
     else
       case conn_write ops (bw_buf b) c of
         (None, c1) \<Rightarrow> (b\<lparr>bw_buf := []\<rparr>, c1)
       | (Some e, c1) \<Rightarrow> (b\<lparr>bw_err := Some e\<rparr>, c1))"

definition bw_direct :: "'c conn_ops \<Rightarrow> bytes \<Rightarrow> bufio \<times> 'c \<Rightarrow> bufio \<times> 'c" where
  "bw_direct ops p = (\<lambda>(b, c). case conn_write ops p c of (e, c1) \<Rightarrow> (b\<lparr>bw_err := e\<rparr>, c1))"

text \<open>
  The loop of \<open>Write\<close> runs at most twice: a full buffer is flushed, and what is left either goes
  to the connection at once or fits the empty buffer.
\<close>

definition bw_Write :: "'c conn_ops \<Rightarrow> bytes \<Rightarrow> bufio \<times> 'c \<Rightarrow> bufio \<times> 'c" where
  "bw_Write ops p = (\<lambda>(b, c).
     let avail = bw_size - length (bw_buf b)
     in if bw_err b \<noteq> None then (b, c)
        else if length p \<le> avail then (b\<lparr>bw_buf := bw_buf b @ p\<rparr>, c)
        else if bw_buf b = [] then bw_direct ops p (b, c)
        else
          let (b1, c1) = bw_Flush ops (b\<lparr>bw_buf := bw_buf b @ take avail p\<rparr>, c); rest = drop avail p
          in if bw_err b1 \<noteq> None then (b1, c1)
             else if length rest \<le> bw_size then (b1\<lparr>bw_buf := rest\<rparr>, c1)
             else bw_direct ops rest (b1, c1))"

section \<open>The codec\<close>

datatype 'v gob_value = Gob_header header | Gob_body 'v

type_synonym ('v, 'g) gob_encoder = "'v gob_value \<Rightarrow> 'g \<Rightarrow> (string + bytes) \<times> 'g"

record ('g, 'c) gob_codec =
  gc_conn :: 'c
  gc_buf :: bufio
  gc_enc :: 'g
  gc_closed :: bool

definition NewGobCodec :: "'g \<Rightarrow> 'c \<Rightarrow> ('g, 'c) gob_codec" where
  "NewGobCodec g c = \<lparr>gc_conn = c, gc_buf = \<lparr>bw_buf = [], bw_err = None\<rparr>, gc_enc = g, gc_closed = False\<rparr>"

definition gob_Close :: "'c conn_ops \<Rightarrow> ('g, 'c) gob_codec \<Rightarrow> string option \<times> ('g, 'c) gob_codec" where
  "gob_Close ops g = (case conn_close ops (gc_conn g) of (e, c) \<Rightarrow> (e, g\<lparr>gc_conn := c, gc_closed := True\<rparr>))"

text \<open>\<open>g.enc.Encode\<close>, which writes to the buffer, and the deferred function of \<open>Write\<close>.\<close>

definition gob_Encode ::
  "'c conn_ops \<Rightarrow> ('v, 'g) gob_encoder \<Rightarrow> 'v gob_value \<Rightarrow> ('g, 'c) gob_codec \<Rightarrow> string option \<times> ('g, 'c) gob_codec" where
  "gob_Encode ops enc v g =
     (case enc v (gc_enc g) of
        (Inl e, s) \<Rightarrow> (Some e, g\<lparr>gc_enc := s\<rparr>)
      | (Inr bs, s) \<Rightarrow>
          (case bw_Write ops bs (gc_buf g, gc_conn g) of
             (b, c) \<Rightarrow> (bw_err b, g\<lparr>gc_enc := s, gc_buf := b, gc_conn := c\<rparr>)))"

definition gob_finish ::
  "'c conn_ops \<Rightarrow> string option \<times> ('g, 'c) gob_codec \<Rightarrow> string option \<times> ('g, 'c) gob_codec" where
  "gob_finish ops = (\<lambda>(err, g).
     case bw_Flush ops (gc_buf g, gc_conn g) of
       (b, c) \<Rightarrow>
         let g1 = g\<lparr>gc_buf := b, gc_conn := c\<rparr>
         in if err \<noteq> None then (err, snd (gob_Close ops g1)) else (err, g1))"

definition gob_Write ::
  "'c conn_ops \<Rightarrow> ('v, 'g) gob_encoder \<Rightarrow> header \<Rightarrow> 'v \<Rightarrow> ('g, 'c) gob_codec \<Rightarrow> string option \<times> ('g, 'c) gob_codec"
  where
  "gob_Write ops enc h body g =
     gob_finish ops
       (case gob_Encode ops enc (Gob_header h) g of
          (Some e, g1) \<Rightarrow> (Some e, g1)
        | (None, g1) \<Rightarrow>
            (case gob_Encode ops enc (Gob_body body) g1 of
               (Some e, g2) \<Rightarrow> (Some e, g2)
             | (None, g2) \<Rightarrow> (None, g2)))"

text \<open>The server's \<open>sendResponse\<close> writes under a mutex and only logs an error.\<close>

definition sendResponse ::
  "'c conn_ops \<Rightarrow> ('v, 'g) gob_encoder \<Rightarrow> header \<Rightarrow> 'v \<Rightarrow> ('g, 'c) gob_codec \<Rightarrow> ('g, 'c) gob_codec" where
  "sendResponse ops enc h body g = snd (gob_Write ops enc h body g)"

section \<open>What arrives\<close>

text \<open>
  \<open>out\<close> is what the other end of a connection has been sent. A write without an error has sent
  all its bytes; one with an error has sent some beginning of them.
\<close>

definition conn_ok :: "'c conn_ops \<Rightarrow> ('c \<Rightarrow> bytes) \<Rightarrow> bool" where
  "conn_ok ops out \<longleftrightarrow>
     (\<forall>p c c'. conn_write ops p c = (None, c') \<longrightarrow> out c' = out c @ p) \<and>
     (\<forall>p c e c'. conn_write ops p c = (Some e, c') \<longrightarrow> (\<exists>n. out c' = out c @ take n p)) \<and>
     (\<forall>c. out (snd (conn_close ops c)) = out c)"

text \<open>What is sent and what is buffered, together.\<close>

definition stream :: "('c \<Rightarrow> bytes) \<Rightarrow> bufio \<times> 'c \<Rightarrow> bytes" where
  "stream out = (\<lambda>(b, c). out c @ bw_buf b)"

lemma Flush_ok:
  assumes "conn_ok ops out" and "bw_Flush ops (b, c) = (b', c')" and "bw_err b' = None"
  shows "bw_err b = None" and "bw_buf b' = []" and "out c' = stream out (b, c)"
  using assms by (auto simp: bw_Flush_def stream_def conn_ok_def split: if_splits prod.splits option.splits)

lemma direct_ok:
  assumes "conn_ok ops out" and "bw_direct ops p (b, c) = (b', c')" and "bw_err b' = None" and "bw_buf b = []"
  shows "stream out (b', c') = stream out (b, c) @ p"
  using assms by (auto simp: bw_direct_def stream_def conn_ok_def split: prod.splits)

lemma Write_ok:
  assumes "conn_ok ops out" and "bw_Write ops p (b, c) = (b', c')" and "bw_err b' = None"
  shows "bw_err b = None \<and> stream out (b', c') = stream out (b, c) @ p"
proof -
  let ?avail = "bw_size - length (bw_buf b)"
  obtain b1 c1 where f: "bw_Flush ops (b\<lparr>bw_buf := bw_buf b @ take ?avail p\<rparr>, c) = (b1, c1)" by fastforce
  have err: "bw_err b = None"
    using assms(2,3) by (cases "bw_err b") (auto simp: bw_Write_def)
  consider "length p \<le> ?avail" | "\<not> length p \<le> ?avail" "bw_buf b = []"
    | "\<not> length p \<le> ?avail" "bw_buf b \<noteq> []" by blast
  then have "stream out (b', c') = stream out (b, c) @ p"
  proof cases
    case 1
    then show ?thesis using assms(2) err by (auto simp: bw_Write_def stream_def)
  next
    case 2
    then have "bw_direct ops p (b, c) = (b', c')" using assms(2) err by (simp add: bw_Write_def)
    from direct_ok [OF assms(1) this assms(3) 2(2)] show ?thesis .
  next
    case 3
    then have w: "(if bw_err b1 \<noteq> None then (b1, c1)
        else if length (drop ?avail p) \<le> bw_size then (b1\<lparr>bw_buf := drop ?avail p\<rparr>, c1)
        else bw_direct ops (drop ?avail p) (b1, c1)) = (b', c')"
      using assms(2) err f by (simp add: bw_Write_def Let_def)
    then have e1: "bw_err b1 = None" using assms(3) by (auto split: if_splits)
    note fl = Flush_ok [OF assms(1) f e1]
    have s1: "stream out (b1, c1) = stream out (b, c) @ take ?avail p"
      using fl(2,3) by (simp add: stream_def)
    have "stream out (b', c') = stream out (b1, c1) @ drop ?avail p"
    proof (cases "length (drop ?avail p) \<le> bw_size")
      case True
      with w e1 fl(2) show ?thesis by (auto simp: stream_def)
    next
      case False
      with w e1 have "bw_direct ops (drop ?avail p) (b1, c1) = (b', c')" by simp
      from direct_ok [OF assms(1) this assms(3) fl(2)] show ?thesis .
    qed
    with s1 show ?thesis by simp
  qed
  with err show ?thesis ..
qed

definition codec_stream :: "('c \<Rightarrow> bytes) \<Rightarrow> ('g, 'c) gob_codec \<Rightarrow> bytes" where
  "codec_stream out g = stream out (gc_buf g, gc_conn g)"

lemma Encode_ok:
  assumes "conn_ok ops out" and "gob_Encode ops enc v g = (None, g')"
  shows "\<exists>bs. enc v (gc_enc g) = (Inr bs, gc_enc g') \<and> codec_stream out g' = codec_stream out g @ bs \<and>
    bw_err (gc_buf g') = None \<and> gc_closed g' = gc_closed g"
proof -
  obtain bs s where e: "enc v (gc_enc g) = (Inr bs, s)"
    using assms(2) by (auto simp: gob_Encode_def split: prod.splits sum.splits)
  obtain b c where w: "bw_Write ops bs (gc_buf g, gc_conn g) = (b, c)" by fastforce
  with e assms(2) have g': "g' = g\<lparr>gc_enc := s, gc_buf := b, gc_conn := c\<rparr>" "bw_err b = None"
    by (auto simp: gob_Encode_def)
  with Write_ok [OF assms(1) w g'(2)] e show ?thesis by (simp add: codec_stream_def)
qed

lemma Encode_closed: "gob_Encode ops enc v g = (e, g') \<Longrightarrow> gc_closed g' = gc_closed g"
  by (auto simp: gob_Encode_def split: prod.splits sum.splits)

section \<open>Properties\<close>

text \<open>
  C19: Writing a message: if \<open>Write\<close> returns no error and the final flush went through, the other
  end has been sent all that was buffered before, the bytes of the header and those of the
  body, in this order, and nothing is left behind; if it returns an error, the connection has
  been closed.
\<close>

theorem gob_Write_delivers:
  assumes "conn_ok ops out" and "gob_Write ops enc h body g = (err, g')"
  shows "(err = None \<and> bw_err (gc_buf g') = None \<longrightarrow>
      (\<exists>hb s bb. enc (Gob_header h) (gc_enc g) = (Inr hb, s) \<and> enc (Gob_body body) s = (Inr bb, gc_enc g') \<and>
        out (gc_conn g') = codec_stream out g @ hb @ bb \<and> bw_buf (gc_buf g') = [] \<and> gc_closed g' = gc_closed g)) \<and>
    (err \<noteq> None \<longrightarrow> gc_closed g')"
proof (intro conjI impI)
  assume ok: "err = None \<and> bw_err (gc_buf g') = None"
  obtain g1 where 1: "gob_Encode ops enc (Gob_header h) g = (None, g1)"
    using assms(2) ok by (auto simp: gob_Write_def gob_finish_def Let_def split: prod.splits option.splits)
  obtain g2 where 2: "gob_Encode ops enc (Gob_body body) g1 = (None, g2)"
    using assms(2) ok 1 by (auto simp: gob_Write_def gob_finish_def Let_def split: prod.splits option.splits)
  obtain b c where f: "bw_Flush ops (gc_buf g2, gc_conn g2) = (b, c)" by fastforce
  with 1 2 assms(2) ok have g': "g' = g2\<lparr>gc_buf := b, gc_conn := c\<rparr>" "bw_err b = None"
    by (auto simp: gob_Write_def gob_finish_def Let_def)
  note fl = Flush_ok [OF assms(1) f g'(2)]
  from Encode_ok [OF assms(1) 1] Encode_ok [OF assms(1) 2] fl g'
  show "\<exists>hb s bb. enc (Gob_header h) (gc_enc g) = (Inr hb, s) \<and> enc (Gob_body body) s = (Inr bb, gc_enc g') \<and>
      out (gc_conn g') = codec_stream out g @ hb @ bb \<and> bw_buf (gc_buf g') = [] \<and> gc_closed g' = gc_closed g"
    by (fastforce simp: codec_stream_def)
next
  assume "err \<noteq> None"
  with assms(2) show "gc_closed g'"
    by (auto simp: gob_Write_def gob_finish_def gob_Close_def Let_def split: prod.splits option.splits)
qed

text \<open>A connection that collects what it is sent, up to a number of bytes, and an encoder.\<close>

definition demo_conn :: "(bytes \<times> nat) conn_ops" where
  "demo_conn = \<lparr>conn_write = (\<lambda>p (s, k). if length p \<le> k then (None, (s @ p, k - length p))
       else (Some ''broken pipe'', (s @ take k p, 0))),
     conn_close = (\<lambda>c. (None, c))\<rparr>"

definition demo_enc :: "(string, unit) gob_encoder" where
  "demo_enc v s = (case v of Gob_header h \<Rightarrow> (Inr (h_ServiceMethod h), s)
     | Gob_body b \<Rightarrow> if b = '''' then (Inl ''gob: no value'', s) else (Inr b, s))"

lemma demo_conn_ok: "conn_ok demo_conn fst"
  by (auto simp: conn_ok_def demo_conn_def split: if_splits)

theorem gob_Write_delivers_witness:
  "\<exists>g'. gob_Write demo_conn demo_enc (demo_header ''Foo.Sum'' 1) ''34'' (NewGobCodec () ('''', 100)) = (None, g') \<and>
     fst (gc_conn g') = ''Foo.Sum34''"
proof -
  let ?g = "NewGobCodec () ('''', 100)"
  obtain err g' where w: "gob_Write demo_conn demo_enc (demo_header ''Foo.Sum'' 1) ''34'' ?g = (err, g')" by fastforce
  then have "err = None \<and> bw_err (gc_buf g') = None"
    by (auto simp: gob_Write_def gob_Encode_def gob_finish_def demo_enc_def demo_conn_def NewGobCodec_def demo_header_def
        bw_Write_def bw_Flush_def bw_size_def)
  with gob_Write_delivers [OF demo_conn_ok w] w show ?thesis
    by (auto simp: codec_stream_def stream_def NewGobCodec_def demo_enc_def demo_header_def)
qed

text \<open>
  An error of the flush is lost: when header and body fit the buffer and the connection
  refuses them, \<open>Write\<close> returns no error and leaves the connection open, although nothing or
  only a part of the message was sent; every later \<open>Write\<close> fails.
\<close>

theorem gob_Write_hides_flush_error:
  assumes "gc_buf g = \<lparr>bw_buf = [], bw_err = None\<rparr>"
    and "enc (Gob_header h) (gc_enc g) = (Inr hb, s)" and "enc (Gob_body body) s = (Inr bb, s')"
    and "hb @ bb \<noteq> []" and "length (hb @ bb) \<le> bw_size" and "conn_write ops (hb @ bb) (gc_conn g) = (Some e, c)"
  shows "\<exists>g'. gob_Write ops enc h body g = (None, g') \<and> gc_conn g' = c \<and> gc_closed g' = gc_closed g \<and>
    (\<forall>h' body' hb' s''. enc (Gob_header h') (gc_enc g') = (Inr hb', s'') \<longrightarrow>
       fst (gob_Write ops enc h' body' g') = Some e)"
proof -
  let ?b = "\<lparr>bw_buf = hb @ bb, bw_err = Some e\<rparr>"
  have fits: "length hb \<le> bw_size" "length bb \<le> bw_size - length hb" using assms(5) by auto
  have "gob_Write ops enc h body g = (None, g\<lparr>gc_enc := s', gc_buf := ?b, gc_conn := c\<rparr>)"
    using assms fits by (auto simp: gob_Write_def gob_Encode_def gob_finish_def bw_Write_def bw_Flush_def Let_def)
  moreover have "fst (gob_Write ops enc h' body' (g\<lparr>gc_enc := s', gc_buf := ?b, gc_conn := c\<rparr>)) = Some e"
    if "enc (Gob_header h') s' = (Inr hb', s'')" for h' body' hb' s''
    using that by (simp add: gob_Write_def gob_Encode_def gob_finish_def bw_Write_def bw_Flush_def Let_def
        split: prod.split)
  ultimately show ?thesis by (intro exI [of _ "g\<lparr>gc_enc := s', gc_buf := ?b, gc_conn := c\<rparr>"]) simp
qed

theorem gob_Write_hides_flush_error_witness:
  "\<exists>g'. gob_Write demo_conn demo_enc (demo_header ''Foo.Sum'' 1) ''34'' (NewGobCodec () ('''', 3)) = (None, g') \<and>
     gc_conn g' = (''Foo'', 0)"
proof -
  let ?g = "NewGobCodec () ('''', 3)"
  have "gc_buf ?g = \<lparr>bw_buf = [], bw_err = None\<rparr>"
    "demo_enc (Gob_header (demo_header ''Foo.Sum'' 1)) (gc_enc ?g) = (Inr ''Foo.Sum'', ())"
    "demo_enc (Gob_body ''34'') () = (Inr ''34'', ())" "''Foo.Sum'' @ ''34'' \<noteq> []"
    "length (''Foo.Sum'' @ ''34'') \<le> bw_size"
    "conn_write demo_conn (''Foo.Sum'' @ ''34'') (gc_conn ?g) = (Some ''broken pipe'', (''Foo'', 0))"
    by (simp_all add: NewGobCodec_def demo_enc_def demo_header_def bw_size_def demo_conn_def)
  from gob_Write_hides_flush_error [OF this] show ?thesis by blast
qed

end
