(* ===== verification/Rpc_Connect.thy ===== *)
theory Rpc_Connect
  imports Rpc_Xclient Rpc_Codec
begin

text \<open>
  How a client and a server come together: the listener of MyRPC/server.go, its handler for
  HTTP connections, and in MyRPC/client.go the functions that make a client on a connection,
  directly or over HTTP, dial, and call through it. A connection is the network's, with the
  operations of \<open>Rpc_Codec\<close>; \<open>recv\<close> is what arrives on it.
\<close>

section \<open>What Go's HTTP does with a response\<close>

definition LF :: char where
  "LF = CHR 0x0A"

definition strip_CR :: "string \<Rightarrow> string" where
  "strip_CR l = (if l \<noteq> '''' \<and> last l = CHR 0x0D then butlast l else l)"

definition http_version_ok :: "string \<Rightarrow> bool" where
  "http_version_ok p \<longleftrightarrow> length p = 8 \<and> strings_HasPrefix p ''HTTP/'' \<and> digit_value (p ! 5) \<noteq> None \<and>
     p ! 6 = CHR ''.'' \<and> digit_value (p ! 7) \<noteq> None"

text \<open>Header lines up to an empty one.\<close>

fun headers_ok :: "string list \<Rightarrow> bool" where
  "headers_ok [] = False"
| "headers_ok (l # ls) \<longleftrightarrow> strip_CR l = '''' \<or> (CHR '':'' \<in> set l \<and> headers_ok ls)"

text \<open>\<open>http.ReadResponse\<close>, of which the code only uses the status.\<close>

definition ReadResponse :: "bytes \<Rightarrow> string + string" where
  "ReadResponse s =
     (case strings_Split2 LF s of
        [l, rest] \<Rightarrow>
          (case strings_Split2 (CHR '' '') (strip_CR l) of
             [proto, st] \<Rightarrow>
               let status = dropWhile (\<lambda>c. c = CHR '' '') st; code = hd (strings_Split2 (CHR '' '') status)
               in if length code \<noteq> 3 \<or> snd (Atoi code) \<noteq> None \<or> hd code = CHR ''-'' then Inl ''malformed HTTP status code''
                  else if \<not> http_version_ok proto then Inl ''malformed HTTP version''
                  else if \<not> headers_ok (strings_Split LF rest) then Inl ''malformed MIME header''
                  else Inr status
           | _ \<Rightarrow> Inl ''malformed HTTP response'')
      | _ \<Rightarrow> Inl ''unexpected EOF'')"

section \<open>The server's side\<close>

definition connected :: string where
  "connected = ''200 Connected to MyRPC''"

definition defaultRPCPath :: string where
  "defaultRPCPath = ''/_myrpc_''"

definition defaultDebugPath :: string where
  "defaultDebugPath = ''/debug/myrpc''"

text \<open>
  The handler answers with a status, or ends without an answer, or takes over the connection and
  serves it with \<open>ServerConn\<close>. An error of the write is ignored.
\<close>

datatype 'c http_result = Answer nat string | Given_up | Serve 'c

definition rpc_ServeHTTP :: "'c conn_ops \<Rightarrow> string \<Rightarrow> string + 'c \<Rightarrow> 'c http_result" where
  "rpc_ServeHTTP ops req_method hijack =
     (if req_method \<noteq> ''CONNECT'' then Answer 405 ''405 must CONNECT''
      else case hijack of
        Inl e \<Rightarrow> Given_up
      | Inr conn \<Rightarrow> Serve (snd (conn_write ops (''HTTP/1.0 '' @ connected @ [LF, LF]) conn)))"

text \<open>The table of \<open>http.Handle\<close>, which panics when a pattern is registered twice.\<close>

datatype http_handler = Rpc_handler | Debug_handler | Registry_handler

definition http_Handle :: "string \<Rightarrow> http_handler \<Rightarrow> (string \<Rightarrow> http_handler option) \<Rightarrow> (string \<Rightarrow> http_handler option) outcome"
  where
  "http_Handle pattern h mux =
     (if mux pattern \<noteq> None then Panic (''http: multiple registrations for '' @ pattern) else Ret (mux(pattern \<mapsto> h)))"

definition server_HandleHTTP :: "(string \<Rightarrow> http_handler option) \<Rightarrow> (string \<Rightarrow> http_handler option) outcome" where
  "server_HandleHTTP mux =
     bind_outcome (http_Handle defaultRPCPath Rpc_handler mux) (http_Handle defaultDebugPath Debug_handler)"

definition registry_HandleHTTP :: "string \<Rightarrow> (string \<Rightarrow> http_handler option) \<Rightarrow> (string \<Rightarrow> http_handler option) outcome" where
  "registry_HandleHTTP path mux = http_Handle path Registry_handler mux"

text \<open>\<open>Accept\<close>: the connections that it serves, each in a goroutine, until the listener fails.\<close>

fun server_Accept :: "(string + 'c) list \<Rightarrow> 'c list \<times> string option" where
  "server_Accept [] = ([], None)"
| "server_Accept (Inl e # rs) = ([], Some e)"
| "server_Accept (Inr conn # rs) = (let (cs, e) = server_Accept rs in (conn # cs, e))"

section \<open>The client's side\<close>

text \<open>The option as \<open>json.Encoder\<close> writes it, for a codec type without characters that JSON escapes.\<close>

definition json_option :: "rpc_option \<Rightarrow> bytes" where
  "json_option opt = ''{\"MagicNum\":'' @ FormatInt (opt_MagicNum opt) @ '',\"CodecType\":\"'' @ opt_CodecType opt @
     ''\",\"ConnectTimeout\":'' @ FormatInt (opt_ConnectTimeout opt) @
     '',\"HandleTimeout\":'' @ FormatInt (opt_HandleTimeout opt) @ ''}'' @ [LF]"

definition bad_codec :: "string \<Rightarrow> string" where
  "bad_codec t = [CHR 0xE6, CHR 0x97, CHR 0xA0, CHR 0xE6, CHR 0x95, CHR 0x88, CHR 0xE7, CHR 0x9A, CHR
     0x84, CHR 0xE7, CHR 0xBC, CHR 0x96, CHR 0xE8, CHR 0xA7, CHR 0xA3, CHR 0xE7, CHR 0xA0,
     CHR 0x81, CHR 0xE5, CHR 0x99, CHR 0xA8, CHR 0xE7, CHR 0xB1, CHR 0xBB, CHR 0xE5, CHR
     0x9E, CHR 0x8B] @ t"

definition NewClient :: "'c conn_ops \<Rightarrow> 'c \<Rightarrow> rpc_option \<Rightarrow> (string + 'v client) \<times> 'c" where
  "NewClient ops conn opt =
     (if \<not> has_codec (opt_CodecType opt) then (Inl (bad_codec (opt_CodecType opt)), conn)
      else case conn_write ops (json_option opt) conn of
        (Some e, conn1) \<Rightarrow> (Inl e, snd (conn_close ops conn1))
      | (None, conn1) \<Rightarrow> (Inr NewClientCodec, conn1))"

definition unexpected_response :: "string \<Rightarrow> string" where
  "unexpected_response status = [CHR 0xE6, CHR 0x84, CHR 0x8F, CHR 0xE5, CHR 0xA4, CHR 0x96, CHR 0xE7, CHR 0x9A, CHR
     0x84] @ ''HTTP'' @ [CHR 0xE5, CHR 0x93, CHR 0x8D, CHR 0xE5, CHR 0xBA, CHR 0x94, CHR 0xEF, CHR 0xBC, CHR
     0x9A] @ status"

definition NewHTTPClient ::
  "'c conn_ops \<Rightarrow> ('c \<Rightarrow> (string + bytes) \<times> 'c) \<Rightarrow> 'c \<Rightarrow> rpc_option \<Rightarrow> (string + 'v client) \<times> 'c" where
  "NewHTTPClient ops recv conn opt =
     (let conn1 = snd (conn_write ops (''CONNECT '' @ defaultRPCPath @ '' HTTP/1.0'' @ [LF, LF]) conn);
          (r, conn2) = recv conn1;
          resp = (case r of Inl e \<Rightarrow> Inl e | Inr bs \<Rightarrow> ReadResponse bs)
      in case resp of
           Inr status \<Rightarrow> if status = connected then NewClient ops conn2 opt else (Inl (unexpected_response status), conn2)
         | Inl e \<Rightarrow> (Inl e, conn2))"

definition Dial ::
  "(string \<Rightarrow> string \<Rightarrow> int \<Rightarrow> string + 'c) \<Rightarrow> bool \<Rightarrow> 'c conn_ops \<Rightarrow> string \<Rightarrow> string \<Rightarrow> rpc_option option list \<Rightarrow>
   (string + 'v client) \<times> 'c list" where
  "Dial net_Dial expires ops network address opts =
     DialTimeout net_Dial expires (\<lambda>conn opt. fst (NewClient ops conn opt)) network address opts"

definition DialHTTP ::
  "(string \<Rightarrow> string \<Rightarrow> int \<Rightarrow> string + 'c) \<Rightarrow> bool \<Rightarrow> 'c conn_ops \<Rightarrow> ('c \<Rightarrow> (string + bytes) \<times> 'c) \<Rightarrow>
   string \<Rightarrow> string \<Rightarrow> rpc_option option list \<Rightarrow> (string + 'v client) \<times> 'c list" where
  "DialHTTP net_Dial expires ops recv network address opts =
     DialTimeout net_Dial expires (\<lambda>conn opt. fst (NewHTTPClient ops recv conn opt)) network address opts"

text \<open>
  \<open>Go\<close> takes a channel of some capacity, or makes one with room for ten; then it sends the call.
  \<open>Call\<close> makes a channel with room for one and waits for it or for its context.
\<close>

definition not_buffered :: string where
  "not_buffered = ''rpc'' @ [CHR 0xE5, CHR 0xAE, CHR 0xA2, CHR 0xE6, CHR 0x88, CHR 0xB7, CHR 0xE7, CHR 0xAB, CHR
     0xAF, CHR 0xEF, CHR 0xBC, CHR 0x9A] @ ''done'' @ [CHR 0xE9, CHR 0x80, CHR 0x9A, CHR 0xE9, CHR 0x81, CHR 0x93,
     CHR 0xE6, CHR 0x9C, CHR 0xAA, CHR 0xE7, CHR 0xBC, CHR 0x93, CHR 0xE5, CHR 0x86, CHR 0xB2]"

definition client_Go :: "nat option \<Rightarrow> string \<Rightarrow> (nat \<times> 'v rpc_call) outcome" where
  "client_Go cap serviceMethod =
     (case cap of
        None \<Rightarrow> Ret (10, new_call serviceMethod)
      | Some n \<Rightarrow> if n = 0 then Panic not_buffered else Ret (n, new_call serviceMethod))"

definition call_failed :: string where
  "call_failed = ''rpc'' @ [CHR 0xE5, CHR 0xAE, CHR 0xA2, CHR 0xE6, CHR 0x88, CHR 0xB7, CHR 0xE7, CHR 0xAB, CHR
     0xAF, CHR 0xEF, CHR 0xBC, CHR 0x9A] @ ''call'' @ [CHR 0xE8, CHR 0xB0, CHR 0x83, CHR 0xE7, CHR 0x94, CHR 0xA8,
     CHR 0xE5, CHR 0xA4, CHR 0xB1, CHR 0xE8, CHR 0xB4, CHR 0xA5, CHR 0xEF, CHR 0xBC, CHR 0x9A]"

text \<open>What \<open>Call\<close> returns for call \<open>i\<close>; when both branches are ready Go takes either.\<close>

inductive Call_returns :: "string option \<Rightarrow> nat \<Rightarrow> 'v client \<Rightarrow> string option \<times> 'v client \<Rightarrow> bool" where
  cancelled: "Call_returns (Some e) i c (Some (call_failed @ e), Call_cancel i c)"
| completed: "cl_calls c i = Some x \<Longrightarrow> 0 < c_Done x \<Longrightarrow> Call_returns ctx_err i c (c_Error x, c)"

section \<open>Lemmas\<close>

lemma connected_response:
  "ReadResponse (''HTTP/1.0 '' @ connected @ [LF, LF]) = Inr connected"
  by (simp add: ReadResponse_def connected_def LF_def strip_CR_def http_version_ok_def strings_HasPrefix_def
      digit_value_def Atoi_def ParseInt_def)

lemma other_responses:
  "ReadResponse (''HTTP/1.0 405 Method Not Allowed'' @ [LF, LF]) = Inr ''405 Method Not Allowed''"
  "ReadResponse (''SSH-2.0'' @ [LF, LF]) = Inl ''malformed HTTP response''"
  by (simp_all add: ReadResponse_def LF_def strip_CR_def http_version_ok_def strings_HasPrefix_def
      digit_value_def Atoi_def ParseInt_def)

lemma parseOptions_magic: "parseOptions opts = Inr opt \<Longrightarrow> opt_MagicNum opt = MagicNum"
  by (auto simp: parseOptions_def DefaultOption_def Let_def split: if_splits)

lemma NewClient_Inr:
  assumes "NewClient ops conn opt = (Inr cl, conn1)"
  shows "has_codec (opt_CodecType opt)" and "conn_write ops (json_option opt) conn = (None, conn1)"
    and "cl = NewClientCodec"
  using assms by (auto simp: NewClient_def split: if_splits prod.splits option.splits)

text \<open>Registering the paths a second time ends the program.\<close>

lemma HandleHTTP_twice:
  assumes "server_HandleHTTP mux = Ret mux'"
  shows "\<exists>m. server_HandleHTTP mux' = Panic m"
  using assms by (auto simp: server_HandleHTTP_def http_Handle_def bind_outcome_Ret_iff defaultRPCPath_def
      defaultDebugPath_def split: if_splits)

text \<open>\<open>Accept\<close> serves all the connections before the first error, in order.\<close>

lemma Accept_serves:
  "server_Accept (map Inr cs @ Inl e # rs) = (cs, Some e)"
  by (induction cs) simp_all

section \<open>Properties\<close>

text \<open>
  The HTTP handshake: what the server sends when it takes over a connection makes the client
  go on with the RPC protocol on it; any other response, also that to a wrong method, makes the
  client fail without sending its option.
\<close>

theorem http_handshake_connects:
  assumes "conn_ok sops out" and "out s = []" and "rpc_ServeHTTP sops ''CONNECT'' (Inr s) = Serve s'"
    and "fst (conn_write sops (''HTTP/1.0 '' @ connected @ [LF, LF]) s) = None"
    and "recv (snd (conn_write ops (''CONNECT '' @ defaultRPCPath @ '' HTTP/1.0'' @ [LF, LF]) conn)) = (Inr bs, conn2)"
  shows "(bs = out s' \<longrightarrow> NewHTTPClient ops recv conn opt = NewClient ops conn2 opt) \<and>
    (ReadResponse bs \<noteq> Inr connected \<longrightarrow> (\<exists>e. NewHTTPClient ops recv conn opt = (Inl e, conn2))) \<and>
    ReadResponse (''HTTP/1.0 405 Method Not Allowed'' @ [LF, LF]) \<noteq> Inr connected"
proof -
  obtain s1 where w: "conn_write sops (''HTTP/1.0 '' @ connected @ [LF, LF]) s = (None, s1)"
    using assms(4) by (metis prod.collapse)
  with assms(3) have "s' = s1" by (simp add: rpc_ServeHTTP_def)
  with w assms(1,2) have "out s' = ''HTTP/1.0 '' @ connected @ [LF, LF]" unfolding conn_ok_def by force
  then have "NewHTTPClient ops recv conn opt = NewClient ops conn2 opt" if "bs = out s'"
    using assms(5) that by (simp add: NewHTTPClient_def connected_response del: append_Cons append.simps)
  moreover have "\<exists>e. NewHTTPClient ops recv conn opt = (Inl e, conn2)" if "ReadResponse bs \<noteq> Inr connected"
    using assms(5) that by (auto simp: NewHTTPClient_def split: sum.split)
  moreover have "ReadResponse (''HTTP/1.0 405 Method Not Allowed'' @ [LF, LF]) \<noteq> Inr connected"
    unfolding other_responses by (simp add: connected_def)
  ultimately show ?thesis by blast
qed

definition demo_recv :: "bytes \<times> nat \<Rightarrow> (string + bytes) \<times> bytes \<times> nat" where
  "demo_recv c = (Inr (''HTTP/1.0 '' @ connected @ [LF, LF]), c)"

theorem http_handshake_connects_witness:
  "fst (NewHTTPClient demo_conn demo_recv ('''', 500) DefaultOption) = Inr (NewClientCodec :: nat client)"
proof -
  let ?s = "('''', 100) :: bytes \<times> nat"
  let ?line = "''HTTP/1.0 '' @ connected @ [LF, LF]"
  let ?req = "''CONNECT '' @ defaultRPCPath @ '' HTTP/1.0'' @ [LF, LF]"
  have w: "conn_write demo_conn ?line ?s = (None, (?line, 67))"
    by (simp add: demo_conn_def connected_def LF_def)
  have "rpc_ServeHTTP demo_conn ''CONNECT'' (Inr ?s) = Serve (snd (conn_write demo_conn ?line ?s))"
    by (simp add: rpc_ServeHTTP_def)
  then have sv: "rpc_ServeHTTP demo_conn ''CONNECT'' (Inr ?s) = Serve (?line, 67)" by (simp only: w snd_conv)
  have q: "conn_write demo_conn ?req ('''', 500) = (None, (?req, 473))"
    by (simp add: demo_conn_def defaultRPCPath_def LF_def)
  have rv: "demo_recv (snd (conn_write demo_conn ?req ('''', 500))) = (Inr ?line, (?req, 473))"
    by (simp only: q demo_recv_def snd_conv)
  have "NewHTTPClient demo_conn demo_recv ('''', 500) DefaultOption =
      (NewClient demo_conn (?req, 473) DefaultOption :: (string + nat client) \<times> _)"
    by (rule http_handshake_connects [where recv = demo_recv and ops = demo_conn and conn = "('''', 500)" and
        opt = DefaultOption, OF demo_conn_ok _ sv _ rv, THEN conjunct1, THEN mp]) (simp_all only: w fst_conv)
  then show ?thesis
    by (simp add: NewClient_def has_codec_def DefaultOption_def demo_conn_def json_option_def FormatInt_def
        GobType_def MagicNum_def Itoa.simps)
qed

text \<open>
  A client that dials gets a client only on a connection on which it has sent its option,
  and the server that reads this option accepts the connection and serves its requests; no
  connection of a dial that succeeded is closed.
\<close>

theorem dialled_client_is_accepted:
  assumes "conn_ok ops out" and "Dial net_Dial expires ops network address opts = (Inr cl, closed)"
  shows "closed = [] \<and> cl = NewClientCodec \<and> (\<exists>opt conn conn1. parseOptions opts = Inr opt \<and>
    net_Dial network address (opt_ConnectTimeout opt) = Inr conn \<and>
    NewClient ops conn opt = (Inr cl, conn1) \<and> out conn1 = out conn @ json_option opt \<and>
    (\<forall>cc srv ms. ServerConn cc srv (Inr opt) [] ms = serve_loop cc srv ms))"
proof -
  obtain opt conn where d: "parseOptions opts = Inr opt" "net_Dial network address (opt_ConnectTimeout opt) = Inr conn"
    "fst (NewClient ops conn opt) = Inr cl" "closed = []"
    using assms(2) by (auto simp: Dial_def DialTimeout_def split: sum.splits if_splits)
  obtain conn1 where n: "NewClient ops conn opt = (Inr cl, conn1)" using d(3) by (metis prod.collapse)
  note N = NewClient_Inr [OF n]
  have "ServerConn cc srv (Inr opt) [] ms = serve_loop cc srv ms" for cc srv ms
    using N(1) parseOptions_magic [OF d(1)] by (simp add: ServerConn_def)
  moreover have "out conn1 = out conn @ json_option opt" using N(2) assms(1) unfolding conn_ok_def by blast
  ultimately show ?thesis using d n N(3) by blast
qed

theorem dialled_client_is_accepted_witness:
  "\<exists>opt conn1. NewClient demo_conn ('''', 200) opt = (Inr (NewClientCodec :: nat client), conn1) \<and>
     fst conn1 = json_option opt \<and> opt = DefaultOption"
proof -
  let ?dial = "\<lambda>n a t. Inr ('''', 200)"
  have "Dial ?dial False demo_conn ''tcp'' ''a'' [] = (Inr (NewClientCodec :: nat client), [])"
    by (simp add: Dial_def DialTimeout_def parseOptions_def NewClient_def has_codec_def DefaultOption_def demo_conn_def
        json_option_def FormatInt_def GobType_def MagicNum_def Itoa.simps LF_def)
  from dialled_client_is_accepted [OF demo_conn_ok this] show ?thesis
    by (auto simp: parseOptions_def)
qed

end
