(* ===== verification/Rpc_Broadcast.thy ===== *)
theory Rpc_Broadcast
  imports Rpc_Connect
begin

text \<open>
  \<open>Broadcast\<close> of MyRPC/xclient/xclient.go: the same call to every server that the discovery
  lists, each in a goroutine of its own. The goroutines share, under a mutex, the first error
  and whether the reply has been set; the first error cancels the context of the calls that are
  still under way. A step is a dial (which runs under the mutex of the \<open>XClient\<close>), the end of a
  call, or the block under the mutex; the goroutines take them in any order.
\<close>

section \<open>The goroutines\<close>

record 'v broadcast =
  bc_e :: "string option"
  bc_replyDone :: bool
  bc_reply :: "'v option"
  bc_cancelled :: bool

definition broadcast_init :: "bool \<Rightarrow> 'v broadcast" where
  "broadcast_init wanted = \<lparr>bc_e = None, bc_replyDone = \<not> wanted, bc_reply = None, bc_cancelled = False\<rparr>"

definition broadcast_done :: "string + 'v \<Rightarrow> 'v broadcast \<Rightarrow> 'v broadcast" where
  "broadcast_done res b =
     (let b1 = (case res of
            Inl e \<Rightarrow> if bc_e b = None then b\<lparr>bc_e := Some e, bc_cancelled := True\<rparr> else b
          | Inr v \<Rightarrow> b)
      in case res of
           Inl e \<Rightarrow> b1
         | Inr v \<Rightarrow> if \<not> bc_replyDone b1 then b1\<lparr>bc_reply := Some v, bc_replyDone := True\<rparr> else b1)"

text \<open>
  Where a goroutine is; a result is marked if it is the error of a cancelled context. \<open>bs_log\<close> has
  the goroutines that are done with their results, in the order in which they took the mutex.
\<close>

datatype 'v bc_pc = G_Start | G_Calling nat | G_Have "string + 'v" bool | G_Done

record ('v, 'd, 'w) bc_state =
  bs_pc :: "'v bc_pc list"
  bs_shared :: "'v broadcast"
  bs_x :: "'d xclient"
  bs_w :: 'w
  bs_log :: "(nat \<times> (string + 'v) \<times> bool) list"

definition context_canceled :: string where
  "context_canceled = ''context canceled''"

text \<open>\<open>ctx_err\<close> is the error of the caller's context, if that ends.\<close>

inductive bc_step ::
  "('v, 'w) network \<Rightarrow> string list \<Rightarrow> string option \<Rightarrow> string \<Rightarrow> 'v \<Rightarrow> ('v, 'd, 'w) bc_state \<Rightarrow> ('v, 'd, 'w) bc_state \<Rightarrow> bool"
  for net servers ctx_err m args where
  dial: "i < length (bs_pc S) \<Longrightarrow> bs_pc S ! i = G_Start \<Longrightarrow>
     X_dial net (servers ! i) (bs_x S, bs_w S) = (r, X, w) \<Longrightarrow>
     bc_step net servers ctx_err m args S (S\<lparr>bs_x := X, bs_w := w,
       bs_pc := (bs_pc S)[i := (case r of Inl e \<Rightarrow> G_Have (Inl e) False | Inr c \<Rightarrow> G_Calling c)]\<rparr>)"
| reply: "i < length (bs_pc S) \<Longrightarrow> bs_pc S ! i = G_Calling c \<Longrightarrow>
     client_Call net c m args (bs_w S) = (r, w) \<Longrightarrow>
     bc_step net servers ctx_err m args S (S\<lparr>bs_w := w, bs_pc := (bs_pc S)[i := G_Have r False]\<rparr>)"
| cancel: "i < length (bs_pc S) \<Longrightarrow> bs_pc S ! i = G_Calling c \<Longrightarrow>
     ctx_err = Some e \<or> bc_cancelled (bs_shared S) \<and> e = context_canceled \<Longrightarrow>
     bc_step net servers ctx_err m args S (S\<lparr>bs_pc := (bs_pc S)[i := G_Have (Inl (call_failed @ e)) True]\<rparr>)"
| finish: "i < length (bs_pc S) \<Longrightarrow> bs_pc S ! i = G_Have r k \<Longrightarrow>
     bc_step net servers ctx_err m args S (S\<lparr>bs_shared := broadcast_done r (bs_shared S),
       bs_pc := (bs_pc S)[i := G_Done], bs_log := bs_log S @ [(i, r, k)]\<rparr>)"

definition bc_start :: "string list \<Rightarrow> bool \<Rightarrow> 'd xclient \<Rightarrow> 'w \<Rightarrow> ('v, 'd, 'w) bc_state" where
  "bc_start servers wanted X w = \<lparr>bs_pc = map (\<lambda>a. G_Start) servers, bs_shared = broadcast_init wanted,
     bs_x = X, bs_w = w, bs_log = []\<rparr>"

definition bc_ended :: "('v, 'd, 'w) bc_state \<Rightarrow> bool" where
  "bc_ended S \<longleftrightarrow> (\<forall>p \<in> set (bs_pc S). p = G_Done)"

text \<open>
  The whole: \<open>get_all\<close> is the method of the discovery, \<open>wanted\<close> says that the caller passed a reply;
  \<open>wg.Wait\<close> lets it return when every goroutine is done, with the first error and the reply.
\<close>

inductive Broadcast ::
  "('v, 'w) network \<Rightarrow> ('d \<Rightarrow> (string + string list) \<times> 'd) \<Rightarrow> bool \<Rightarrow> string option \<Rightarrow> string \<Rightarrow> 'v \<Rightarrow>
   'd xclient \<times> 'w \<Rightarrow> (string option \<times> 'v option) \<times> ('v, 'd, 'w) bc_state \<Rightarrow> bool"
  for net get_all wanted ctx_err m args where
  no_servers: "get_all (x_dis X) = (Inl e, d) \<Longrightarrow>
     Broadcast net get_all wanted ctx_err m args (X, w)
       ((Some e, None), bc_start [] wanted (X\<lparr>x_dis := d\<rparr>) w)"
| servers: "get_all (x_dis X) = (Inr servers, d) \<Longrightarrow>
     (bc_step net servers ctx_err m args)\<^sup>*\<^sup>* (bc_start servers wanted (X\<lparr>x_dis := d\<rparr>) w) S \<Longrightarrow> bc_ended S \<Longrightarrow>
     Broadcast net get_all wanted ctx_err m args (X, w) ((bc_e (bs_shared S), bc_reply (bs_shared S)), S)"

inductive_cases bc_stepE: "bc_step net servers ctx_err m args S S'"

section \<open>What they share\<close>

fun first_error :: "(string + 'v) list \<Rightarrow> string option" where
  "first_error [] = None"
| "first_error (Inl e # rs) = Some e"
| "first_error (Inr v # rs) = first_error rs"

fun first_reply :: "(string + 'v) list \<Rightarrow> 'v option" where
  "first_reply [] = None"
| "first_reply (Inr v # rs) = Some v"
| "first_reply (Inl e # rs) = first_reply rs"

lemma first_error_None: "first_error rs = None \<longleftrightarrow> (\<forall>r \<in> set rs. \<exists>v. r = Inr v)"
  by (induction rs rule: first_error.induct) auto

lemma first_error_append: "first_error (rs @ [r]) = (case first_error rs of
    Some e \<Rightarrow> Some e | None \<Rightarrow> (case r of Inl e \<Rightarrow> Some e | Inr v \<Rightarrow> None))"
  by (induction rs rule: first_error.induct) (auto split: sum.split)

lemma first_reply_append: "first_reply (rs @ [r]) = (case first_reply rs of
    Some v \<Rightarrow> Some v | None \<Rightarrow> (case r of Inl e \<Rightarrow> None | Inr v \<Rightarrow> Some v))"
  by (induction rs rule: first_reply.induct) (auto split: sum.split)

text \<open>What the results so far make of the shared variables.\<close>

definition shared_of :: "bool \<Rightarrow> (string + 'v) list \<Rightarrow> 'v broadcast" where
  "shared_of wanted rs = \<lparr>bc_e = first_error rs, bc_replyDone = (\<not> wanted \<or> first_reply rs \<noteq> None),
     bc_reply = (if wanted then first_reply rs else None), bc_cancelled = (first_error rs \<noteq> None)\<rparr>"

lemma shared_of_Nil: "shared_of wanted [] = broadcast_init wanted"
  by (simp add: shared_of_def broadcast_init_def)

lemma shared_of_snoc: "broadcast_done r (shared_of wanted rs) = shared_of wanted (rs @ [r])"
  by (cases r) (auto simp: broadcast_done_def shared_of_def Let_def first_error_append first_reply_append
      split: option.split)

section \<open>Who is done, and with what\<close>

definition results :: "('v, 'd, 'w) bc_state \<Rightarrow> (string + 'v) list" where
  "results S = map (fst \<circ> snd) (bs_log S)"

text \<open>A result of the caller's own context ending comes after an error that has cancelled it.\<close>

definition own_cancels_late :: "(nat \<times> (string + 'v) \<times> bool) list \<Rightarrow> bool" where
  "own_cancels_late log \<longleftrightarrow>
     (\<forall>pre i r post. log = pre @ (i, r, True) # post \<longrightarrow> first_error (map (fst \<circ> snd) pre) \<noteq> None)"

definition bc_inv :: "nat \<Rightarrow> bool \<Rightarrow> string option \<Rightarrow> ('v, 'd, 'w) bc_state \<Rightarrow> bool" where
  "bc_inv n wanted ctx_err S \<longleftrightarrow>
     length (bs_pc S) = n \<and> bs_shared S = shared_of wanted (results S) \<and>
     distinct (map fst (bs_log S)) \<and> fst ` set (bs_log S) = {i. i < n \<and> bs_pc S ! i = G_Done} \<and>
     (ctx_err = None \<longrightarrow> own_cancels_late (bs_log S) \<and>
        (\<forall>i r. i < n \<longrightarrow> bs_pc S ! i = G_Have r True \<longrightarrow> first_error (results S) \<noteq> None))"

lemma own_cancels_late_snoc:
  assumes "own_cancels_late log" and "k \<longrightarrow> first_error (map (fst \<circ> snd) log) \<noteq> None"
  shows "own_cancels_late (log @ [(i, r, k)])"
  unfolding own_cancels_late_def
proof (intro allI impI)
  fix pre j s post
  assume *: "log @ [(i, r, k)] = pre @ (j, s, True) # post"
  show "first_error (map (fst \<circ> snd) pre) \<noteq> None"
  proof (cases post rule: rev_cases)
    case Nil
    with * assms(2) show ?thesis by simp
  next
    case (snoc ys y)
    with * have "log = pre @ (j, s, True) # ys" by simp
    with assms(1) show ?thesis unfolding own_cancels_late_def by blast
  qed
qed

lemma first_error_Some:
  "first_error (map (fst \<circ> snd) log) = Some e \<Longrightarrow>
    \<exists>pre i k post. log = pre @ (i, Inl e, k) # post \<and> first_error (map (fst \<circ> snd) pre) = None"
proof (induction log)
  case (Cons x log)
  obtain i r k where x: "x = (i, r, k)" by (cases x)
  show ?case
  proof (cases r)
    case (Inl e')
    with Cons.prems x show ?thesis by (intro exI [of _ "[]"]) simp
  next
    case (Inr v)
    with Cons.prems x have "first_error (map (fst \<circ> snd) log) = Some e" by (simp add: comp_def)
    from Cons.IH [OF this] obtain pre j k' post where "log = pre @ (j, Inl e, k') # post"
      "first_error (map (fst \<circ> snd) pre) = None" by blast
    with x Inr show ?thesis by (intro exI [of _ "x # pre"]) (simp add: comp_def)
  qed
qed simp

lemma own_cancels_late_first:
  assumes "own_cancels_late log" and "first_error (map (fst \<circ> snd) log) = Some e"
  shows "\<exists>i. (i, Inl e, False) \<in> set log"
proof -
  obtain pre i k post where l: "log = pre @ (i, Inl e, k) # post" "first_error (map (fst \<circ> snd) pre) = None"
    using first_error_Some [OF assms(2)] by blast
  have "\<not> k" using assms(1) l unfolding own_cancels_late_def by (cases k) blast+
  with l show ?thesis by auto
qed

lemma bc_inv_start: "bc_inv (length servers) wanted ctx_err (bc_start servers wanted X w)"
  by (auto simp: bc_inv_def bc_start_def results_def shared_of_Nil own_cancels_late_def)

lemma bc_inv_step:
  assumes "bc_step net servers ctx_err m args S S'" and "bc_inv n wanted ctx_err S"
  shows "bc_inv n wanted ctx_err S'"
  using assms(1)
proof cases
  case (dial i r X w)
  with assms(2) show ?thesis
    by (auto simp: bc_inv_def results_def nth_list_update split: sum.splits if_splits)
next
  case (reply i c r w)
  with assms(2) show ?thesis by (auto simp: bc_inv_def results_def nth_list_update split: if_splits)
next
  case (cancel i c e)
  have "ctx_err = None \<Longrightarrow> first_error (results S) \<noteq> None"
    using cancel assms(2) by (auto simp: bc_inv_def shared_of_def)
  with cancel assms(2) show ?thesis by (auto simp: bc_inv_def results_def nth_list_update split: if_splits)
next
  case (finish i r k)
  have r: "results S' = results S @ [r]" using finish by (simp add: results_def)
  have i: "i < n" "i \<notin> fst ` set (bs_log S)" using finish assms(2) by (auto simp: bc_inv_def)
  have k: "ctx_err = None \<Longrightarrow> own_cancels_late (bs_log S')"
    using finish assms(2) i own_cancels_late_snoc [of "bs_log S" k i r] by (cases k) (auto simp: bc_inv_def results_def)
  have "{j. j < n \<and> (bs_pc S)[i := G_Done] ! j = G_Done} = insert i {j. j < n \<and> bs_pc S ! j = G_Done}"
    using finish i assms(2) by (auto simp: bc_inv_def nth_list_update)
  moreover have "first_error (results S') \<noteq> None" if "first_error (results S) \<noteq> None"
    using that by (auto simp: r first_error_append split: option.splits)
  ultimately show ?thesis
    using finish assms(2) i k r by (auto simp: bc_inv_def shared_of_snoc nth_list_update split: if_splits)
qed

text \<open>The machine starts with the goroutines of all servers; its invariant is kept for each number of them.\<close>

interpretation bc: machine "\<lambda>S. \<exists>X w. S = bc_start servers wanted X w" "bc_step net servers ctx_err m args"
  "bc_inv (length servers) wanted ctx_err" for net servers wanted ctx_err m args
  by unfold_locales (auto intro: bc_inv_start bc_inv_step)

section \<open>How long it takes\<close>

fun rank :: "'v bc_pc \<Rightarrow> nat" where
  "rank G_Start = 3"
| "rank (G_Calling c) = 2"
| "rank (G_Have r k) = 1"
| "rank G_Done = 0"

definition bc_left :: "('v, 'd, 'w) bc_state \<Rightarrow> nat" where
  "bc_left S = sum_list (map rank (bs_pc S))"

lemma sum_rank_update:
  "i < length ps \<Longrightarrow> rank p < rank (ps ! i) \<Longrightarrow> sum_list (map rank (ps[i := p])) < sum_list (map rank ps)"
  by (induction ps arbitrary: i) (auto split: nat.split simp: nth_Cons)

lemma bc_step_left: "bc_step net servers ctx_err m args S S' \<Longrightarrow> bc_left S' < bc_left S"
  by (erule bc_stepE) (auto simp: bc_left_def intro!: sum_rank_update split: sum.split)

lemma bc_progress:
  assumes "\<not> bc_ended S"
  shows "\<exists>S'. bc_step net servers ctx_err m args S S'"
proof -
  obtain i where i: "i < length (bs_pc S)" "bs_pc S ! i \<noteq> G_Done"
    using assms by (auto simp: bc_ended_def in_set_conv_nth)
  show ?thesis
  proof (cases "bs_pc S ! i")
    case G_Start
    obtain r X w where "X_dial net (servers ! i) (bs_x S, bs_w S) = (r, X, w)" by (metis prod.collapse)
    from bc_step.dial [OF i(1) G_Start this] show ?thesis by blast
  next
    case (G_Calling c)
    obtain r w where "client_Call net c m args (bs_w S) = (r, w)" by fastforce
    from bc_step.reply [OF i(1) G_Calling this] show ?thesis by blast
  next
    case (G_Have r k)
    from bc_step.finish [OF i(1) this] show ?thesis by blast
  qed (use i in simp)
qed

interpretation bc_end: ending_machine "\<lambda>S. \<exists>X w. S = bc_start servers wanted X w" "bc_step net servers ctx_err m args"
  "bc_inv (length servers) wanted ctx_err" bc_ended bc_left for net servers wanted ctx_err m args
  by unfold_locales (rule bc_progress, assumption, rule bc_step_left)

lemma bc_left_start: "bc_left (bc_start servers wanted X w) = 3 * length servers"
  by (simp add: bc_left_def bc_start_def comp_def map_replicate_const sum_list_replicate)

lemma Broadcast_total: "\<exists>r. Broadcast net get_all wanted ctx_err m args (X, w) r"
proof (cases "get_all (x_dis X)")
  case (Pair r d)
  then show ?thesis
  proof (cases r)
    case (Inl e)
    with Pair show ?thesis by (meson Broadcast.no_servers)
  next
    case (Inr servers)
    have "bc_inv (length servers) wanted ctx_err (bc_start servers wanted (X\<lparr>x_dis := d\<rparr>) w)"
      by (rule bc_inv_start)
    from bc_end.can_end [OF this, of net m args]
    obtain S where S: "(bc_step net servers ctx_err m args)\<^sup>*\<^sup>* (bc_start servers wanted (X\<lparr>x_dis := d\<rparr>) w) S"
      "bc_ended S" by (elim exE conjE)
    have "get_all (x_dis X) = (Inr servers, d)" using Pair Inr by simp
    from Broadcast.servers [where get_all = get_all and X = X, OF this S] show ?thesis by (rule exI)
  qed
qed

section \<open>Properties\<close>


text \<open>
  \<open>Broadcast\<close> returns: the goroutines are never stuck before all are done, and each takes at
  most three steps, so whatever the order no run is longer than three steps for each server.
\<close>

theorem Broadcast_always_returns:
  "(\<not> bc_ended S \<longrightarrow> (\<exists>S'. bc_step net servers ctx_err m args S S')) \<and>
   (\<forall>S'. bc_step net servers ctx_err m args S S' \<longrightarrow> bc_left S' < bc_left S) \<and>
   bc_left (bc_start servers wanted X w) = 3 * length servers \<and>
   (\<exists>r. Broadcast net get_all wanted ctx_err m args (X, w) r)"
  by (intro conjI impI allI bc_progress bc_step_left bc_left_start Broadcast_total)

text \<open>Two servers of a list; the network gives each client a number and answers with it added.\<close>

definition demo_two :: "unit multi_discovery" where
  "demo_two = \<lparr>ran = (), disc_servers = [''tcp@a'', ''tcp@b''], disc_index = 0\<rparr>"


theorem Broadcast_always_returns_witness:
  "\<exists>S' :: (nat, unit, nat) bc_state. bc_step demo_network [''tcp@a''] None ''Foo.Sum'' 3
     (bc_start [''tcp@a''] True (NewXClient () 0 None) 0) S' \<and> bc_left S' < 3"
proof -
  let ?S = "bc_start [''tcp@a''] True (NewXClient () 0 None) 0 :: (nat, unit, nat) bc_state"
  note A = Broadcast_always_returns [of ?S demo_network "[''tcp@a'']" None "''Foo.Sum''" 3 True]
  have "\<not> bc_ended ?S" by (simp add: bc_ended_def bc_start_def)
  with A obtain S' where S': "bc_step demo_network [''tcp@a''] None ''Foo.Sum'' 3 ?S S'" by blast
  with A have "bc_left S' < bc_left ?S" by blast
  with S' show ?thesis by (intro exI [of _ S']) (simp add: bc_left_start)
qed

end
