(* ===== verification/Rpc_System.thy ===== *)
theory Rpc_System
  imports Rpc_Client
begin

text \<open>
  One client, one connection and one server together. The goroutines that use the client, its
  reader, the loop of the server and the goroutines that handle its requests take steps in any
  order; the two directions of the connection are queues of messages; either side may fail to
  write at any time. The theory shows that whatever they do, a call is only ever completed by
  an answer to that very call.

  The steps of the client are those of \<open>Rpc_Client\<close>, the server reads with \<open>readRequest\<close> and
  handles with \<open>handle_step\<close> of \<open>Rpc_Server\<close>. What the gob codec does is a parameter: how
  headers, arguments and replies are encoded and decoded.
\<close>

section \<open>State and steps\<close>

record ('m, 'v) wire =
  wire_cc :: "('m, 'v) codec_fns"
  enc_header :: "header \<Rightarrow> 'm"
  enc_args :: "'v \<Rightarrow> 'm"
  enc_reply :: "'v option \<Rightarrow> 'm"
  dec_reply :: "'m \<Rightarrow> string + 'v"

text \<open>
  Documented of gob: a header decodes to what it was, and an argument whose type has no field
  of the header does not decode as one.
\<close>

definition wire_ok :: "('m, 'v) wire \<Rightarrow> bool" where
  "wire_ok W \<longleftrightarrow> (\<forall>h. dec_header (wire_cc W) (enc_header W h) = Inr h) \<and>
     (\<forall>a. \<exists>e. dec_header (wire_cc W) (enc_args W a) = Inl e)"

text \<open>
  The arguments of a call, by its number; the queues with a flag each that the connection still
  takes messages; the server, its world, whether its loop still reads, and its requests.
\<close>

record ('m, 'v, 'w) rpc_sys =
  s_client :: "'v client"
  s_args :: "nat \<Rightarrow> 'v"
  s_req :: "'m list"
  s_up :: bool
  s_server :: "('v, 'w) server"
  s_world :: 'w
  s_serving :: bool
  s_hand :: "('v request \<times> 'v handling) list"
  s_resp :: "'m list"
  s_down :: bool

definition sys_start :: "('v, 'w) server \<Rightarrow> (nat \<Rightarrow> 'v) \<Rightarrow> 'w \<Rightarrow> ('m, 'v, 'w) rpc_sys" where
  "sys_start srv args w = \<lparr>s_client = NewClientCodec, s_args = args, s_req = [], s_up = True,
     s_server = srv, s_world = w, s_serving = True, s_hand = [], s_resp = [], s_down = True\<rparr>"

text \<open>
  A \<open>Write\<close> of a header and a body: both arrive, or the connection fails before it or between
  the two. An error of the last flush is not reported, so a write that failed may look like
  one that succeeded.
\<close>

definition writes :: "'m \<Rightarrow> 'm \<Rightarrow> bool \<Rightarrow> 'm list \<Rightarrow> bool \<Rightarrow> bool" where
  "writes mh mb opened out opened' \<longleftrightarrow>
     (opened \<and> out = [mh, mb] \<and> opened') \<or> (\<not> opened' \<and> (out = [] \<or> opened \<and> out = [mh]))"

text \<open>The header that \<open>Send\<close> prepares.\<close>

definition call_header :: "'v rpc_call \<Rightarrow> header" where
  "call_header x = \<lparr>h_ServiceMethod = c_ServiceMethod x, h_Seq = c_Seq x, h_Error = ''''\<rparr>"

definition sent_header :: "('m, 'v, 'w) rpc_sys \<Rightarrow> nat \<Rightarrow> header" where
  "sent_header S i = call_header (the (cl_calls (s_client S) i))"

inductive sys_step ::
  "('m, 'v) wire \<Rightarrow> (string \<Rightarrow> string) \<Rightarrow> int \<Rightarrow> ('m, 'v, 'w) rpc_sys \<Rightarrow> ('m, 'v, 'w) rpc_sys \<Rightarrow> bool"
  for W errorf timeout where
  go: "cl_calls (s_client S) i = None \<Longrightarrow>
     sys_step W errorf timeout S (S\<lparr>s_client := (s_client S)\<lparr>cl_calls := (cl_calls (s_client S))(i \<mapsto> new_call sm)\<rparr>\<rparr>)"
| send: "cl_calls (s_client S) i = Some x \<Longrightarrow> c_pc x = P_New \<Longrightarrow> cl_send (s_client S) = None \<Longrightarrow>
     sys_step W errorf timeout S (S\<lparr>s_client := Send_start i (s_client S)\<rparr>)"
| written: "cl_send (s_client S) = Some i \<Longrightarrow>
     writes (enc_header W (sent_header S i)) (enc_args W (s_args S i)) (s_up S) out up \<Longrightarrow>
     sys_step W errorf timeout S (S\<lparr>s_client := Send_written i (s_client S), s_req := s_req S @ out, s_up := up\<rparr>)"
| failed: "cl_send (s_client S) = Some i \<Longrightarrow>
     writes (enc_header W (sent_header S i)) (enc_args W (s_args S i)) (s_up S) out False \<Longrightarrow>
     sys_step W errorf timeout S (S\<lparr>s_client := Send_failed i e (s_client S), s_req := s_req S @ out, s_up := False\<rparr>)"
| serve_bad: "s_serving S \<Longrightarrow> s_req S \<noteq> [] \<Longrightarrow>
     readRequest (wire_cc W) (s_server S) (s_req S) = (Ret (Bad_request h e), ms) \<Longrightarrow>
     writes (enc_header W (h\<lparr>h_Error := e\<rparr>)) (enc_reply W None) (s_down S) out down \<Longrightarrow>
     sys_step W errorf timeout S (S\<lparr>s_req := ms, s_resp := s_resp S @ out, s_down := down\<rparr>)"
| serve_good: "s_serving S \<Longrightarrow> s_req S \<noteq> [] \<Longrightarrow>
     readRequest (wire_cc W) (s_server S) (s_req S) = (Ret (Good_request rq), ms) \<Longrightarrow>
     sys_step W errorf timeout S (S\<lparr>s_req := ms, s_hand := s_hand S @ [(rq, handle_start)]\<rparr>)"
| serve_end: "s_serving S \<Longrightarrow> s_req S \<noteq> [] \<or> \<not> s_up S \<Longrightarrow>
     readRequest (wire_cc W) (s_server S) (s_req S) = (Ret (No_request e), ms) \<Longrightarrow>
     sys_step W errorf timeout S (S\<lparr>s_req := ms, s_serving := False\<rparr>)"
| method_returns: "k < length (s_hand S) \<Longrightarrow> s_hand S ! k = (rq, st) \<Longrightarrow> hd_call st = C_Calling \<Longrightarrow>
     server_call (s_server S) rq (s_world S) = ((Ret r, w), srv) \<Longrightarrow>
     sys_step W errorf timeout S (S\<lparr>s_server := srv, s_world := w,
       s_hand := (s_hand S)[k := (rq, st\<lparr>hd_call := C_Called r\<rparr>)]\<rparr>)"
| handle_quiet: "k < length (s_hand S) \<Longrightarrow> s_hand S ! k = (rq, st) \<Longrightarrow> handle_step timeout st st' \<Longrightarrow>
     hd_sent st' = hd_sent st \<Longrightarrow> \<not> (hd_call st = C_Calling \<and> hd_call st' \<noteq> C_Calling) \<Longrightarrow>
     sys_step W errorf timeout S (S\<lparr>s_hand := (s_hand S)[k := (rq, st')]\<rparr>)"
| handle_sends: "k < length (s_hand S) \<Longrightarrow> s_hand S ! k = (rq, st) \<Longrightarrow> handle_step timeout st st' \<Longrightarrow>
     hd_sent st' = hd_sent st @ [(e, b)] \<Longrightarrow>
     writes (enc_header W ((rq_h rq)\<lparr>h_Error := e\<rparr>)) (enc_reply W b) (s_down S) out down \<Longrightarrow>
     sys_step W errorf timeout S (S\<lparr>s_hand := (s_hand S)[k := (rq, st')],
       s_resp := s_resp S @ out, s_down := down\<rparr>)"
| read_header: "cl_recv (s_client S) = R_Loop \<Longrightarrow> s_resp S = m # ms \<Longrightarrow> dec_header (wire_cc W) m = Inr h \<Longrightarrow>
     sys_step W errorf timeout S (S\<lparr>s_client := receive_header h (s_client S), s_resp := ms\<rparr>)"
| header_error: "cl_recv (s_client S) = R_Loop \<Longrightarrow>
     sys_step W errorf timeout S (S\<lparr>s_client := (s_client S)\<lparr>cl_recv := R_Ended e\<rparr>\<rparr>)"
| body: "cl_recv (s_client S) = R_Have h r \<Longrightarrow> s_resp S = m # ms \<Longrightarrow>
     r = None \<or> h_Error h \<noteq> '''' \<or> res = dec_reply W m \<Longrightarrow>
     sys_step W errorf timeout S (S\<lparr>s_client := receive_body errorf h r res (s_client S), s_resp := ms\<rparr>)"
| body_error: "cl_recv (s_client S) = R_Have h r \<Longrightarrow>
     sys_step W errorf timeout S (S\<lparr>s_client := receive_body errorf h r (Inl e) (s_client S)\<rparr>)"
| terminate: "cl_recv (s_client S) = R_Ended e \<Longrightarrow> cl_send (s_client S) = None \<Longrightarrow> distinct order \<Longrightarrow>
     set order = dom (cl_pend (s_client S)) \<Longrightarrow>
     sys_step W errorf timeout S (S\<lparr>s_client := (terminateCalls e order (s_client S))\<lparr>cl_recv := R_Dead\<rparr>\<rparr>)"
| cancel: "cl_calls (s_client S) i = Some x \<Longrightarrow> c_pc x = P_Sent \<Longrightarrow>
     sys_step W errorf timeout S (S\<lparr>s_client := Call_cancel i (s_client S)\<rparr>)"
| close: "sys_step W errorf timeout S (S\<lparr>s_client := snd (Client_Close (s_client S)), s_up := False\<rparr>)"

section \<open>The client within the system\<close>

lemma sys_client_step:
  assumes "sys_step W errorf timeout S S'"
  shows "s_client S' = s_client S \<or> cl_step errorf (s_client S) (s_client S')"
  using assms by cases (auto intro: cl_step.intros)

interpretation sys_client: simulation "sys_step W errorf timeout" "cl_step errorf" s_client for W errorf timeout
  by unfold_locales (rule sys_client_step)

lemma sys_client_reach:
  assumes "(sys_step W errorf timeout)\<^sup>*\<^sup>* (sys_start srv args w) S"
  shows "cl_reach errorf (s_client S)"
  using sys_client.abs_steps [OF assms] by (simp add: sys_start_def)

lemma sys_args: "sys_step W errorf timeout S S' \<Longrightarrow> s_args S' = s_args S"
  by (erule sys_step.cases) simp_all

text \<open>
  How a step of the client changes a call, other than by completing it with a response: the
  call is new, or what it is and what it got stay the same, or it fails.
\<close>

definition kept :: "'v rpc_call \<Rightarrow> 'v rpc_call \<Rightarrow> bool" where
  "kept x x' \<longleftrightarrow> c_ServiceMethod x' = c_ServiceMethod x \<and> c_Reply x' = c_Reply x \<and> c_from x' = c_from x \<and>
     (c_num x \<noteq> None \<longrightarrow> c_num x' = c_num x \<and> c_Seq x' = c_Seq x)"

definition call_change :: "'v client \<Rightarrow> nat \<Rightarrow> 'v rpc_call \<Rightarrow> bool" where
  "call_change c i x' \<longleftrightarrow> (case cl_calls c i of
     None \<Rightarrow> \<exists>sm. x' = new_call sm
   | Some x \<Rightarrow> kept x x' \<and> (c_Error x' = c_Error x \<and> c_Done x' = c_Done x \<or> c_Done x = 0 \<and> c_Done x' = 1))"

lemma change_refl: "cl_calls c' i = cl_calls c i \<Longrightarrow> cl_calls c' i = Some x' \<Longrightarrow> call_change c i x'"
  by (cases "cl_calls c i") (auto simp: call_change_def kept_def)


lemma pending_not_done:
  assumes "cl_inv c" and "cl_recv c \<noteq> R_Dead" and "cl_pend c s = Some i"
  shows "\<exists>x. cl_calls c i = Some x \<and> c_Done x = 0"
  using cl_invD(5) [OF assms(1,3)] assms(2) by auto

lemma change_send:
  assumes "cl_inv c" and "cl_calls c i = Some x" and "c_pc x = P_New" and "cl_calls (Send_start i c) j = Some y"
  shows "call_change c j y"
proof -
  have "c_num x = None" "c_Done x = 0"
    using cl_invD(3) [OF assms(1,2)] assms(3) by (auto simp: call_ok_def)
  then show ?thesis
    using assms(2,4) by (cases "j = i")
      (auto simp: call_change_def kept_def Send_start_def registerCall_def Let_def fail_call_def split: if_splits option.splits)
qed

lemma change_failed:
  assumes "cl_inv c" and "cl_send c = Some i" and "cl_calls (Send_failed i e c) j = Some y"
  shows "call_change c j y"
proof -
  obtain x where x: "cl_calls c i = Some x" using cl_invD(7) [OF assms(1,2)] by blast
  have "cl_recv c \<noteq> R_Dead" using cl_invD(9) [OF assms(1)] assms(2) by auto
  then have p: "\<exists>z. cl_calls c l = Some z \<and> c_Done z = 0" if "cl_pend c s = Some l" for s l
    using pending_not_done [OF assms(1)] that by blast
  show ?thesis
  proof (cases "cl_pend c (c_Seq x)")
    case None
    then show ?thesis using assms(3) x
      by (cases "j = i") (auto simp: call_change_def kept_def Send_failed_def removeCall_def split: option.splits)
  next
    case (Some l)
    then show ?thesis using assms(3) x p [OF Some]
      by (cases "j = i"; cases "j = l")
        (auto simp: call_change_def kept_def Send_failed_def removeCall_def fail_call_def split: option.splits)
  qed
qed

lemma terminate_calls:
  assumes "cl_inv c" and "distinct order" and "set order = dom (cl_pend c)"
  shows "cl_calls (terminateCalls e order c) i =
    (if \<exists>s. cl_pend c s = Some i then map_option (fail_call e) (cl_calls c i) else cl_calls c i)"
proof -
  have inj: "s = t" if "cl_pend c s = Some i" "cl_pend c t = Some i" for s t i
    using cl_invD(5) [OF assms(1) that(1)] cl_invD(5) [OF assms(1) that(2)] by auto
  have ex: "(\<exists>s \<in> set order. cl_pend c s = Some i) \<longleftrightarrow> (\<exists>s. cl_pend c s = Some i)" for i
    using assms(3) by auto
  show ?thesis
    unfolding terminateCalls_def using terminate_fold [OF assms(2), of "c\<lparr>cl_shutdown := True\<rparr>" e] inj
    by (simp add: ex cong: if_cong)
qed

lemma change_terminate:
  assumes "cl_inv c" and "cl_recv c = R_Ended e" and "distinct order" and "set order = dom (cl_pend c)"
    and "cl_calls ((terminateCalls e order c)\<lparr>cl_recv := R_Dead\<rparr>) j = Some y"
  shows "call_change c j y"
proof -
  have y: "cl_calls (terminateCalls e order c) j = Some y" using assms(5) by simp
  show ?thesis
  proof (cases "\<exists>s. cl_pend c s = Some j")
    case True
    then obtain x where "cl_calls c j = Some x" "c_Done x = 0"
      using pending_not_done [OF assms(1)] assms(2) by fastforce
    with True y show ?thesis
      by (auto simp: terminate_calls [OF assms(1,3,4)] call_change_def kept_def fail_call_def)
  next
    case False
    with y show ?thesis by (simp add: terminate_calls [OF assms(1,3,4)] change_refl)
  qed
qed

lemma client_change:
  assumes "cl_step errorf c c'" and "cl_inv c" and "cl_calls c' j = Some y"
    and "\<And>h i res. cl_recv c = R_Have h (Some i) \<Longrightarrow> c' \<noteq> receive_body errorf h (Some i) res c"
  shows "call_change c j y"
  using assms(1)
proof cases
  case (go i sm)
  with assms(3) show ?thesis
    by (cases "j = i") (auto simp: call_change_def kept_def split: option.split)
next
  case (send i x)
  with change_send [OF assms(2) send(2,3)] assms(3) show ?thesis by simp
next
  case (written i)
  with assms(3) show ?thesis
    by (cases "j = i") (auto simp: call_change_def kept_def Send_written_def split: option.split)
next
  case (failed i e)
  with change_failed [OF assms(2) failed(2)] assms(3) show ?thesis by simp
next
  case (body h r res)
  with assms(3,4) show ?thesis
    by (cases r) (auto simp: receive_body_def Let_def intro: change_refl)
next
  case (terminate e order)
  with change_terminate [OF assms(2) terminate(2,4,5)] assms(3) show ?thesis by simp
next
  case (cancel i x)
  with assms(3) show ?thesis
    by (cases "j = i") (auto simp: call_change_def kept_def Call_cancel_def removeCall_def split: option.split)
next
  case close
  with assms(3) show ?thesis by (auto simp: Client_Close_def intro: change_refl split: if_splits)
qed (use assms(3) in \<open>auto simp: receive_header_def removeCall_def intro: change_refl\<close>)

text \<open>A registered call stays what it is.\<close>

definition origin :: "'v client \<Rightarrow> header \<Rightarrow> nat \<Rightarrow> bool" where
  "origin c h i \<longleftrightarrow> (\<exists>x. cl_calls c i = Some x \<and> c_num x \<noteq> None \<and> c_Seq x = h_Seq h \<and>
     c_ServiceMethod x = h_ServiceMethod h)"

definition completed_call :: "(string \<Rightarrow> string) \<Rightarrow> header \<Rightarrow> string + 'v \<Rightarrow> 'v rpc_call \<Rightarrow> 'v rpc_call" where
  "completed_call errorf h res x =
     (if h_Error h \<noteq> '''' then (fail_call (errorf (h_Error h)) x)\<lparr>c_from := Some h\<rparr>
      else case res of
        Inl e \<Rightarrow> (fail_call (''reading body '' @ e) x)\<lparr>c_from := Some h\<rparr>
      | Inr v \<Rightarrow> x\<lparr>c_Reply := Some v, c_Done := Suc (c_Done x), c_from := Some h\<rparr>)"

lemma receive_body_calls:
  "cl_calls (receive_body errorf h r res c) j =
     (if r = Some j then map_option (completed_call errorf h res) (cl_calls c j) else cl_calls c j)"
  by (cases r) (auto simp: receive_body_def Let_def completed_call_def [abs_def] split: sum.split)

lemma completed_call_id:
  "c_ServiceMethod (completed_call errorf h res x) = c_ServiceMethod x"
  "c_num (completed_call errorf h res x) = c_num x" "c_Seq (completed_call errorf h res x) = c_Seq x"
  by (simp_all add: completed_call_def fail_call_def split: sum.split)

lemma origin_step:
  assumes "cl_step errorf c c'" and "cl_inv c" and "origin c h i"
  shows "origin c' h i"
proof (cases "\<exists>h r res. c' = receive_body errorf h r res c")
  case True
  then show ?thesis using assms(3)
    by (auto simp: origin_def receive_body_calls completed_call_id)
next
  case False
  obtain x where x: "cl_calls c i = Some x" "c_num x \<noteq> None" "c_Seq x = h_Seq h" "c_ServiceMethod x = h_ServiceMethod h"
    using assms(3) unfolding origin_def by blast
  have "\<exists>y. cl_calls c' i = Some y"
    using assms(1) x(1) False
    by cases (auto simp: Send_start_def registerCall_def Let_def Send_written_def Send_failed_def removeCall_def
        receive_header_def terminate_calls [OF assms(2)] Call_cancel_def Client_Close_def split: option.splits)
  then obtain y where y: "cl_calls c' i = Some y" ..
  have "call_change c i y" by (rule client_change [OF assms(1,2) y]) (use False in blast)
  with x y show ?thesis by (auto simp: call_change_def kept_def origin_def)
qed

lemma origin_unique:
  assumes "cl_inv c" and "cl_count c < 2 ^ 64" and "origin c h i" and "origin c h j"
  shows "i = j"
  using same_seq [OF assms(1,2)] assms(3,4) unfolding origin_def by (metis not_None_eq)

section \<open>The server within the system\<close>

text \<open>Calls only change the counters of the services.\<close>

definition services ::
  "('v, 'w) server \<Rightarrow> string \<Rightarrow> ('v \<times> (string \<Rightarrow> ('v, 'w) methodType option)) option" where
  "services srv sn = map_option (\<lambda>s. (svc_rcvr s, \<lambda>mn. map_option (\<lambda>m. m\<lparr>numCalls := 0\<rparr>) (svc_method s mn)))
     (serviceMap srv sn)"

lemma find_same:
  assumes "services srv = services srv'" and "findService sm srv = Inr (sn, mn, mt)"
  shows "\<exists>mt'. findService sm srv' = Inr (sn, mn, mt') \<and> mt'\<lparr>numCalls := 0\<rparr> = mt\<lparr>numCalls := 0\<rparr>"
proof -
  obtain dot s where d: "strings_LastIndex sm (CHR ''.'') = Some dot" "sn = take dot sm" "mn = drop (dot + 1) sm"
    "serviceMap srv sn = Some s" "svc_method s mn = Some mt"
    using assms(2) by (auto simp: findService_def Let_def split: option.splits)
  have "services srv sn = services srv' sn" by (simp add: assms(1))
  with d(4) obtain s' where s': "serviceMap srv' sn = Some s'"
    "(\<lambda>mn. map_option (\<lambda>m. m\<lparr>numCalls := 0\<rparr>) (svc_method s mn)) =
      (\<lambda>mn. map_option (\<lambda>m. m\<lparr>numCalls := 0\<rparr>) (svc_method s' mn))"
    by (cases "serviceMap srv' sn") (auto simp: services_def)
  from fun_cong [OF s'(2), of mn] d(5) obtain mt' where "svc_method s' mn = Some mt'"
    "mt'\<lparr>numCalls := 0\<rparr> = mt\<lparr>numCalls := 0\<rparr>"
    by (cases "svc_method s' mn") auto
  with d s' show ?thesis by (simp add: findService_def Let_def)
qed

lemma find_same_Inl:
  assumes "services srv = services srv'" and "findService sm srv = Inl e"
  shows "findService sm srv' = Inl e"
proof (cases "strings_LastIndex sm (CHR ''.'')")
  case None
  then show ?thesis using assms(2) by (simp add: findService_def)
next
  case (Some dot)
  let ?sn = "take dot sm" and ?mn = "drop (dot + 1) sm"
  have same: "services srv ?sn = services srv' ?sn" by (simp add: assms(1))
  show ?thesis
  proof (cases "serviceMap srv ?sn")
    case None
    with same have "serviceMap srv' ?sn = None" by (cases "serviceMap srv' ?sn") (auto simp: services_def)
    with None assms(2) Some show ?thesis by (simp add: findService_def Let_def)
  next
    case s: (Some s)
    with same obtain s' where s': "serviceMap srv' ?sn = Some s'"
      "(\<lambda>mn. map_option (\<lambda>m. m\<lparr>numCalls := 0\<rparr>) (svc_method s mn)) =
        (\<lambda>mn. map_option (\<lambda>m. m\<lparr>numCalls := 0\<rparr>) (svc_method s' mn))"
      by (cases "serviceMap srv' ?sn") (auto simp: services_def)
    have "svc_method s ?mn = None"
      using assms(2) Some s by (auto simp: findService_def Let_def split: option.splits)
    with fun_cong [OF s'(2), of ?mn] have "svc_method s' ?mn = None" by simp
    with assms(2) Some s s'(1) show ?thesis by (auto simp: findService_def Let_def split: option.splits)
  qed
qed

text \<open>The request that is made of a call, and what answers a call can get.\<close>

definition rq_for ::
  "('m, 'v) wire \<Rightarrow> ('v, 'w) server \<Rightarrow> string \<Rightarrow> 'v \<Rightarrow> 'v request \<Rightarrow> bool" where
  "rq_for W srv sm a rq \<longleftrightarrow> (\<exists>mt nv nr. findService sm srv = Inr (rq_service rq, rq_method rq, mt) \<and>
     newArgv mt = Ret nv \<and> newReplyv mt = Ret nr \<and> dec_body (wire_cc W) nv (enc_args W a) = Inr (rq_argv rq) \<and>
     rq_replyv rq = init_value (wire_cc W) nr)"

definition method_result :: "('v, 'w) server \<Rightarrow> 'v request \<Rightarrow> string option \<times> 'v \<Rightarrow> bool" where
  "method_result srv rq r \<longleftrightarrow> (\<exists>w. fst (fst (server_call srv rq w)) = Ret r)"

inductive answers ::
  "('m, 'v) wire \<Rightarrow> ('v, 'w) server \<Rightarrow> int \<Rightarrow> string \<Rightarrow> 'v \<Rightarrow> string \<times> 'v option \<Rightarrow> bool"
  for W srv timeout sm a where
  unknown: "findService sm srv = Inl e \<Longrightarrow> answers W srv timeout sm a (e, None)"
| cut_off: "findService sm srv = Inr f \<Longrightarrow> answers W srv timeout sm a (''EOF'', None)"
| bad_args: "findService sm srv = Inr (sn, mn, mt) \<Longrightarrow> newArgv mt = Ret nv \<Longrightarrow>
     dec_body (wire_cc W) nv (enc_args W a) = Inl e \<Longrightarrow> answers W srv timeout sm a (e, None)"
| timed_out: "rq_for W srv sm a rq \<Longrightarrow> timeout \<noteq> 0 \<Longrightarrow>
     answers W srv timeout sm a (handle_timeout timeout, None)"
| returned: "rq_for W srv sm a rq \<Longrightarrow> method_result srv rq r \<Longrightarrow>
     answers W srv timeout sm a (result_response r)"

lemma rq_for_found:
  assumes "rq_for W srv sm a rq"
  shows "\<exists>s mt. serviceMap srv (rq_service rq) = Some s \<and> svc_method s (rq_method rq) = Some mt"
  using assms by (auto simp: rq_for_def findService_def Let_def split: option.splits)

lemma server_call_services:
  assumes "rq_for W srv sm a rq" and "services srv' = services srv"
  shows "services (snd (server_call srv' rq w)) = services srv'"
    and "fst (server_call srv' rq w) = fst (server_call srv rq w)"
proof -
  obtain s mt where f: "serviceMap srv (rq_service rq) = Some s" "svc_method s (rq_method rq) = Some mt"
    using rq_for_found [OF assms(1)] by blast
  have "services srv' (rq_service rq) = services srv (rq_service rq)" by (simp add: assms(2))
  with f(1) obtain s' where s': "serviceMap srv' (rq_service rq) = Some s'" "svc_rcvr s' = svc_rcvr s"
    "(\<lambda>mn. map_option (\<lambda>m. m\<lparr>numCalls := 0\<rparr>) (svc_method s' mn)) =
      (\<lambda>mn. map_option (\<lambda>m. m\<lparr>numCalls := 0\<rparr>) (svc_method s mn))"
    by (cases "serviceMap srv' (rq_service rq)") (auto simp: services_def)
  from fun_cong [OF s'(3), of "rq_method rq"] f(2) obtain mt' where mt': "svc_method s' (rq_method rq) = Some mt'"
    "mt'\<lparr>numCalls := 0\<rparr> = mt\<lparr>numCalls := 0\<rparr>"
    by (cases "svc_method s' (rq_method rq)") auto
  have "mt_method (mt'\<lparr>numCalls := 0\<rparr>) = mt_method (mt\<lparr>numCalls := 0\<rparr>)" by (simp only: mt'(2))
  then show "fst (server_call srv' rq w) = fst (server_call srv rq w)"
    by (simp add: server_call_def service_call_def Let_def f s'(1,2) mt'(1))
  show "services (snd (server_call srv' rq w)) = services srv'"
    by (auto simp: fun_eq_iff services_def server_call_def service_call_def Let_def s'(1) mt'(1))
qed

section \<open>The invariant\<close>

subsection \<open>Requests on the wire\<close>

text \<open>Whatever the server can take for a header is that of a call, and its arguments follow.\<close>

fun req_ok :: "('m, 'v) wire \<Rightarrow> (header \<Rightarrow> nat \<Rightarrow> bool) \<Rightarrow> (nat \<Rightarrow> 'v) \<Rightarrow> 'm list \<Rightarrow> bool" where
  "req_ok W og args [] = True"
| "req_ok W og args (m # ms) \<longleftrightarrow> req_ok W og args ms \<and>
     (\<forall>h. dec_header (wire_cc W) m = Inr h \<longrightarrow> (\<exists>i. og h i \<and> (ms = [] \<or> hd ms = enc_args W (args i))))"

lemma req_ok_mono: "req_ok W og args ms \<Longrightarrow> (\<And>h i. og h i \<Longrightarrow> og' h i) \<Longrightarrow> req_ok W og' args ms"
  by (induction ms) (simp_all, blast)

definition open_ok :: "('m, 'v) wire \<Rightarrow> bool \<Rightarrow> 'm list \<Rightarrow> bool" where
  "open_ok W up ms \<longleftrightarrow> (up \<longrightarrow> ms = [] \<or> (\<exists>a. last ms = enc_args W a))"

lemma req_ok_append:
  assumes "wire_ok W" and "req_ok W og args ms" and "open_ok W True ms" and "og h i"
  shows "req_ok W og args (ms @ [enc_header W h])" and "req_ok W og args (ms @ [enc_header W h, enc_args W (args i)])"
proof -
  have h: "dec_header (wire_cc W) (enc_header W g) = Inr g" for g using assms(1) by (simp add: wire_ok_def)
  have a: "\<exists>e. dec_header (wire_cc W) (enc_args W b) = Inl e" for b using assms(1) by (simp add: wire_ok_def)
  have ext: "req_ok W og args (ms @ ns)" if "req_ok W og args ns" for ns
    using assms(2,3)
  proof (induction ms)
    case Nil
    then show ?case using that by simp
  next
    case (Cons m ms)
    show ?case
    proof (cases "ms = []")
      case True
      then have "\<exists>b. m = enc_args W b" using Cons.prems(2) by (simp add: open_ok_def)
      then obtain b e where "m = enc_args W b" "dec_header (wire_cc W) m = Inl e" using a by blast
      then show ?thesis using True that by simp
    next
      case False
      then show ?thesis using Cons by (auto simp: open_ok_def)
    qed
  qed
  obtain e where e: "dec_header (wire_cc W) (enc_args W (args i)) = Inl e" using a by blast
  show "req_ok W og args (ms @ [enc_header W h])" by (rule ext) (use h assms(4) in auto)
  show "req_ok W og args (ms @ [enc_header W h, enc_args W (args i)])" by (rule ext) (use h e assms(4) in auto)
qed

lemma req_ok_writes:
  assumes "wire_ok W" and "req_ok W og args ms" and "open_ok W up ms" and "og h i"
    and "writes (enc_header W h) (enc_args W (args i)) up out up'"
  shows "req_ok W og args (ms @ out) \<and> open_ok W up' (ms @ out)"
proof (cases up)
  case True
  with assms(3) have o: "open_ok W True ms" by simp
  show ?thesis
    using assms(5) req_ok_append [OF assms(1,2) o assms(4)] assms(2) True by (auto simp: writes_def open_ok_def)
next
  case False
  then show ?thesis using assms(2,5) by (auto simp: writes_def open_ok_def)
qed

lemma new_same:
  assumes "mt'\<lparr>numCalls := 0\<rparr> = mt\<lparr>numCalls := 0\<rparr>"
  shows "newArgv mt' = newArgv mt" and "newReplyv mt' = newReplyv mt"
proof -
  have "ArgType (mt'\<lparr>numCalls := 0\<rparr>) = ArgType (mt\<lparr>numCalls := 0\<rparr>)"
    "ReplyType (mt'\<lparr>numCalls := 0\<rparr>) = ReplyType (mt\<lparr>numCalls := 0\<rparr>)" by (simp_all only: assms)
  then show "newArgv mt' = newArgv mt" "newReplyv mt' = newReplyv mt"
    by (simp_all add: newArgv_def newReplyv_def)
qed

lemma readRequest_ok:
  assumes "req_ok W og args ms" and "services srv' = services srv"
    and "readRequest (wire_cc W) srv' ms = (Ret r, ms')"
  shows "req_ok W og args ms' \<and> (ms' = [] \<or> ms \<noteq> [] \<and> last ms' = last ms) \<and>
    (case r of
       No_request e \<Rightarrow> True
     | Bad_request h e \<Rightarrow> \<exists>i. og h i \<and> answers W srv timeout (h_ServiceMethod h) (args i) (e, None)
     | Good_request rq \<Rightarrow> \<exists>i. og (rq_h rq) i \<and> rq_for W srv (h_ServiceMethod (rq_h rq)) (args i) rq)"
proof (cases ms)
  case Nil
  then show ?thesis using assms(3) by (auto simp: readRequest_def)
next
  case (Cons m ms1)
  have ok1: "req_ok W og args ms1" using assms(1) Cons by simp
  show ?thesis
  proof (cases "dec_header (wire_cc W) m")
    case (Inl e)
    then show ?thesis using assms(3) Cons ok1 by (auto simp: readRequest_def)
  next
    case (Inr h)
    then obtain i where i: "og h i" "ms1 = [] \<or> hd ms1 = enc_args W (args i)"
      using assms(1) Cons by auto
    show ?thesis
    proof (cases "findService (h_ServiceMethod h) srv'")
      case (Inl e)
      then have "answers W srv timeout (h_ServiceMethod h) (args i) (e, None)"
        using find_same_Inl [OF assms(2)] by (blast intro: answers.unknown)
      then show ?thesis using assms(3) Cons Inr Inl ok1 i by (auto simp: readRequest_def)
    next
      case f: (Inr f)
      obtain sn mn mt' where f': "f = (sn, mn, mt')" by (cases f)
      obtain mt where mt: "findService (h_ServiceMethod h) srv = Inr (sn, mn, mt)"
        "mt\<lparr>numCalls := 0\<rparr> = mt'\<lparr>numCalls := 0\<rparr>"
        using find_same [OF assms(2), of "h_ServiceMethod h"] f f' by blast
      obtain nv nr where n: "newArgv mt' = Ret nv" "newReplyv mt' = Ret nr"
        using assms(3) Cons Inr f f' by (auto simp: readRequest_def bind_run_Ret_iff)
      have n': "newArgv mt = Ret nv" "newReplyv mt = Ret nr" using new_same [OF mt(2)] n by simp_all
      show ?thesis
      proof (cases ms1)
        case Nil
        then show ?thesis
          using assms(3) Cons Inr f f' n i(1) answers.cut_off [OF mt(1), of W timeout]
          by (auto simp: readRequest_def)
      next
        case c: (Cons b ms2)
        with i(2) have b: "b = enc_args W (args i)" by simp
        have ok2: "req_ok W og args ms2" using ok1 c by simp
        show ?thesis
        proof (cases "dec_body (wire_cc W) nv b")
          case (Inl e)
          then show ?thesis
            using assms(3) Cons Inr f f' n i(1) c ok2 answers.bad_args [OF mt(1) n'(1), of W "args i" e timeout] b
            by (auto simp: readRequest_def)
        next
          case v: (Inr v)
          then show ?thesis
            using assms(3) Cons Inr f f' n n' i(1) c ok2 mt(1) b
            by (auto simp: readRequest_def rq_for_def)
        qed
      qed
    qed
  qed
qed

subsection \<open>Requests being handled\<close>

text \<open>A result under way in a handling is one that its method can return.\<close>

definition hand_ok ::
  "('m, 'v) wire \<Rightarrow> int \<Rightarrow> ('v, 'w) server \<Rightarrow> (header \<Rightarrow> nat \<Rightarrow> bool) \<Rightarrow> (nat \<Rightarrow> 'v) \<Rightarrow> 'v request \<times> 'v handling \<Rightarrow> bool"
  where
  "hand_ok W timeout srv og args = (\<lambda>(rq, st).
     (\<exists>i. og (rq_h rq) i \<and> rq_for W srv (h_ServiceMethod (rq_h rq)) (args i) rq) \<and>
     (\<forall>r. hd_call st = C_Called r \<or> hd_call st = C_Sending r \<longrightarrow> method_result srv rq r))"

lemma hand_ok_mono:
  "hand_ok W timeout srv og args p \<Longrightarrow> (\<And>h i. og h i \<Longrightarrow> og' h i) \<Longrightarrow> hand_ok W timeout srv og' args p"
  by (auto simp: hand_ok_def)

lemma hand_ok_start:
  "og (rq_h rq) i \<Longrightarrow> rq_for W srv (h_ServiceMethod (rq_h rq)) (args i) rq \<Longrightarrow>
    hand_ok W timeout srv og args (rq, handle_start)"
  by (auto simp: hand_ok_def handle_start_def)

lemma hand_ok_step:
  assumes "hand_ok W timeout srv og args (rq, st)" and "handle_step timeout st st'"
    and "\<not> (hd_call st = C_Calling \<and> hd_call st' \<noteq> C_Calling)"
  shows "hand_ok W timeout srv og args (rq, st')"
  using assms(2,1,3) by cases (auto simp: hand_ok_def)

lemma hand_sends:
  assumes "handle_step timeout st st'" and "hd_sent st' = hd_sent st @ [(e, b)]"
  shows "\<not> (hd_call st = C_Calling \<and> hd_call st' \<noteq> C_Calling)"
  using assms by cases auto

text \<open>A handler only gets to the timeout when one is set.\<close>

definition timed_ok :: "int \<Rightarrow> 'v handling \<Rightarrow> bool" where
  "timed_ok timeout st \<longleftrightarrow> (hd_main st = M_Timed_out \<longrightarrow> timeout \<noteq> 0)"

lemma timed_ok_step: "handle_step timeout st st' \<Longrightarrow> timed_ok timeout st \<Longrightarrow> timed_ok timeout st'"
  by (erule handle_step.cases) (auto simp: timed_ok_def)

lemma hand_sends_answer:
  assumes "hand_ok W timeout srv og args (rq, st)" and "timed_ok timeout st" and "handle_step timeout st st'"
    and "hd_sent st' = hd_sent st @ [(e, b)]"
  shows "\<exists>i. og (rq_h rq) i \<and> answers W srv timeout (h_ServiceMethod (rq_h rq)) (args i) (e, b)"
proof -
  obtain i where i: "og (rq_h rq) i" "rq_for W srv (h_ServiceMethod (rq_h rq)) (args i) rq"
    using assms(1) by (auto simp: hand_ok_def)
  consider r where "hd_call st = C_Sending r" "(e, b) = result_response r"
    | "timeout \<noteq> 0" "(e, b) = (handle_timeout timeout, None)"
    using assms(3,4,2) by cases (auto simp: timed_ok_def)
  then have "answers W srv timeout (h_ServiceMethod (rq_h rq)) (args i) (e, b)"
  proof cases
    case (1 r)
    with assms(1) have "method_result srv rq r" by (cases r) (auto simp: hand_ok_def)
    with answers.returned [OF i(2) this] 1(2) show ?thesis by simp
  next
    case 2
    with answers.timed_out [OF i(2)] show ?thesis by simp
  qed
  with i(1) show ?thesis by blast
qed

subsection \<open>Responses on the wire\<close>

text \<open>
  The client reads headers and bodies in turn, so a header it has read is put back in front.
\<close>

fun resp_ok :: "('m, 'v) wire \<Rightarrow> (header \<Rightarrow> 'v option \<Rightarrow> bool) \<Rightarrow> 'm list \<Rightarrow> bool" where
  "resp_ok W P [] = True"
| "resp_ok W P [m] \<longleftrightarrow> (\<exists>h b. m = enc_header W h \<and> P h b)"
| "resp_ok W P (m # n # ms) \<longleftrightarrow> (\<exists>h b. m = enc_header W h \<and> n = enc_reply W b \<and> P h b) \<and> resp_ok W P ms"

lemma resp_ok_mono: "resp_ok W P ms \<Longrightarrow> (\<And>h b. P h b \<Longrightarrow> Q h b) \<Longrightarrow> resp_ok W Q ms"
  by (induction W P ms rule: resp_ok.induct) (simp_all, blast+)

lemma resp_ok_writes:
  assumes "resp_ok W P ms" and "down \<longrightarrow> even (length ms)" and "P h b"
    and "writes (enc_header W h) (enc_reply W b) down out down'"
  shows "resp_ok W P (ms @ out) \<and> (down' \<longrightarrow> even (length (ms @ out)))"
proof -
  have "resp_ok W P (ms @ [enc_header W h])" "resp_ok W P (ms @ [enc_header W h, enc_reply W b])"
    if "even (length ms)"
    using assms(1,3) that by (induction W P ms rule: resp_ok.induct) auto
  then show ?thesis using assms(1,2,4) by (auto simp: writes_def)
qed

definition alive :: "('m, 'v, 'w) rpc_sys \<Rightarrow> bool" where
  "alive S \<longleftrightarrow> (case cl_recv (s_client S) of R_Loop \<Rightarrow> True | R_Have h r \<Rightarrow> True | _ \<Rightarrow> False)"

definition view :: "('m, 'v) wire \<Rightarrow> ('m, 'v, 'w) rpc_sys \<Rightarrow> 'm list" where
  "view W S = (case cl_recv (s_client S) of R_Have h r \<Rightarrow> enc_header W h # s_resp S | _ \<Rightarrow> s_resp S)"

definition answered ::
  "('m, 'v) wire \<Rightarrow> int \<Rightarrow> ('v, 'w) server \<Rightarrow> (header \<Rightarrow> nat \<Rightarrow> bool) \<Rightarrow> (nat \<Rightarrow> 'v) \<Rightarrow> header \<Rightarrow> 'v option \<Rightarrow> bool"
  where
  "answered W timeout srv og args h b \<longleftrightarrow>
     (\<exists>i. og h i \<and> answers W srv timeout (h_ServiceMethod h) (args i) (h_Error h, b))"

lemma origin_error [simp]: "origin c (h\<lparr>h_Error := e\<rparr>) i = origin c h i"
  by (simp add: origin_def)

subsection \<open>Calls\<close>

definition completed ::
  "('m, 'v) wire \<Rightarrow> (string \<Rightarrow> string) \<Rightarrow> int \<Rightarrow> ('v, 'w) server \<Rightarrow> 'v \<Rightarrow> header \<Rightarrow> 'v rpc_call \<Rightarrow> bool" where
  "completed W errorf timeout srv a h x \<longleftrightarrow>
     (\<exists>b. answers W srv timeout (c_ServiceMethod x) a (h_Error h, b) \<and>
        (if h_Error h \<noteq> '''' then c_Error x = Some (errorf (h_Error h)) \<and> c_Reply x = None
         else case c_Reply x of
           Some v \<Rightarrow> c_Error x = None \<and> dec_reply W (enc_reply W b) = Inr v
         | None \<Rightarrow> \<exists>e. c_Error x = Some (''reading body '' @ e)))"

definition call_good ::
  "('m, 'v) wire \<Rightarrow> (string \<Rightarrow> string) \<Rightarrow> int \<Rightarrow> ('v, 'w) server \<Rightarrow> 'v \<Rightarrow> 'v rpc_call \<Rightarrow> bool" where
  "call_good W errorf timeout srv a x \<longleftrightarrow>
     (c_Done x = 0 \<longrightarrow> c_Error x = None) \<and> (c_from x = None \<longrightarrow> c_Reply x = None) \<and>
     (\<forall>h. c_from x = Some h \<longrightarrow> c_Done x = 1 \<and> completed W errorf timeout srv a h x)"

lemma call_good_change:
  assumes "call_change c i y" and "\<And>x. cl_calls c i = Some x \<Longrightarrow> call_good W errorf timeout srv a x"
  shows "call_good W errorf timeout srv a y"
proof (cases "cl_calls c i")
  case None
  with assms(1) show ?thesis by (auto simp: call_change_def call_good_def new_call_def)
next
  case (Some x)
  have k: "kept x y" "c_Error y = c_Error x \<and> c_Done y = c_Done x \<or> c_Done x = 0 \<and> c_Done y = 1"
    using assms(1) Some by (auto simp: call_change_def)
  have g: "call_good W errorf timeout srv a x" by (rule assms(2) [OF Some])
  have c: "completed W errorf timeout srv a h y = completed W errorf timeout srv a h x" if "c_Error y = c_Error x" for h
  proof -
    have "c_ServiceMethod y = c_ServiceMethod x" "c_Reply y = c_Reply x" using k(1) by (simp_all add: kept_def)
    then show ?thesis by (simp only: completed_def that)
  qed
  from k(2) show ?thesis
  proof
    assume "c_Error y = c_Error x \<and> c_Done y = c_Done x"
    then show ?thesis using k(1) g c by (simp add: call_good_def kept_def)
  next
    assume "c_Done x = 0 \<and> c_Done y = 1"
    then show ?thesis using k(1) g by (auto simp: call_good_def kept_def)
  qed
qed

lemma call_good_completed:
  assumes "call_good W errorf timeout srv a x" and "c_Done x = 0"
    and "answers W srv timeout (c_ServiceMethod x) a (h_Error h, b)"
    and "h_Error h \<noteq> '''' \<or> (\<exists>e. res = Inl e) \<or> res = dec_reply W (enc_reply W b)"
  shows "call_good W errorf timeout srv a (completed_call errorf h res x)"
proof -
  have x: "c_from x = None" "c_Reply x = None" "c_Error x = None"
    using assms(1,2) by (auto simp: call_good_def)
  show ?thesis
  proof (cases res)
    case (Inl e)
    with x assms(2-3) show ?thesis
      by (auto simp: call_good_def completed_def completed_call_def fail_call_def)
  next
    case (Inr v)
    with assms(4) have "h_Error h \<noteq> '''' \<or> dec_reply W (enc_reply W b) = Inr v" by auto
    with Inr x assms(2-3) show ?thesis
      by (auto simp: call_good_def completed_def completed_call_def fail_call_def)
  qed
qed

subsection \<open>All of it\<close>

definition sys_inv ::
  "('m, 'v) wire \<Rightarrow> (string \<Rightarrow> string) \<Rightarrow> int \<Rightarrow> ('v, 'w) server \<Rightarrow> ('m, 'v, 'w) rpc_sys \<Rightarrow> bool" where
  "sys_inv W errorf timeout srv S \<longleftrightarrow>
     services (s_server S) = services srv \<and>
     req_ok W (origin (s_client S)) (s_args S) (s_req S) \<and> open_ok W (s_up S) (s_req S) \<and>
     (\<forall>p \<in> set (s_hand S). hand_ok W timeout srv (origin (s_client S)) (s_args S) p \<and> timed_ok timeout (snd p)) \<and>
     (alive S \<longrightarrow> resp_ok W (answered W timeout srv (origin (s_client S)) (s_args S)) (view W S) \<and>
        (s_down S \<longrightarrow> even (length (view W S)))) \<and>
     (\<forall>i x. cl_calls (s_client S) i = Some x \<longrightarrow> call_good W errorf timeout srv (s_args S i) x)"

lemma sys_invI:
  assumes "services (s_server S) = services srv"
    and "req_ok W (origin (s_client S)) (s_args S) (s_req S) \<and> open_ok W (s_up S) (s_req S)"
    and "\<And>p. p \<in> set (s_hand S) \<Longrightarrow>
        hand_ok W timeout srv (origin (s_client S)) (s_args S) p \<and> timed_ok timeout (snd p)"
    and "alive S \<Longrightarrow> resp_ok W (answered W timeout srv (origin (s_client S)) (s_args S)) (view W S) \<and>
        (s_down S \<longrightarrow> even (length (view W S)))"
    and "\<And>i x. cl_calls (s_client S) i = Some x \<Longrightarrow> call_good W errorf timeout srv (s_args S i) x"
  shows "sys_inv W errorf timeout srv S"
  unfolding sys_inv_def using assms by blast

lemma sys_invD:
  assumes "sys_inv W errorf timeout srv S"
  shows "services (s_server S) = services srv"
    and "req_ok W (origin (s_client S)) (s_args S) (s_req S)" and "open_ok W (s_up S) (s_req S)"
    and "p \<in> set (s_hand S) \<Longrightarrow>
        hand_ok W timeout srv (origin (s_client S)) (s_args S) p \<and> timed_ok timeout (snd p)"
    and "alive S \<Longrightarrow> resp_ok W (answered W timeout srv (origin (s_client S)) (s_args S)) (view W S)"
    and "alive S \<Longrightarrow> s_down S \<longrightarrow> even (length (view W S))"
    and "cl_calls (s_client S) i = Some x \<Longrightarrow> call_good W errorf timeout srv (s_args S i) x"
  using assms unfolding sys_inv_def by blast+

lemma sys_origin:
  assumes "sys_step W errorf timeout S S'" and "cl_inv (s_client S)" and "origin (s_client S) h i"
  shows "origin (s_client S') h i"
  using sys_client_step [OF assms(1)] origin_step [OF _ assms(2,3)] assms(3) by auto

lemma answered_mono:
  "answered W timeout srv og args h b \<Longrightarrow> (\<And>h i. og h i \<Longrightarrow> og' h i) \<Longrightarrow> answered W timeout srv og' args h b"
  unfolding answered_def by blast

lemma sys_step_services:
  assumes "sys_step W errorf timeout S S'" and inv: "sys_inv W errorf timeout srv S"
  shows "services (s_server S') = services srv"
  using assms(1)
proof cases
  case (method_returns k rq st r w srv')
  then have "(rq, st) \<in> set (s_hand S)" by (metis nth_mem)
  then obtain a where "rq_for W srv (h_ServiceMethod (rq_h rq)) a rq"
    using sys_invD(4) [OF inv] by (fastforce simp: hand_ok_def)
  from server_call_services(1) [OF this sys_invD(1) [OF inv], of "s_world S"] sys_invD(1) [OF inv] method_returns
  show ?thesis by simp
qed (use sys_invD(1) [OF inv] in simp_all)

lemma sys_step_requests:
  assumes "wire_ok W" and st: "sys_step W errorf timeout S S'" and ci: "cl_inv (s_client S)"
    and inv: "sys_inv W errorf timeout srv S"
  shows "req_ok W (origin (s_client S')) (s_args S') (s_req S') \<and> open_ok W (s_up S') (s_req S')"
proof -
  let ?og = "origin (s_client S')"
  have ok: "req_ok W ?og (s_args S) (s_req S)"
    by (rule req_ok_mono [OF sys_invD(2) [OF inv]]) (rule sys_origin [OF st ci])
  have op: "open_ok W (s_up S) (s_req S)" by (rule sys_invD(3) [OF inv])
  have args: "s_args S' = s_args S" by (rule sys_args [OF st])
  have sent: "?og (sent_header S i) i" if i: "cl_send (s_client S) = Some i" for i
  proof (rule sys_origin [OF st ci])
    obtain x k where "cl_calls (s_client S) i = Some x" "c_num x = Some k" using cl_invD(7) [OF ci i] by blast
    then show "origin (s_client S) (sent_header S i) i"
      by (simp add: origin_def sent_header_def call_header_def)
  qed
  have suffix: "req_ok W ?og (s_args S) ms \<and> open_ok W (s_up S) ms"
    if "readRequest (wire_cc W) (s_server S) (s_req S) = (Ret r, ms)" for r ms
    using readRequest_ok [OF ok sys_invD(1) [OF inv] that] op by (auto simp: open_ok_def)
  have "req_ok W ?og (s_args S) (s_req S') \<and> open_ok W (s_up S') (s_req S')"
    using st
  proof cases
    case (written i out up)
    then show ?thesis using req_ok_writes [OF assms(1) ok op sent [OF written(2)] written(3)] by simp
  next
    case (failed i out e)
    then show ?thesis using req_ok_writes [OF assms(1) ok op sent [OF failed(2)] failed(3)] by simp
  next
    case (serve_bad h e ms out down)
    then show ?thesis using suffix [OF serve_bad(4)] by simp
  next
    case (serve_good rq ms)
    then show ?thesis using suffix [OF serve_good(4)] by simp
  next
    case (serve_end e ms)
    then show ?thesis using suffix [OF serve_end(4)] by simp
  next
    case close
    then show ?thesis using ok by (simp add: open_ok_def)
  qed (use ok op in simp_all)
  then show ?thesis by (simp add: args)
qed

lemma sys_step_hand:
  assumes st: "sys_step W errorf timeout S S'" and ci: "cl_inv (s_client S)"
    and inv: "sys_inv W errorf timeout srv S" and p: "p \<in> set (s_hand S')"
  shows "hand_ok W timeout srv (origin (s_client S')) (s_args S') p \<and> timed_ok timeout (snd p)"
proof -
  let ?ok = "\<lambda>p. hand_ok W timeout srv (origin (s_client S')) (s_args S) p \<and> timed_ok timeout (snd p)"
  have old: "?ok p" if "p \<in> set (s_hand S)" for p
    using sys_invD(4) [OF inv that] hand_ok_mono sys_origin [OF st ci] by blast
  have upd: "?ok p" if "p \<in> set ((s_hand S)[k := q])" "?ok q" for p k q
    using that old set_update_subset_insert [of "s_hand S" k q] by blast
  have args: "s_args S' = s_args S" by (rule sys_args [OF st])
  have "?ok p"
    using st
  proof cases
    case (serve_good rq ms)
    have "\<exists>i. origin (s_client S) (rq_h rq) i \<and> rq_for W srv (h_ServiceMethod (rq_h rq)) (s_args S i) rq"
      using readRequest_ok [OF sys_invD(2) [OF inv] sys_invD(1) [OF inv] serve_good(4)] by simp
    then have "?ok (rq, handle_start)"
      using hand_ok_start sys_origin [OF st ci] by (fastforce simp: timed_ok_def handle_start_def)
    moreover have "p \<in> set (s_hand S) \<or> p = (rq, handle_start)" using p serve_good by auto
    ultimately show "?ok p" using old by blast
  next
    case (method_returns k rq st r w srv')
    then have m: "(rq, st) \<in> set (s_hand S)" by (metis nth_mem)
    then obtain a where a: "rq_for W srv (h_ServiceMethod (rq_h rq)) a rq"
      using sys_invD(4) [OF inv] by (fastforce simp: hand_ok_def)
    have "method_result srv rq r"
      using server_call_services(2) [OF a sys_invD(1) [OF inv], of "s_world S"] method_returns(5)
      by (metis method_result_def fst_conv)
    then have "?ok (rq, st\<lparr>hd_call := C_Called r\<rparr>)"
      using old [OF m] by (auto simp: hand_ok_def timed_ok_def)
    from upd [OF _ this] show ?thesis using p method_returns by simp
  next
    case (handle_quiet k rq st st')
    then have m: "(rq, st) \<in> set (s_hand S)" by (metis nth_mem)
    have "?ok (rq, st')"
      using old [OF m] hand_ok_step [OF conjunct1 [OF old [OF m]] handle_quiet(4,6)]
        timed_ok_step [OF handle_quiet(4)] by simp
    from upd [OF _ this] show ?thesis using p handle_quiet by simp
  next
    case (handle_sends k rq st st' e b out down)
    then have m: "(rq, st) \<in> set (s_hand S)" by (metis nth_mem)
    have "?ok (rq, st')"
      using old [OF m] timed_ok_step [OF handle_sends(4)]
        hand_ok_step [OF conjunct1 [OF old [OF m]] handle_sends(4) hand_sends [OF handle_sends(4,5)]] by simp
    from upd [OF _ this] show ?thesis using p handle_sends by simp
  qed (use p old in simp_all)
  then show ?thesis by (simp add: args)
qed

lemma recv_same [simp]:
  "cl_recv (Send_start i c) = cl_recv c" "cl_recv (Send_written i c) = cl_recv c"
  "cl_recv (Send_failed i e c) = cl_recv c" "cl_recv (Call_cancel i c) = cl_recv c"
  "cl_recv (snd (Client_Close c)) = cl_recv c"
  by (auto simp: Send_start_def registerCall_def Let_def Send_written_def Send_failed_def removeCall_def
      Call_cancel_def Client_Close_def split: option.split)

lemma recv_read [simp]:
  "cl_recv (receive_header h c) = R_Have h (cl_pend c (h_Seq h))"
  "cl_recv (receive_body errorf h r res c) = after_body res"
  by (auto simp: receive_header_def removeCall_def receive_body_def Let_def split: option.split sum.split)

lemma view_same: "cl_recv (s_client S') = cl_recv (s_client S) \<Longrightarrow> s_resp S' = s_resp S @ out \<Longrightarrow> view W S' = view W S @ out"
  by (simp add: view_def split: recv_pc.split)

lemma sys_step_responses:
  assumes W: "wire_ok W" and st: "sys_step W errorf timeout S S'" and ci: "cl_inv (s_client S)"
    and inv: "sys_inv W errorf timeout srv S" and al: "alive S'"
  shows "resp_ok W (answered W timeout srv (origin (s_client S')) (s_args S')) (view W S') \<and>
    (s_down S' \<longrightarrow> even (length (view W S')))"
proof -
  let ?P = "answered W timeout srv (origin (s_client S')) (s_args S)"
  have args: "s_args S' = s_args S" by (rule sys_args [OF st])
  have mono: "?P h b" if "answered W timeout srv (origin (s_client S)) (s_args S) h b" for h b
    using answered_mono [OF that] sys_origin [OF st ci] by blast
  have old: "resp_ok W ?P (view W S)" "s_down S \<longrightarrow> even (length (view W S))" if "alive S"
    using resp_ok_mono [OF sys_invD(5) [OF inv that]] mono sys_invD(6) [OF inv that] by blast+
  have same: "resp_ok W ?P (view W S') \<and> (s_down S' \<longrightarrow> even (length (view W S')))"
    if "cl_recv (s_client S') = cl_recv (s_client S)" "s_resp S' = s_resp S" "s_down S' = s_down S"
  proof -
    have "alive S" using al that(1) by (simp add: alive_def)
    then show ?thesis using old view_same [OF that(1), of "[]" W] that by simp
  qed
  have add: "resp_ok W ?P (view W S') \<and> (s_down S' \<longrightarrow> even (length (view W S')))"
    if "cl_recv (s_client S') = cl_recv (s_client S)" "s_resp S' = s_resp S @ out"
      "writes (enc_header W h) (enc_reply W b) (s_down S) out (s_down S')"
      "answered W timeout srv (origin (s_client S)) (s_args S) h b" for out h b
  proof -
    have "alive S" using al that(1) by (simp add: alive_def)
    then show ?thesis
      using resp_ok_writes [OF old mono [OF that(4)] that(3)] view_same [OF that(1,2), of W] by simp
  qed
  have dec: "dec_header (wire_cc W) (enc_header W h) = Inr h" for h using W by (simp add: wire_ok_def)
  have "resp_ok W ?P (view W S') \<and> (s_down S' \<longrightarrow> even (length (view W S')))"
    using st
  proof cases
    case (serve_bad h e ms out down)
    have "answered W timeout srv (origin (s_client S)) (s_args S) (h\<lparr>h_Error := e\<rparr>) None"
      using readRequest_ok [OF sys_invD(2) [OF inv] sys_invD(1) [OF inv] serve_bad(4)] by (auto simp: answered_def)
    from add [OF _ _ _ this] show ?thesis using serve_bad by simp
  next
    case (handle_sends k rq st st' e b out down)
    then have m: "(rq, st) \<in> set (s_hand S)" by (metis nth_mem)
    have "answered W timeout srv (origin (s_client S)) (s_args S) ((rq_h rq)\<lparr>h_Error := e\<rparr>) b"
      using hand_sends_answer [OF _ _ handle_sends(4,5)] sys_invD(4) [OF inv m] by (fastforce simp: answered_def)
    from add [OF _ _ _ this] show ?thesis using handle_sends by simp
  next
    case (read_header m ms h)
    then have "alive S" "view W S = m # ms" by (simp_all add: alive_def view_def)
    note o = old [OF this(1), unfolded this(2)]
    then have "\<exists>g. m = enc_header W g" by (cases ms) auto
    then have "m = enc_header W h" using dec read_header(4) by auto
    then show ?thesis using o read_header by (simp add: view_def)
  next
    case (body h r m ms res)
    then have "alive S" "view W S = enc_header W h # m # ms" by (simp_all add: alive_def view_def)
    note o = old [OF this(1), unfolded this(2)]
    then show ?thesis using body by (cases res) (simp_all add: view_def after_body_def)
  qed (use al same in \<open>auto simp: alive_def after_body_def\<close>)
  then show ?thesis by (simp add: args)
qed

lemma sys_step_calls:
  assumes W: "wire_ok W" and st: "sys_step W errorf timeout S S'" and ci: "cl_inv (s_client S)"
    and n: "cl_count (s_client S) < 2 ^ 64" and inv: "sys_inv W errorf timeout srv S"
    and x: "cl_calls (s_client S') i = Some x"
  shows "call_good W errorf timeout srv (s_args S' i) x"
proof -
  have old: "call_good W errorf timeout srv (s_args S i) y" if "cl_calls (s_client S) i = Some y" for y
    by (rule sys_invD(7) [OF inv that])
  have body_good: "call_good W errorf timeout srv (s_args S i) x"
    if r: "cl_recv (s_client S) = R_Have h r" and S': "s_client S' = receive_body errorf h r res (s_client S)"
      and res: "r = None \<or> h_Error h \<noteq> '''' \<or> (\<exists>e. res = Inl e) \<or>
        (\<exists>m ms. s_resp S = m # ms \<and> res = dec_reply W m)" for h r res
  proof (cases "r = Some i")
    case False
    then show ?thesis using old x S' by (simp add: receive_body_calls)
  next
    case True
    with cl_invD(6) [OF ci] r obtain y k where y: "cl_calls (s_client S) i = Some y" "c_num y = Some k" "c_Done y = 0"
      "h_Seq h = c_Seq y" by blast
    have x': "x = completed_call errorf h res y" using x S' True y(1) by (simp add: receive_body_calls)
    have "alive S" "view W S = enc_header W h # s_resp S" using r by (simp_all add: alive_def view_def)
    note o = sys_invD(5) [OF inv this(1), unfolded this(2)]
    have dec: "dec_header (wire_cc W) (enc_header W h) = Inr h" for h using W by (simp add: wire_ok_def)
    have inj: "h = h'" if "enc_header W h = enc_header W h'" for h'
      using dec that by (metis sum.inject(2))
    obtain b where b: "answered W timeout srv (origin (s_client S)) (s_args S) h b"
      "\<forall>m ms. s_resp S = m # ms \<longrightarrow> m = enc_reply W b"
    proof (cases "s_resp S")
      case Nil
      with o inj show ?thesis by (auto intro: that)
    next
      case (Cons m ms)
      with o obtain g b where "enc_header W h = enc_header W g" "m = enc_reply W b"
        "answered W timeout srv (origin (s_client S)) (s_args S) g b" by auto
      with Cons inj [of g] show ?thesis by (intro that [of b]) simp_all
    qed
    then obtain j where j: "origin (s_client S) h j" "answers W srv timeout (h_ServiceMethod h) (s_args S j) (h_Error h, b)"
      unfolding answered_def by blast
    then obtain z where z: "cl_calls (s_client S) j = Some z" "c_num z \<noteq> None" "c_Seq z = h_Seq h"
      "c_ServiceMethod z = h_ServiceMethod h" unfolding origin_def by blast
    have "j = i" using same_seq [OF ci n z(1) y(1)] z(2,3) y(2,4) by auto
    then have "answers W srv timeout (c_ServiceMethod y) (s_args S i) (h_Error h, b)" using j(2) z y(1) by simp
    moreover have "h_Error h \<noteq> '''' \<or> (\<exists>e. res = Inl e) \<or> res = dec_reply W (enc_reply W b)"
      using res True b(2) by auto
    ultimately show ?thesis
      unfolding x' by (rule call_good_completed [OF old [OF y(1)] y(3)])
  qed
  have "call_good W errorf timeout srv (s_args S i) x"
  proof (cases "\<exists>h r res. cl_recv (s_client S) = R_Have h r \<and> s_client S' = receive_body errorf h r res (s_client S)")
    case True
    then obtain h r res where "cl_recv (s_client S) = R_Have h r" "s_client S' = receive_body errorf h r res (s_client S)"
      by blast
    then have R: "cl_recv (s_client S) = R_Have h r" "cl_recv (s_client S') = after_body res" by simp_all
    show ?thesis
      using st
    proof cases
      case (body h r m ms res)
      show ?thesis by (rule body_good [of h r res]) (use body in auto)
    next
      case (body_error h r e)
      show ?thesis by (rule body_good [of h r "Inl e"]) (use body_error in auto)
    qed (use R in \<open>auto simp: after_body_def split: sum.splits\<close>)
  next
    case False
    from sys_client_step [OF st] show ?thesis
    proof
      assume "s_client S' = s_client S"
      then show ?thesis using x old by simp
    next
      assume step: "cl_step errorf (s_client S) (s_client S')"
      have "call_change (s_client S) i x"
        by (rule client_change [OF step ci x]) (use False in blast)
      then show ?thesis by (rule call_good_change) (rule old)
    qed
  qed
  then show ?thesis by (simp add: sys_args [OF st])
qed

lemma sys_step_inv:
  assumes "wire_ok W" and "sys_step W errorf timeout S S'" and "cl_inv (s_client S)"
    and "cl_count (s_client S) < 2 ^ 64" and "sys_inv W errorf timeout srv S"
  shows "sys_inv W errorf timeout srv S'"
  by (rule sys_invI)
    (fact sys_step_services [OF assms(2,5)] sys_step_requests [OF assms(1-3,5)] sys_step_hand [OF assms(2,3,5)]
      sys_step_responses [OF assms(1-3,5)] sys_step_calls [OF assms])+

lemma sys_count: "sys_step W errorf timeout S S' \<Longrightarrow> cl_count (s_client S) \<le> cl_count (s_client S')"
  using sys_client_step step_count by (metis order_refl)

lemma sys_reach_inv:
  assumes "wire_ok W" and "(sys_step W errorf timeout)\<^sup>*\<^sup>* (sys_start srv args w) S"
    and "cl_count (s_client S) < 2 ^ 64"
  shows "sys_inv W errorf timeout srv S \<and> s_args S = args"
  using assms(2,3)
proof (induction rule: rtranclp_induct)
  case base
  show ?case
    by (auto intro!: sys_invI simp: sys_start_def open_ok_def view_def alive_def NewClientCodec_def)
next
  case (step S S')
  have n: "cl_count (s_client S) < 2 ^ 64" using sys_count [OF step.hyps(2)] step.prems by simp
  then have "cl_inv (s_client S)" using cl_reach_inv sys_client_reach [OF step.hyps(1)] by blast
  with step.IH [OF n] sys_step_inv [OF assms(1) step.hyps(2) _ n] sys_args [OF step.hyps(2)] show ?case by simp
qed

section \<open>Properties\<close>

text \<open>
  C4: End to end, whatever the goroutines of the client, the loop and the handlers of the server
  and the failures of the connection do, a call that a response completed was answered for
  itself: the answer is what the server finds or does not find under its method name, what the
  method returned on its own arguments, the timeout, or an error in reading it; the caller gets
  the error, or the reply decoded from that very answer.
\<close>

theorem rpc_answers_belong_to_call:
  assumes "wire_ok W" and "(sys_step W errorf timeout)\<^sup>*\<^sup>* (sys_start srv args w) S"
    and "cl_count (s_client S) < 2 ^ 64" and "cl_calls (s_client S) i = Some x" and "c_from x = Some h"
  shows "\<exists>b. answers W srv timeout (c_ServiceMethod x) (args i) (h_Error h, b) \<and>
    (if h_Error h \<noteq> '''' then c_Error x = Some (errorf (h_Error h)) \<and> c_Reply x = None
     else case c_Reply x of
       Some v \<Rightarrow> c_Error x = None \<and> dec_reply W (enc_reply W b) = Inr v
     | None \<Rightarrow> \<exists>e. c_Error x = Some (''reading body '' @ e))"
proof -
  note inv = sys_reach_inv [OF assms(1-3)]
  have "call_good W errorf timeout srv (s_args S i) x" by (rule sys_invD(7) [OF conjunct1 [OF inv] assms(4)])
  then show ?thesis using assms(5) inv by (simp add: call_good_def completed_def)
qed

text \<open>A run: one call of \<open>Foo.Sum\<close> on 3 and 4 is made, sent, handled, answered and completed.\<close>

definition demo_wire :: "(header + int \<times> int, int \<times> int) wire" where
  "demo_wire = \<lparr>wire_cc = demo_codec, enc_header = Inl, enc_args = Inr,
     enc_reply = (\<lambda>b. Inr (case b of None \<Rightarrow> (0, 0) | Some v \<Rightarrow> v)),
     dec_reply = (\<lambda>m. case m of Inl h \<Rightarrow> Inl ''gob: type mismatch'' | Inr v \<Rightarrow> Inr v)\<rparr>"

definition demo_request :: "(int \<times> int) request" where
  "demo_request = \<lparr>rq_h = demo_header ''Foo.Sum'' 1, rq_argv = (3, 4), rq_replyv = (0, 0),
     rq_service = ''Foo'', rq_method = ''Sum''\<rparr>"

lemma demo_wire_ok: "wire_ok demo_wire"
  by (simp add: wire_ok_def demo_wire_def demo_codec_def)

lemma demo_read:
  "readRequest demo_codec demo_server [Inl (demo_header ''Foo.Sum'' 1), Inr (3, 4)] = (Ret (Good_request demo_request), [])"
  by (simp add: readRequest_def demo_codec_def demo_find demo_request_def newArgv_def newReplyv_def type_Kind_def
      type_Elem_def) (simp add: demo_header_def demo_find newArgv_def newReplyv_def type_Kind_def type_Elem_def)

lemma demo_call: "\<exists>srv. server_call demo_server demo_request () = ((Ret (None, (7, 0)), ()), srv)"
  by (simp add: server_call_def demo_request_def demo_server_def Register_def newService_def registerMethods_def
      NewServer_def foo_def foo_Bad_def foo_Sum_def register_method_eq suitable_def isExportedOrBuiltinType_def
      IsExported_def Let_def service_call_def)

definition one_call ::
  "(nat \<Rightarrow> 'v) \<Rightarrow> 'v request \<Rightarrow> 'v client \<Rightarrow> 'm list \<Rightarrow> ('v, 'w) server \<Rightarrow> 'w \<Rightarrow> 'v handling list \<Rightarrow> 'm list \<Rightarrow> ('m, 'v, 'w) rpc_sys"
  where
  "one_call args rq c req srv w hs resp = \<lparr>s_client = c, s_args = args, s_req = req, s_up = True, s_server = srv,
     s_world = w, s_serving = True, s_hand = map (Pair rq) hs, s_resp = resp, s_down = True\<rparr>"

text \<open>
  A call whose request is read and whose method returns can be completed with its reply, by
  steps that make no other call.
\<close>

definition only_call :: "string \<Rightarrow> ('m, 'v, 'w) rpc_sys \<Rightarrow> ('m, 'v, 'w) rpc_sys \<Rightarrow> bool" where
  "only_call sm S S' \<longleftrightarrow> (\<forall>i y. cl_calls (s_client S) i = None \<longrightarrow> cl_calls (s_client S') i = Some y \<longrightarrow>
     i = 0 \<and> y = new_call sm)"

definition step_alone :: "('m, 'v) wire \<Rightarrow> string \<Rightarrow> ('m, 'v, 'w) rpc_sys \<Rightarrow> ('m, 'v, 'w) rpc_sys \<Rightarrow> bool" where
  "step_alone W sm S S' \<longleftrightarrow> sys_step W id 0 S S' \<and> only_call sm S S'"

lemma call_can_succeed_alone:
  fixes W :: "('m, 'v) wire" and srv :: "('v, 'w) server"
  assumes W: "wire_ok W" and h: "h = demo_header sm 1"
    and rd: "readRequest (wire_cc W) srv [enc_header W h, enc_args W (args 0)] = (Ret (Good_request rq), [])" "rq_h rq = h"
    and cal: "server_call srv rq w = ((Ret (None, v), w1), srv1)" and dec: "dec_reply W (enc_reply W (Some v)) = Inr u"
  shows "\<exists>S x. (step_alone W sm)\<^sup>*\<^sup>* (sys_start srv args w) S \<and> cl_count (s_client S) < 2 ^ 64 \<and>
     cl_calls (s_client S) 0 = Some x \<and> c_pc x = P_Sent \<and> c_Done x = 1 \<and> c_Error x = None \<and> c_from x = Some h \<and> c_Reply x = Some u \<and> c_ServiceMethod x = sm"
proof -
  let ?step = "step_alone W sm"
  define c0 :: "'v client" where "c0 = NewClientCodec"
  define c1 where "c1 = c0\<lparr>cl_calls := (cl_calls c0)(0 \<mapsto> new_call sm)\<rparr>"
  define c2 where "c2 = Send_start 0 c1"
  define c3 where "c3 = Send_written 0 c2"
  define c4 where "c4 = receive_header h c3"
  define c5 where "c5 = receive_body id h (Some 0) (Inr u) c4"
  note cs = c5_def c4_def c3_def c2_def c1_def c0_def NewClientCodec_def new_call_def Send_start_def registerCall_def
    Send_written_def upd_call_def receive_header_def removeCall_def receive_body_def after_body_def h demo_header_def Let_def
  let ?st1 = "handle_start\<lparr>hd_call := C_Called (None, v)\<rparr>"
  let ?st2 = "?st1\<lparr>hd_main := M_Got_called, hd_call := C_Sending (None, v)\<rparr>"
  let ?st3 = "?st2\<lparr>hd_sent := [result_response (None, v)], hd_call := C_Sent\<rparr>"
  let ?S = "one_call args rq" and ?mh = "enc_header W h" and ?ma = "enc_args W (args 0)" and ?mr = "enc_reply W (Some v)"
  have go: "?step (?S c req v v' hs resp) (?S c' req' u u' hs' resp')"
    if "sys_step W id 0 (?S c req v v' hs resp) (?S c' req' u u' hs' resp')"
      and "\<forall>i. cl_calls c i = None \<longrightarrow> cl_calls c' i = None \<or> i = 0 \<and> cl_calls c' i = Some (new_call sm)"
    for c c' :: "'v client" and req resp req' resp' :: "'m list" and v u :: "('v, 'w) server" and v' u' :: 'w and hs hs'
    using that(1) unfolding step_alone_def only_call_def one_call_def rpc_sys.simps using that(2)
    by (metis option.distinct(1) option.inject)
  have calls: "\<forall>i. cl_calls c0 i = None \<longrightarrow> cl_calls c1 i = None \<or> i = 0 \<and> cl_calls c1 i = Some (new_call sm)"
    "\<forall>i. cl_calls c1 i = None \<longrightarrow> cl_calls c2 i = None \<or> i = 0 \<and> cl_calls c2 i = Some (new_call sm)"
    "\<forall>i. cl_calls c2 i = None \<longrightarrow> cl_calls c3 i = None \<or> i = 0 \<and> cl_calls c3 i = Some (new_call sm)"
    "\<forall>i. cl_calls c3 i = None \<longrightarrow> cl_calls c3 i = None \<or> i = 0 \<and> cl_calls c3 i = Some (new_call sm)"
    "\<forall>i. cl_calls c3 i = None \<longrightarrow> cl_calls c4 i = None \<or> i = 0 \<and> cl_calls c4 i = Some (new_call sm)"
    "\<forall>i. cl_calls c4 i = None \<longrightarrow> cl_calls c5 i = None \<or> i = 0 \<and> cl_calls c5 i = Some (new_call sm)"
    by (auto simp: cs)
  have s1: "sys_step W id 0 (?S c0 [] srv w [] []) (?S c1 [] srv w [] [])"
    using sys_step.go [of "?S c0 [] srv w [] []" 0 W id 0 sm]
    by (simp add: one_call_def c1_def) (simp add: c0_def NewClientCodec_def)
  have s2: "sys_step W id 0 (?S c1 [] srv w [] []) (?S c2 [] srv w [] [])"
    using sys_step.send [of "?S c1 [] srv w [] []" 0 "new_call sm" W id 0]
    by (simp add: one_call_def c2_def) (simp add: cs)
  have s3: "sys_step W id 0 (?S c2 [] srv w [] []) (?S c3 [?mh, ?ma] srv w [] [])"
    using sys_step.written [of "?S c2 [] srv w [] []" 0 W "[?mh, ?ma]" True id 0]
    by (simp add: one_call_def c3_def writes_def sent_header_def call_header_def) (simp add: cs)
  have s4: "sys_step W id 0 (?S c3 [?mh, ?ma] srv w [] []) (?S c3 [] srv w [handle_start] [])"
    using sys_step.serve_good [of "?S c3 [?mh, ?ma] srv w [] []" W rq "[]" id 0] rd(1)
    by (simp add: one_call_def)
  have s5: "sys_step W id 0 (?S c3 [] srv w [handle_start] []) (?S c3 [] srv1 w1 [?st1] [])"
    using sys_step.method_returns [of 0 "?S c3 [] srv w [handle_start] []" rq handle_start "(None, v)" w1 srv1 W id 0] cal
    by (simp add: one_call_def handle_start_def)
  have s6: "sys_step W id 0 (?S c3 [] srv1 w1 [?st1] []) (?S c3 [] srv1 w1 [?st2] [])"
    using sys_step.handle_quiet [of 0 "?S c3 [] srv1 w1 [?st1] []" rq ?st1 0 ?st2 W id]
      handle_step.called [of ?st1 "(None, v)" 0]
    by (simp add: one_call_def handle_start_def)
  have s7: "sys_step W id 0 (?S c3 [] srv1 w1 [?st2] []) (?S c3 [] srv1 w1 [?st3] [?mh, ?mr])"
    using sys_step.handle_sends [of 0 "?S c3 [] srv1 w1 [?st2] []" rq ?st2 0 ?st3 "''''" "Some v" W
        "[?mh, ?mr]" True id] handle_step.send [of ?st2 "(None, v)" 0] rd(2)
    by (simp add: one_call_def handle_start_def result_response_def writes_def h demo_header_def)
  have s8: "sys_step W id 0 (?S c3 [] srv1 w1 [?st3] [?mh, ?mr]) (?S c4 [] srv1 w1 [?st3] [?mr])"
    using sys_step.read_header [of "?S c3 [] srv1 w1 [?st3] [?mh, ?mr]" ?mh "[?mr]" W h id 0] W
    by (simp add: one_call_def c4_def wire_ok_def) (simp add: cs)
  have s9: "sys_step W id 0 (?S c4 [] srv1 w1 [?st3] [?mr]) (?S c5 [] srv1 w1 [?st3] [])"
    using sys_step.body [of "?S c4 [] srv1 w1 [?st3] [?mr]" h "Some 0" ?mr "[]" "Inr u" W id 0] dec
    by (simp add: one_call_def c5_def) (simp add: cs)
  from go [OF s1 calls(1)] go [OF s2 calls(2)] go [OF s3 calls(3)] go [OF s4 calls(4)] go [OF s5 calls(4)]
    go [OF s6 calls(4)] go [OF s7 calls(4)] go [OF s8 calls(5)] go [OF s9 calls(6)]
  have "?step\<^sup>*\<^sup>* (?S c0 [] srv w [] []) (?S c5 [] srv1 w1 [?st3] [])"
    by (meson converse_rtranclp_into_rtranclp rtranclp.rtrancl_refl)
  then have "?step\<^sup>*\<^sup>* (sys_start srv args w) (?S c5 [] srv1 w1 [?st3] [])"
    by (simp add: one_call_def sys_start_def c0_def)
  moreover obtain x where "cl_calls c5 0 = Some x" "c_pc x = P_Sent" "c_Done x = 1" "c_Error x = None" "c_from x = Some h" "c_Reply x = Some u"
    "c_ServiceMethod x = sm" by (simp add: cs)
  moreover have "cl_count c5 < 2 ^ 64" "s_client (?S c5 [] srv1 w1 [?st3] []) = c5" by (simp_all add: cs one_call_def)
  ultimately show ?thesis by metis
qed

lemma call_can_succeed:
  assumes "wire_ok W" and "h = demo_header sm 1"
    and "readRequest (wire_cc W) srv [enc_header W h, enc_args W a] = (Ret (Good_request rq), [])" "rq_h rq = h"
    and "server_call srv rq w = ((Ret (None, v), w1), srv1)" and "dec_reply W (enc_reply W (Some v)) = Inr u"
  shows "\<exists>S x. (sys_step W id 0)\<^sup>*\<^sup>* (sys_start srv (\<lambda>i. a) w) S \<and> cl_count (s_client S) < 2 ^ 64 \<and>
     cl_calls (s_client S) 0 = Some x \<and> c_from x = Some h \<and> c_Reply x = Some u \<and> c_ServiceMethod x = sm"
proof -
  have "step_alone W sm \<le> sys_step W id 0" by (auto simp: step_alone_def)
  from rtranclp_mono [OF this] call_can_succeed_alone [where args = "\<lambda>i. a", OF assms] show ?thesis by blast
qed

lemma demo_run:
  "\<exists>S x. (sys_step demo_wire id 0)\<^sup>*\<^sup>* (sys_start demo_server (\<lambda>i. (3, 4)) ()) S \<and> cl_count (s_client S) < 2 ^ 64 \<and>
     cl_calls (s_client S) 0 = Some x \<and> c_from x = Some (demo_header ''Foo.Sum'' 1) \<and> c_Reply x = Some (7, 0) \<and>
     c_ServiceMethod x = ''Foo.Sum''"
proof -
  obtain srv where srv: "server_call demo_server demo_request () = ((Ret (None, (7, 0)), ()), srv)" using demo_call by blast
  have "readRequest (wire_cc demo_wire) demo_server
      [enc_header demo_wire (demo_header ''Foo.Sum'' 1), enc_args demo_wire (3, 4)] = (Ret (Good_request demo_request), [])"
    using demo_read by (simp add: demo_wire_def)
  from call_can_succeed [OF demo_wire_ok refl this _ srv] show ?thesis
    by (simp add: demo_request_def demo_wire_def)
qed

theorem rpc_answers_belong_to_call_witness:
  "\<exists>b. answers demo_wire demo_server 0 ''Foo.Sum'' (3, 4) ('''', b) \<and> dec_reply demo_wire (enc_reply demo_wire b) = Inr (7, 0)"
proof -
  obtain S :: "(header + int \<times> int, int \<times> int, unit) rpc_sys" and x
    where r: "(sys_step demo_wire id 0)\<^sup>*\<^sup>* (sys_start demo_server (\<lambda>i. (3, 4)) ()) S"
      "cl_count (s_client S) < 2 ^ 64" "cl_calls (s_client S) 0 = Some x" "c_from x = Some (demo_header ''Foo.Sum'' 1)"
      and x: "c_Reply x = Some (7, 0)" "c_ServiceMethod x = ''Foo.Sum''"
    using demo_run by blast
  from rpc_answers_belong_to_call [OF demo_wire_ok r] x show ?thesis by (auto simp: demo_header_def)
qed

text \<open>
  A method that fails with an empty message sends a header without an error, and the client
  takes the call for a success when its reply can be decoded from the placeholder.
\<close>

lemma empty_error_is_success:
  assumes "cl_calls c i = Some x" and "c_Error x = None" and "result_response (Some '''', v) = (e, b)"
    and "dec_reply W (enc_reply W b) = Inr u"
  shows "\<exists>y. cl_calls (receive_body errorf (h\<lparr>h_Error := e\<rparr>) (Some i) (dec_reply W (enc_reply W b)) c) i = Some y \<and>
    c_Error y = None \<and> c_Reply y = Some u"
  using assms by (auto simp: receive_body_calls completed_call_def result_response_def)

end
