(* ===== verification/Rpc_Main.thy ===== *)
theory Rpc_Main
  imports Rpc_Broadcast Rpc_System
begin

text \<open>
  MyRPC/main/main.go, the program that shows the framework: servers that offer the methods of
  \<open>Foo\<close>, and a client that calls them and prints what it gets. Integers are 64-bit words; the world
  of the methods is the time in nanoseconds, which \<open>Sleep\<close> lets pass.
\<close>

section \<open>The methods\<close>

datatype main_value = Foo int64 | Args int64 int64 | Reply int64

definition Foo_type :: go_type where
  "Foo_type = Defined ''Foo'' ''main'' (Basic ''int'')"

definition Args_type :: go_type where
  "Args_type = Defined ''Args'' ''main'' (StructOf [(''Num1'', Basic ''int''), (''Num2'', Basic ''int'')])"

fun Foo_Sum :: "(main_value, int) method_fn" where
  "Foo_Sum f (Args n1 n2) reply now = (Ret (None, Reply (n1 + n2)), now)"
| "Foo_Sum f a reply now = (Panic ''reflect: Call using argument of another type'', now)"

text \<open>\<open>time.Second * time.Duration(args.Num1)\<close> is a product of words; a negative sleep returns at once.\<close>

fun Foo_Sleep :: "(main_value, int) method_fn" where
  "Foo_Sleep f (Args n1 n2) reply now =
     (Ret (None, Reply (n1 + n2)), now + max 0 (sint (word_of_int second * n1 :: int64)))"
| "Foo_Sleep f a reply now = (Panic ''reflect: Call using argument of another type'', now)"

text \<open>The method set of \<open>*Foo\<close>, which reflect sorts by name.\<close>

definition Foo_method :: "string \<Rightarrow> (main_value, int) method_fn \<Rightarrow> (main_value, int) go_method" where
  "Foo_method nm f = \<lparr>meth_Name = nm, meth_In = [PtrTo Foo_type, Args_type, PtrTo (Basic ''int'')],
     meth_Out = [error_type], meth_Func = f\<rparr>"

definition Foo_receiver :: "(main_value, int) go_receiver" where
  "Foo_receiver = \<lparr>rc_type_name = ''Foo'', rc_methods = [Foo_method ''Sleep'' Foo_Sleep, Foo_method ''Sum'' Foo_Sum],
     rc_value = Foo 0\<rparr>"

section \<open>The programs\<close>

text \<open>\<open>startServer\<close>: its server, the address that it sends to the registry, and its heartbeats' period.\<close>

definition startServer :: "string \<Rightarrow> (main_value, int) server \<times> string \<times> int" where
  "startServer listen_addr = (snd (Register Foo_receiver NewServer), ''tcp@'' @ listen_addr, heartbeat_period 0)"

definition startRegistry :: "(string \<Rightarrow> http_handler option) \<Rightarrow> (string \<Rightarrow> http_handler option) outcome" where
  "startRegistry mux = registry_HandleHTTP defaultPath mux"

text \<open>What \<open>foo\<close> prints; the reply is 0 before the call.\<close>

definition foo_line :: "string \<Rightarrow> string \<Rightarrow> int64 \<times> int64 \<Rightarrow> string option \<times> main_value option \<Rightarrow> string" where
  "foo_line typ serviceMethod = (\<lambda>(n1, n2) (err, reply).
     case err of
       Some e \<Rightarrow> typ @ '' '' @ serviceMethod @ '' error: '' @ e
     | None \<Rightarrow> typ @ '' '' @ serviceMethod @ '' success: '' @ FormatInt (sint n1) @ '' + '' @ FormatInt (sint n2) @ '' = '' @
         FormatInt (case reply of Some (Reply n) \<Rightarrow> sint n | _ \<Rightarrow> 0))"

inductive foo_prints ::
  "(main_value, 'w) network \<Rightarrow> (int \<Rightarrow> 'd \<Rightarrow> (string + string) \<times> 'd) \<Rightarrow> ('d \<Rightarrow> (string + string list) \<times> 'd) \<Rightarrow>
   string option \<Rightarrow> string \<Rightarrow> string \<Rightarrow> int64 \<times> int64 \<Rightarrow> 'd xclient \<times> 'w \<Rightarrow> string \<times> 'd xclient \<times> 'w \<Rightarrow> bool"
  for net get get_all ctx_err where
  call: "X_Call net get sm (Args (fst ns) (snd ns)) s = (r, s1) \<Longrightarrow>
     foo_prints net get get_all ctx_err ''call'' sm ns s
       (foo_line ''call'' sm ns (case r of Inl e \<Rightarrow> (Some e, None) | Inr v \<Rightarrow> (None, Some v)), s1)"
| broadcast: "Broadcast net get_all True ctx_err sm (Args (fst ns) (snd ns)) s (ev, S) \<Longrightarrow>
     foo_prints net get get_all ctx_err ''broadcast'' sm ns s (foo_line ''broadcast'' sm ns ev, bs_x S, bs_w S)"
| neither: "typ \<noteq> ''call'' \<Longrightarrow> typ \<noteq> ''broadcast'' \<Longrightarrow>
     foo_prints net get get_all ctx_err typ sm ns s (foo_line typ sm ns (None, None), s)"

text \<open>The client of \<open>callNew\<close> and \<open>broadcastNew\<close>, and the arguments of their five goroutines.\<close>

definition main_client :: "'r random_source \<Rightarrow> 'r \<Rightarrow> string \<Rightarrow> 'w \<Rightarrow> ('r registry_discovery \<times> 'w) xclient" where
  "main_client intn seed registry w = NewXClient (NewMyRegistryDiscovery intn seed registry 0, w) RandomSelect None"

definition main_args :: "(int64 \<times> int64) list" where
  "main_args = map (\<lambda>i. (word_of_nat i, word_of_nat i * word_of_nat i)) [0 ..< 5]"

definition registryAddr :: string where
  "registryAddr = ''http://localhost:9999/_myrpc_/registry''"

section \<open>What the server offers\<close>

lemma Foo_suitable: "suitable (Foo_method nm f)"
  by (simp add: suitable_def Foo_method_def isExportedOrBuiltinType_def Args_type_def IsExported_def)

lemma Foo_service:
  "serviceMap (fst (startServer a)) ''Foo'' = Some \<lparr>svc_name = ''Foo'', svc_typ = rc_methods Foo_receiver, svc_rcvr = Foo 0,
     svc_method = [''Sleep'' \<mapsto> \<lparr>mt_method = Foo_method ''Sleep'' Foo_Sleep, ArgType = Args_type,
       ReplyType = PtrTo (Basic ''int''), numCalls = 0\<rparr>,
       ''Sum'' \<mapsto> \<lparr>mt_method = Foo_method ''Sum'' Foo_Sum, ArgType = Args_type,
       ReplyType = PtrTo (Basic ''int''), numCalls = 0\<rparr>]\<rparr>"
  using Foo_suitable
  by (simp add: startServer_def Register_def newService_def registerMethods_def NewServer_def Foo_receiver_def
      register_method_eq IsExported_def Let_def) (simp add: Foo_method_def)

lemma Foo_find:
  "findService ''Foo.Sum'' (fst (startServer a)) = Inr (''Foo'', ''Sum'', \<lparr>mt_method = Foo_method ''Sum'' Foo_Sum,
     ArgType = Args_type, ReplyType = PtrTo (Basic ''int''), numCalls = 0\<rparr>)"
  "findService ''Foo.Sleep'' (fst (startServer a)) = Inr (''Foo'', ''Sleep'', \<lparr>mt_method = Foo_method ''Sleep'' Foo_Sleep,
     ArgType = Args_type, ReplyType = PtrTo (Basic ''int''), numCalls = 0\<rparr>)"
  by (simp_all add: findService_def Foo_service Let_def)

text \<open>Documented of gob: an argument and a reply decode to what they were.\<close>

definition gob_values :: "('m, main_value) wire \<Rightarrow> bool" where
  "gob_values W \<longleftrightarrow> (\<forall>nv a b. dec_body (wire_cc W) nv (enc_args W (Args a b)) = Inr (Args a b)) \<and>
     (\<forall>n. dec_reply W (enc_reply W (Some (Reply n))) = Inr (Reply n))"

lemma Foo_call:
  assumes "rq_service rq = ''Foo''" and "rq_method rq \<in> {''Sum'', ''Sleep''}" and "rq_argv rq = Args a b"
  shows "\<exists>now'. fst (server_call (fst (startServer addr)) rq now) = (Ret (None, Reply (a + b)), now')"
  using assms by (auto simp: server_call_def service_call_def Foo_service Foo_method_def Let_def)

text \<open>What can answer a call of one of the two methods without an error.\<close>

lemma Foo_answers:
  assumes "gob_values W" and "sm \<in> {''Foo.Sum'', ''Foo.Sleep''}"
    and "answers W (fst (startServer addr)) timeout sm (Args a b) ('''', v)"
  shows "v = Some (Reply (a + b))"
  using assms(3)
proof cases
  case unknown
  with assms(2) show ?thesis by (auto simp: Foo_find)
next
  case (bad_args sn mn mt nv)
  with assms(1) show ?thesis by (simp add: gob_values_def)
next
  case timed_out
  then show ?thesis by (simp add: handle_timeout_def rpc_server_prefix_def)
next
  case (returned rq r)
  have "rq_service rq = ''Foo''" "rq_method rq \<in> {''Sum'', ''Sleep''}" "rq_argv rq = Args a b"
    using returned(2) assms(1,2) by (auto simp: rq_for_def Foo_find gob_values_def)
  from Foo_call [OF this, of addr] returned(3) have "r = (None, Reply (a + b))"
    unfolding method_result_def by (metis fst_conv outcome.inject)
  with returned(1) show ?thesis by (simp add: result_response_def)
qed

lemma Sum_reply:
  assumes "wire_ok W" and "gob_values W"
    and "(sys_step W errorf timeout)\<^sup>*\<^sup>* (sys_start (fst (startServer addr)) (\<lambda>i. Args (n1 i) (n2 i)) now) S"
    and "cl_count (s_client S) < 2 ^ 64" and "cl_calls (s_client S) i = Some x"
    and "c_ServiceMethod x \<in> {''Foo.Sum'', ''Foo.Sleep''}" and "c_Reply x = Some v"
  shows "v = Reply (n1 i + n2 i) \<and> c_Error x = None \<and> c_Done x = 1"
proof -
  have "call_good W errorf timeout (fst (startServer addr)) (Args (n1 i) (n2 i)) x"
    using sys_reach_inv [OF assms(1,3,4)] sys_invD(7) assms(5) by metis
  then obtain b where h: "c_Done x = 1" "c_Error x = None" "dec_reply W (enc_reply W b) = Inr v"
    "answers W (fst (startServer addr)) timeout (c_ServiceMethod x) (Args (n1 i) (n2 i)) ('''', b)"
    using assms(7) unfolding call_good_def completed_def by (cases "c_from x") (auto split: if_splits)
  from Foo_answers [OF assms(2,6) h(4)] h(1-3) assms(2) show ?thesis by (simp add: gob_values_def)
qed

section \<open>Properties\<close>

text \<open>
  C6: From the caller to the method and back: whatever the goroutines of the client and of the
  server that \<open>startServer\<close> makes do and in whatever order, a call of \<open>Foo.Sum\<close> or \<open>Foo.Sleep\<close> that
  gets a reply gets the sum of its own two arguments, wrapped around, and no error.
\<close>

theorem Sum_end_to_end:
  assumes "wire_ok W" and "gob_values W"
    and "(sys_step W errorf timeout)\<^sup>*\<^sup>* (sys_start (fst (startServer addr)) (\<lambda>i. Args (n1 i) (n2 i)) now) S"
    and "cl_count (s_client S) < 2 ^ 64" and "cl_calls (s_client S) i = Some x"
    and "c_ServiceMethod x \<in> {''Foo.Sum'', ''Foo.Sleep''}" and "c_Reply x = Some v"
  shows "v = Reply (n1 i + n2 i) \<and> c_Error x = None \<and> c_Done x = 1"
  by (rule Sum_reply [OF assms])

text \<open>A codec for these values, and a run of one call on it.\<close>

definition main_codec :: "(header + main_value, main_value) codec_fns" where
  "main_codec = \<lparr>dec_header = (\<lambda>m. case m of Inl h \<Rightarrow> Inr h | Inr b \<Rightarrow> Inl ''gob: type mismatch''),
     dec_body = (\<lambda>nv m. case m of Inl h \<Rightarrow> Inl ''gob: type mismatch'' | Inr b \<Rightarrow> Inr b),
     init_value = (\<lambda>nv. Reply 0)\<rparr>"

definition main_wire :: "(header + main_value, main_value) wire" where
  "main_wire = \<lparr>wire_cc = main_codec, enc_header = Inl, enc_args = Inr,
     enc_reply = (\<lambda>b. Inr (case b of None \<Rightarrow> Foo 0 | Some v \<Rightarrow> v)),
     dec_reply = (\<lambda>m. case m of Inr (Reply n) \<Rightarrow> Inr (Reply n) | _ \<Rightarrow> Inl ''gob: type mismatch'')\<rparr>"

lemma main_wire_ok: "wire_ok main_wire" "gob_values main_wire"
  by (simp_all add: wire_ok_def gob_values_def main_wire_def main_codec_def)

theorem Sum_end_to_end_witness:
  "\<exists>S x v. (sys_step main_wire id 0)\<^sup>*\<^sup>* (sys_start (fst (startServer ''[::]:1234'')) (\<lambda>i. Args 3 4) 0) S \<and>
     cl_calls (s_client S) 0 = Some x \<and> c_Reply x = Some v \<and> v = Reply 7"
proof -
  let ?srv = "fst (startServer ''[::]:1234'')" and ?h = "demo_header ''Foo.Sum'' 1"
  let ?rq = "\<lparr>rq_h = ?h, rq_argv = Args 3 4, rq_replyv = Reply 0, rq_service = ''Foo'', rq_method = ''Sum''\<rparr>"
  have rd: "readRequest (wire_cc main_wire) ?srv [enc_header main_wire ?h, enc_args main_wire (Args 3 4)] =
      (Ret (Good_request ?rq), [])"
    by (simp add: readRequest_def main_wire_def main_codec_def)
      (simp add: demo_header_def Foo_find newArgv_def newReplyv_def type_Kind_def type_Elem_def Args_type_def)
  have "\<exists>now'. fst (server_call ?srv ?rq 0) = (Ret (None, Reply (3 + 4)), now')" by (rule Foo_call) simp_all
  then obtain now' srv' where "server_call ?srv ?rq 0 = ((Ret (None, Reply 7), now'), srv')"
    by (cases "server_call ?srv ?rq 0") auto
  from call_can_succeed [OF main_wire_ok(1) refl rd _ this, of "Reply 7"]
  obtain S x where r: "(sys_step main_wire id 0)\<^sup>*\<^sup>* (sys_start ?srv (\<lambda>i. Args 3 4) 0) S" "cl_count (s_client S) < 2 ^ 64"
    "cl_calls (s_client S) 0 = Some x" "c_Reply x = Some (Reply 7)" "c_ServiceMethod x = ''Foo.Sum''"
    by (auto simp: main_wire_def)
  have "c_ServiceMethod x \<in> {''Foo.Sum'', ''Foo.Sleep''}" using r(5) by simp
  from Sum_end_to_end [OF main_wire_ok r(1-3) this r(4)] r show ?thesis by auto
qed

end
