(* ===== verification/Rpc_Program.thy ===== *)
theory Rpc_Program
  imports Rpc_Main
begin

text \<open>
  The functions of MyRPC/main/main.go that drive the framework: each starts five goroutines that
  share one \<open>XClient\<close> and run \<open>foo\<close> once or twice, and waits for them. The goroutines interleave at
  the operations of the \<open>XClient\<close>, which hold its mutexes: the pick of a server, the dial, the
  end of a call, and inside a broadcast the steps of its own goroutines.
\<close>

section \<open>State\<close>

text \<open>A call of \<open>foo\<close>; \<open>st_deadline\<close> says that its context has a timeout.\<close>

record statement =
  st_typ :: string
  st_deadline :: bool
  st_method :: string
  st_args :: "int64 \<times> int64"

datatype ('d, 'w) go_at =
    At_start
  | At_picked string
  | At_calling nat
  | At_broadcast "string list" "(main_value, 'd, 'w) bc_state"

type_synonym foo_result = "string option \<times> main_value option"

record ('d, 'w) prog =
  pg_go :: "(statement list \<times> ('d, 'w) go_at) list"
  pg_x :: "'d xclient"
  pg_w :: 'w
  pg_log :: "(statement \<times> foo_result) list"

definition says :: "statement \<times> foo_result \<Rightarrow> string" where
  "says = (\<lambda>(st, r). foo_line (st_typ st) (st_method st) (st_args st) r)"

definition st_value :: "statement \<Rightarrow> main_value" where
  "st_value st = Args (fst (st_args st)) (snd (st_args st))"

definition deadline_exceeded :: string where
  "deadline_exceeded = ''context deadline exceeded''"

text \<open>The methods of the discovery at the time of a step: they depend on the clock.\<close>

record 'd discovery_fns =
  dis_Get :: "int \<Rightarrow> 'd \<Rightarrow> (string + string) \<times> 'd"
  dis_GetAll :: "'d \<Rightarrow> (string + string list) \<times> 'd"

section \<open>Steps\<close>

definition prog_start :: "statement list list \<Rightarrow> 'd xclient \<times> 'w \<Rightarrow> ('d, 'w) prog" where
  "prog_start ps s = \<lparr>pg_go = map (\<lambda>p. (p, At_start)) ps, pg_x = fst s, pg_w = snd s, pg_log = []\<rparr>"

definition goes :: "nat \<Rightarrow> ('d, 'w) go_at \<Rightarrow> ('d, 'w) prog \<Rightarrow> ('d, 'w) prog" where
  "goes i a P = P\<lparr>pg_go := (pg_go P)[i := (fst (pg_go P ! i), a)]\<rparr>"

text \<open>\<open>foo\<close> prints its line and returns; the goroutine goes on with its next statement.\<close>

definition prints :: "nat \<Rightarrow> foo_result \<Rightarrow> ('d, 'w) prog \<Rightarrow> ('d, 'w) prog" where
  "prints i r P = P\<lparr>pg_go := (pg_go P)[i := (tl (fst (pg_go P ! i)), At_start)],
     pg_log := pg_log P @ [(hd (fst (pg_go P ! i)), r)]\<rparr>"

definition moved :: "'d xclient \<Rightarrow> 'w \<Rightarrow> ('d, 'w) prog \<Rightarrow> ('d, 'w) prog" where
  "moved X w P = P\<lparr>pg_x := X, pg_w := w\<rparr>"

definition has_left :: "('d, 'w) prog \<Rightarrow> nat \<Rightarrow> statement \<Rightarrow> ('d, 'w) go_at \<Rightarrow> bool" where
  "has_left P i st a \<longleftrightarrow> i < length (pg_go P) \<and> (\<exists>sts. pg_go P ! i = (st # sts, a))"

definition foo_outcome :: "string + main_value \<Rightarrow> foo_result" where
  "foo_outcome r = (case r of Inl e \<Rightarrow> (Some e, None) | Inr v \<Rightarrow> (None, Some v))"

inductive prog_step ::
  "(main_value, 'w) network \<Rightarrow> 'd discovery_fns set \<Rightarrow> ('d, 'w) prog \<Rightarrow> ('d, 'w) prog \<Rightarrow> bool"
  for net dis where
  pick: "has_left P i st At_start \<Longrightarrow> st_typ st = ''call'' \<Longrightarrow> D \<in> dis \<Longrightarrow>
     dis_Get D (x_mode (pg_x P)) (x_dis (pg_x P)) = (Inr a, d) \<Longrightarrow>
     prog_step net dis P (goes i (At_picked a) (moved ((pg_x P)\<lparr>x_dis := d\<rparr>) (pg_w P) P))"
| no_pick: "has_left P i st At_start \<Longrightarrow> st_typ st = ''call'' \<Longrightarrow> D \<in> dis \<Longrightarrow>
     dis_Get D (x_mode (pg_x P)) (x_dis (pg_x P)) = (Inl e, d) \<Longrightarrow>
     prog_step net dis P (prints i (Some e, None) (moved ((pg_x P)\<lparr>x_dis := d\<rparr>) (pg_w P) P))"
| dial: "has_left P i st (At_picked a) \<Longrightarrow> X_dial net a (pg_x P, pg_w P) = (Inr c, X, w) \<Longrightarrow>
     prog_step net dis P (goes i (At_calling c) (moved X w P))"
| no_dial: "has_left P i st (At_picked a) \<Longrightarrow> X_dial net a (pg_x P, pg_w P) = (Inl e, X, w) \<Longrightarrow>
     prog_step net dis P (prints i (Some e, None) (moved X w P))"
| reply: "has_left P i st (At_calling c) \<Longrightarrow> client_Call net c (st_method st) (st_value st) (pg_w P) = (r, w) \<Longrightarrow>
     prog_step net dis P (prints i (foo_outcome r) (moved (pg_x P) w P))"
| list: "has_left P i st At_start \<Longrightarrow> st_typ st = ''broadcast'' \<Longrightarrow> D \<in> dis \<Longrightarrow>
     dis_GetAll D (x_dis (pg_x P)) = (Inr servers, d) \<Longrightarrow>
     prog_step net dis P (goes i (At_broadcast servers (bc_start servers True ((pg_x P)\<lparr>x_dis := d\<rparr>) (pg_w P)))
       (moved ((pg_x P)\<lparr>x_dis := d\<rparr>) (pg_w P) P))"
| no_list: "has_left P i st At_start \<Longrightarrow> st_typ st = ''broadcast'' \<Longrightarrow> D \<in> dis \<Longrightarrow>
     dis_GetAll D (x_dis (pg_x P)) = (Inl e, d) \<Longrightarrow>
     prog_step net dis P (prints i (Some e, None) (moved ((pg_x P)\<lparr>x_dis := d\<rparr>) (pg_w P) P))"
| broadcast: "has_left P i st (At_broadcast servers S) \<Longrightarrow>
     ctx_err = None \<or> st_deadline st \<and> ctx_err = Some deadline_exceeded \<Longrightarrow>
     bc_step net servers ctx_err (st_method st) (st_value st) (S\<lparr>bs_x := pg_x P, bs_w := pg_w P\<rparr>) S' \<Longrightarrow>
     prog_step net dis P (goes i (At_broadcast servers S') (moved (bs_x S') (bs_w S') P))"
| broadcast_done: "has_left P i st (At_broadcast servers S) \<Longrightarrow> bc_ended S \<Longrightarrow>
     prog_step net dis P (prints i (bc_e (bs_shared S), bc_reply (bs_shared S)) P)"
| neither: "has_left P i st At_start \<Longrightarrow> st_typ st \<noteq> ''call'' \<Longrightarrow> st_typ st \<noteq> ''broadcast'' \<Longrightarrow>
     prog_step net dis P (prints i (None, None) P)"

text \<open>\<open>wg.Wait\<close> returns when no goroutine has anything left.\<close>

definition prog_over :: "('d, 'w) prog \<Rightarrow> bool" where
  "prog_over P \<longleftrightarrow> (\<forall>g \<in> set (pg_go P). fst g = [])"

abbreviation prog_steps ::
  "(main_value, 'w) network \<Rightarrow> 'd discovery_fns set \<Rightarrow> ('d, 'w) prog \<Rightarrow> ('d, 'w) prog \<Rightarrow> bool" where
  "prog_steps net dis \<equiv> (prog_step net dis)\<^sup>*\<^sup>*"

section \<open>The functions\<close>

text \<open>The bodies of the goroutines in \<open>call\<close> and \<open>callNew\<close>, and in \<open>broadcast\<close> and \<open>broadcastNew\<close>.\<close>

definition call_bodies :: "statement list list" where
  "call_bodies = map (\<lambda>ns. [\<lparr>st_typ = ''call'', st_deadline = False, st_method = ''Foo.Sum'', st_args = ns\<rparr>]) main_args"

definition broadcast_bodies :: "statement list list" where
  "broadcast_bodies = map (\<lambda>ns.
     [\<lparr>st_typ = ''broadcast'', st_deadline = False, st_method = ''Foo.Sum'', st_args = ns\<rparr>,
      \<lparr>st_typ = ''broadcast'', st_deadline = True, st_method = ''Foo.Sleep'', st_args = ns\<rparr>]) main_args"

text \<open>A function: its client, its goroutines to their end, and the deferred \<open>Close\<close> of the client.\<close>

inductive runs ::
  "(main_value, 'w) network \<Rightarrow> 'd discovery_fns set \<Rightarrow> statement list list \<Rightarrow> 'd xclient \<Rightarrow> 'w \<Rightarrow>
   (statement \<times> foo_result) list \<times> 'd xclient \<times> 'w \<Rightarrow> bool"
  for net dis bodies X w where
  "prog_steps net dis (prog_start bodies (X, w)) P \<Longrightarrow> prog_over P \<Longrightarrow> distinct order \<Longrightarrow>
     set order = dom (x_clients (pg_x P)) \<Longrightarrow>
     runs net dis bodies X w (pg_log P, X_Close net order (pg_x P, pg_w P))"

text \<open>\<open>call\<close> and \<open>broadcast\<close> know two servers by their addresses.\<close>

definition two_servers :: "'r random_source \<Rightarrow> 'r \<Rightarrow> string \<Rightarrow> string \<Rightarrow> 'r multi_discovery xclient" where
  "two_servers intn seed addr1 addr2 =
     NewXClient (NewMultiServerDiscovery intn seed [''tcp@'' @ addr1, ''tcp@'' @ addr2]) RandomSelect None"

definition multi_fns :: "'r random_source \<Rightarrow> 'r multi_discovery discovery_fns set" where
  "multi_fns intn = {\<lparr>dis_Get = multi_Get intn, dis_GetAll = multi_GetAll\<rparr>}"

definition main_call ::
  "(main_value, 'w) network \<Rightarrow> 'r random_source \<Rightarrow> 'r \<Rightarrow> string \<Rightarrow> string \<Rightarrow> 'w \<Rightarrow>
   (statement \<times> foo_result) list \<times> 'r multi_discovery xclient \<times> 'w \<Rightarrow> bool" where
  "main_call net intn seed addr1 addr2 w = runs net (multi_fns intn) call_bodies (two_servers intn seed addr1 addr2) w"

definition main_broadcast ::
  "(main_value, 'w) network \<Rightarrow> 'r random_source \<Rightarrow> 'r \<Rightarrow> string \<Rightarrow> string \<Rightarrow> 'w \<Rightarrow>
   (statement \<times> foo_result) list \<times> 'r multi_discovery xclient \<times> 'w \<Rightarrow> bool" where
  "main_broadcast net intn seed addr1 addr2 w =
     runs net (multi_fns intn) broadcast_bodies (two_servers intn seed addr1 addr2) w"

text \<open>\<open>callNew\<close> and \<open>broadcastNew\<close> ask the registry; its answers come from a world \<open>r\<close> of their own.\<close>

definition registry_fns ::
  "'r registry_get \<Rightarrow> 'g random_source \<Rightarrow> ('g registry_discovery \<times> 'r) discovery_fns set" where
  "registry_fns http_Get intn = {\<lparr>dis_Get = rd_Get http_Get intn now now', dis_GetAll = rd_GetAll http_Get now now'\<rparr>
     | now now'. now \<le> now'}"

definition main_callNew ::
  "(main_value, 'w) network \<Rightarrow> 'r registry_get \<Rightarrow> 'g random_source \<Rightarrow> 'g \<Rightarrow> string \<Rightarrow> 'r \<times> 'w \<Rightarrow>
   (statement \<times> foo_result) list \<times> ('g registry_discovery \<times> 'r) xclient \<times> 'w \<Rightarrow> bool" where
  "main_callNew net http_Get intn seed registry = (\<lambda>(r, w).
     runs net (registry_fns http_Get intn) call_bodies (main_client intn seed registry r) w)"

definition main_broadcastNew ::
  "(main_value, 'w) network \<Rightarrow> 'r registry_get \<Rightarrow> 'g random_source \<Rightarrow> 'g \<Rightarrow> string \<Rightarrow> 'r \<times> 'w \<Rightarrow>
   (statement \<times> foo_result) list \<times> ('g registry_discovery \<times> 'r) xclient \<times> 'w \<Rightarrow> bool" where
  "main_broadcastNew net http_Get intn seed registry = (\<lambda>(r, w).
     runs net (registry_fns http_Get intn) broadcast_bodies (main_client intn seed registry r) w)"

text \<open>The last part of \<open>main\<close>, when the registry and the servers run: what it prints.\<close>

inductive main_prints ::
  "(main_value, 'w) network \<Rightarrow> 'r registry_get \<Rightarrow> 'g random_source \<Rightarrow> 'g \<Rightarrow> 'g \<Rightarrow> 'r \<times> 'w \<Rightarrow> string list \<Rightarrow> bool"
  for net http_Get intn seed seed' s where
  "main_callNew net http_Get intn seed registryAddr s (log1, X1, w1) \<Longrightarrow>
   main_broadcastNew net http_Get intn seed' registryAddr (snd (x_dis X1), w1) (log2, X2, w2) \<Longrightarrow>
   main_prints net http_Get intn seed seed' s (map says log1 @ map says log2)"

text \<open>
  The older programs: a server that reports its address over a channel, and \<open>mainOldII\<close>, whose
  client knows the two addresses. \<open>l1\<close> and \<open>l2\<close> are what \<open>net.Listen\<close> returns; without a listener
  the server's goroutine panics at \<open>lis.Addr()\<close>, which ends the program.
\<close>

definition nil_dereference :: string where
  "nil_dereference = ''runtime error: invalid memory address or nil pointer dereference''"

definition startServerOld :: "string + string \<Rightarrow> string list \<times> ((main_value, int) server \<times> string) outcome" where
  "startServerOld listen =
     (let out = (case listen of Inl e \<Rightarrow> [e] | Inr addr \<Rightarrow> []);
          server = snd (Register Foo_receiver NewServer)
      in (out, case listen of Inl e \<Rightarrow> Panic nil_dereference | Inr addr \<Rightarrow> Ret (server, addr)))"

inductive mainOldII_prints ::
  "(main_value, 'w) network \<Rightarrow> 'r random_source \<Rightarrow> 'r \<Rightarrow> 'r \<Rightarrow> string + string \<Rightarrow> string + string \<Rightarrow> 'w \<Rightarrow>
   string list \<Rightarrow> bool"
  for net intn seed seed' l1 l2 w where
  "startServerOld l1 = (out1, Ret (server1, addr1)) \<Longrightarrow> startServerOld l2 = (out2, Ret (server2, addr2)) \<Longrightarrow>
   main_call net intn seed addr1 addr2 w (log1, X1, w1) \<Longrightarrow>
   main_broadcast net intn seed' addr1 addr2 w1 (log2, X2, w2) \<Longrightarrow>
   mainOldII_prints net intn seed seed' l1 l2 w (out1 @ out2 @ map says log1 @ map says log2)"

section \<open>What is printed\<close>

text \<open>
  A network whose clients, when they get a reply from one of the two methods, get the sum, which
  is what \<open>Rpc_Main\<close> shows of a client and a server that \<open>startServer\<close> made.
\<close>

definition replies_sums :: "(main_value, 'w) network \<Rightarrow> bool" where
  "replies_sums net \<longleftrightarrow> (\<forall>c m a b w v. m \<in> {''Foo.Sum'', ''Foo.Sleep''} \<longrightarrow>
     fst (client_Call net c m (Args a b) w) = Inr v \<longrightarrow> v = Reply (a + b))"

definition st_sum :: "statement \<Rightarrow> main_value" where
  "st_sum st = Reply (fst (st_args st) + snd (st_args st))"

definition right_reply :: "statement \<Rightarrow> string + main_value \<Rightarrow> bool" where
  "right_reply st r \<longleftrightarrow> (\<forall>v. r = Inr v \<longrightarrow> v = st_sum st)"

text \<open>
  An error, or the sum; a broadcast to no server at all has neither, unless \<open>listed\<close> says that the
  discovery always lists one.
\<close>

definition right_result :: "bool \<Rightarrow> statement \<Rightarrow> foo_result \<Rightarrow> bool" where
  "right_result listed st r \<longleftrightarrow> fst r \<noteq> None \<or> snd r = Some (st_sum st) \<or>
     \<not> listed \<and> st_typ st = ''broadcast'' \<and> snd r = None"

definition bc_right :: "bool \<Rightarrow> statement \<Rightarrow> (main_value, 'd, 'w) bc_state \<Rightarrow> bool" where
  "bc_right listed st S \<longleftrightarrow> bs_shared S = shared_of True (results S) \<and> (\<forall>r \<in> set (results S). right_reply st r) \<and>
     (\<forall>r k. G_Have r k \<in> set (bs_pc S) \<longrightarrow> right_reply st r) \<and> (listed \<longrightarrow> bs_pc S \<noteq> []) \<and>
     (results S = [] \<longrightarrow> G_Done \<notin> set (bs_pc S))"

definition foo_method_ok :: "statement \<Rightarrow> bool" where
  "foo_method_ok st \<longleftrightarrow> st_typ st \<in> {''call'', ''broadcast''} \<and> st_method st \<in> {''Foo.Sum'', ''Foo.Sleep''}"

lemma client_right:
  assumes "replies_sums net" and "foo_method_ok st" and "client_Call net c (st_method st) (st_value st) w = (r, w')"
  shows "right_reply st r"
  using assms unfolding replies_sums_def right_reply_def foo_method_ok_def st_value_def st_sum_def
  by (metis fst_conv)

lemma bc_right_step:
  assumes "bc_step net servers ctx_err (st_method st) (st_value st) S S'" and "bc_right listed st S"
    and "replies_sums net" and "foo_method_ok st"
  shows "bc_right listed st S'"
  using assms(1)
proof cases
  case (dial i r X w)
  with assms(2) show ?thesis
    by (auto simp: bc_right_def results_def right_reply_def split: sum.splits dest!: set_update_subset_insert [THEN subsetD])
next
  case (reply i c r w)
  with assms(2) client_right [OF assms(3,4) reply(4)] show ?thesis
    by (auto simp: bc_right_def results_def dest!: set_update_subset_insert [THEN subsetD])
next
  case (cancel i c e)
  with assms(2) show ?thesis
    by (auto simp: bc_right_def results_def right_reply_def dest!: set_update_subset_insert [THEN subsetD])
next
  case (finish i r k)
  have "right_reply st r" using assms(2) finish(2,3) unfolding bc_right_def by (metis nth_mem)
  with finish assms(2) show ?thesis
    by (auto simp: bc_right_def results_def shared_of_snoc dest!: set_update_subset_insert [THEN subsetD])
qed

lemma bc_right_start: "(listed \<Longrightarrow> servers \<noteq> []) \<Longrightarrow> bc_right listed st (bc_start servers True X w)"
  by (auto simp: bc_right_def bc_start_def results_def shared_of_Nil)

lemma bc_right_world: "bc_right listed st (S\<lparr>bs_x := X, bs_w := w\<rparr>) = bc_right listed st S"
  by (simp add: bc_right_def results_def)

lemma first_reply_in: "first_reply rs = Some v \<Longrightarrow> Inr v \<in> set rs"
  by (induction rs rule: first_reply.induct) auto

lemma no_reply_error: "first_reply rs = None \<Longrightarrow> first_error rs = None \<Longrightarrow> rs = []"
  by (induction rs rule: first_reply.induct) auto

lemma bc_right_result:
  assumes "bc_right listed st S" and "st_typ st = ''broadcast''" and "bc_ended S"
  shows "right_result listed st (bc_e (bs_shared S), bc_reply (bs_shared S))"
proof (cases "first_reply (results S)")
  case (Some v)
  then have "right_reply st (Inr v)" using assms(1) first_reply_in [OF Some] by (simp add: bc_right_def)
  with Some assms(1) show ?thesis by (simp add: right_result_def bc_right_def shared_of_def right_reply_def)
next
  case None
  have "results S \<noteq> []" if listed
    using assms(1,3) that by (cases "bs_pc S") (auto simp: bc_right_def bc_ended_def)
  with None no_reply_error [OF None] assms show ?thesis
    by (auto simp: right_result_def bc_right_def shared_of_def)
qed

section \<open>Invariant\<close>

text \<open>Where a goroutine is, given its statement.\<close>

fun at_ok :: "bool \<Rightarrow> statement list \<Rightarrow> ('d, 'w) go_at \<Rightarrow> bool" where
  "at_ok listed sts At_start \<longleftrightarrow> True"
| "at_ok listed [] a \<longleftrightarrow> False"
| "at_ok listed (st # sts) (At_picked addr) \<longleftrightarrow> st_typ st = ''call''"
| "at_ok listed (st # sts) (At_calling c) \<longleftrightarrow> st_typ st = ''call''"
| "at_ok listed (st # sts) (At_broadcast servers S) \<longleftrightarrow> st_typ st = ''broadcast'' \<and> bc_right listed st S"

definition prog_inv :: "(main_value, 'w) network \<Rightarrow> statement list list \<Rightarrow> bool \<Rightarrow> ('d, 'w) prog \<Rightarrow> bool" where
  "prog_inv net bodies listed P \<longleftrightarrow> replies_sums net \<and> (\<forall>st \<in> set (concat bodies). foo_method_ok st) \<and>
     (\<forall>(sts, a) \<in> set (pg_go P). at_ok listed sts a) \<and>
     mset (map fst (pg_log P)) + mset (concat (map fst (pg_go P))) = mset (concat bodies) \<and>
     (\<forall>(st, r) \<in> set (pg_log P). right_result listed st r)"

lemma prog_inv_left:
  assumes "prog_inv net bodies listed P" and "has_left P i st a"
  shows "foo_method_ok st" and "\<exists>sts. at_ok listed (st # sts) a"
proof -
  obtain sts where sts: "i < length (pg_go P)" "pg_go P ! i = (st # sts, a)"
    using assms(2) by (auto simp: has_left_def)
  then have mem: "(st # sts, a) \<in> set (pg_go P)" by (metis nth_mem)
  then have "st \<in># mset (concat (map fst (pg_go P)))" by force
  then have "st \<in># mset (concat bodies)"
    using assms(1) by (auto simp: prog_inv_def simp del: set_mset_mset mset_append dest!: sym [of _ "mset (concat bodies)"])
  with assms(1) show "foo_method_ok st" by (auto simp: prog_inv_def)
  show "\<exists>sts. at_ok listed (st # sts) a" using assms(1) mem by (auto simp: prog_inv_def)
qed

lemma goes_inv:
  assumes "prog_inv net bodies listed P" and "has_left P i st a" and "\<And>sts. at_ok listed (st # sts) a'"
  shows "prog_inv net bodies listed (goes i a' (moved X w P))"
proof -
  obtain sts where sts: "i < length (pg_go P)" "pg_go P ! i = (st # sts, a)"
    using assms(2) by (auto simp: has_left_def)
  have "map fst ((pg_go P)[i := (st # sts, a')]) = map fst (pg_go P)"
    using sts by (simp add: map_update list_update_same_conv)
  with assms sts show ?thesis
    by (auto simp: prog_inv_def goes_def moved_def dest!: set_update_subset_insert [THEN subsetD])
qed

lemma concat_tl:
  "i < length xs \<Longrightarrow> xs ! i = (y # ys, a) \<Longrightarrow>
   add_mset y (mset (concat (map fst (xs[i := (ys, b)])))) = mset (concat (map fst xs))"
proof (induction xs arbitrary: i)
  case (Cons x xs)
  then show ?case by (cases i) auto
qed simp

lemma prints_inv:
  assumes "prog_inv net bodies listed P" and "has_left P i st a" and "right_result listed st r"
  shows "prog_inv net bodies listed (prints i r (moved X w P))"
proof -
  obtain sts where sts: "i < length (pg_go P)" "pg_go P ! i = (st # sts, a)"
    using assms(2) by (auto simp: has_left_def)
  from concat_tl [OF this, of At_start]
  have "mset (map fst (pg_log P)) + mset (concat (map fst (pg_go P))) =
      mset (map fst (pg_log P @ [(st, r)])) + mset (concat (map fst ((pg_go P)[i := (sts, At_start)])))"
    by simp
  with assms sts show ?thesis
    by (auto simp: prog_inv_def prints_def moved_def dest!: set_update_subset_insert [THEN subsetD])
qed

lemma prog_step_inv:
  assumes "prog_step net dis P P'" and "prog_inv net bodies listed P"
    and "\<And>D ss. listed \<Longrightarrow> D \<in> dis \<Longrightarrow> fst (dis_GetAll D (x_dis (pg_x P))) = Inr ss \<Longrightarrow> ss \<noteq> []"
  shows "prog_inv net bodies listed P'"
proof -
  note left = prog_inv_left [OF assms(2)]
  have moved: "P = moved (pg_x P) (pg_w P) P" by (simp add: moved_def)
  have err: "right_result listed st (Some e, None)" for st e by (simp add: right_result_def)
  from assms(1) show ?thesis
  proof cases
    case (pick i st D a d)
    then show ?thesis using goes_inv [OF assms(2) pick(2)] by simp
  next
    case (no_pick i st D e d)
    then show ?thesis using prints_inv [OF assms(2) no_pick(2) err] by simp
  next
    case (dial i st a c X w)
    then show ?thesis using goes_inv [OF assms(2) dial(2)] left(2) [OF dial(2)] by simp
  next
    case (no_dial i st a e X w)
    then show ?thesis using prints_inv [OF assms(2) no_dial(2) err] by simp
  next
    case (reply i st c r w)
    have "right_reply st r"
      using client_right [OF _ left(1) [OF reply(2)] reply(3)] assms(2) by (simp add: prog_inv_def)
    then have "right_result listed st (foo_outcome r)"
      by (cases r) (auto simp: right_result_def foo_outcome_def right_reply_def)
    with prints_inv [OF assms(2) reply(2)] reply(1) show ?thesis by simp
  next
    case (list i st D servers d)
    have "listed \<Longrightarrow> servers \<noteq> []" using assms(3) [OF _ list(4)] list(5) by simp
    then show ?thesis unfolding list(1)
      by (intro goes_inv [OF assms(2) list(2)]) (simp add: list(3) bc_right_start)
  next
    case (no_list i st D e d)
    then show ?thesis using prints_inv [OF assms(2) no_list(2) err] by simp
  next
    case (broadcast i st servers S ctx_err S')
    have "st_typ st = ''broadcast''" "bc_right listed st S" using left(2) [OF broadcast(2)] by simp_all
    moreover have "bc_right listed st S'"
      using bc_right_step [OF broadcast(4) _ _ left(1) [OF broadcast(2)]] assms(2) calculation
      by (simp add: bc_right_world prog_inv_def)
    ultimately show ?thesis using goes_inv [OF assms(2) broadcast(2)] broadcast(1) by simp
  next
    case (broadcast_done i st servers S)
    have "right_result listed st (bc_e (bs_shared S), bc_reply (bs_shared S))"
      using left(2) [OF broadcast_done(2)] by (auto intro: bc_right_result [OF _ _ broadcast_done(3)])
    from prints_inv [OF assms(2) broadcast_done(2) this, of "pg_x P" "pg_w P"] broadcast_done(1) moved show ?thesis
      by simp
  next
    case (neither i st)
    with left(1) [OF neither(2)] show ?thesis by (simp add: foo_method_ok_def)
  qed
qed

definition prog_of ::
  "(main_value, 'w) network \<Rightarrow> statement list list \<Rightarrow> ('d, 'w) prog \<Rightarrow> bool" where
  "prog_of net bodies P \<longleftrightarrow> (\<exists>s. P = prog_start bodies s) \<and> replies_sums net \<and>
     (\<forall>st \<in> set (concat bodies). foo_method_ok st)"

lemma prog_start_inv: "prog_of net bodies P \<Longrightarrow> prog_inv net bodies listed P"
  by (auto simp: prog_of_def prog_inv_def prog_start_def comp_def)

section \<open>Progress\<close>

text \<open>
  What a discovery may do: \<open>dok\<close> holds of its state and stays, and then it lists at most \<open>N\<close>
  servers, and one at least if \<open>listed\<close>.
\<close>

definition dis_ok :: "bool \<Rightarrow> nat \<Rightarrow> ('d \<Rightarrow> bool) \<Rightarrow> 'd discovery_fns set \<Rightarrow> bool" where
  "dis_ok listed N dok dis \<longleftrightarrow> dis \<noteq> {} \<and> (\<forall>D \<in> dis. \<forall>d. dok d \<longrightarrow> (\<forall>m. dok (snd (dis_Get D m d))) \<and>
     dok (snd (dis_GetAll D d)) \<and> (\<forall>ss. fst (dis_GetAll D d) = Inr ss \<longrightarrow> length ss \<le> N \<and> (listed \<longrightarrow> ss \<noteq> [])))"

fun at_weight :: "nat \<Rightarrow> ('d, 'w) go_at \<Rightarrow> nat" where
  "at_weight N At_start = 3 * N + 3"
| "at_weight N (At_picked a) = 2"
| "at_weight N (At_calling c) = 1"
| "at_weight N (At_broadcast servers S) = bc_left S + 1"

fun go_weight :: "nat \<Rightarrow> statement list \<times> ('d, 'w) go_at \<Rightarrow> nat" where
  "go_weight N ([], a) = 0"
| "go_weight N (st # sts, a) = (3 * N + 3) * length sts + at_weight N a"

definition prog_left :: "nat \<Rightarrow> ('d, 'w) prog \<Rightarrow> nat" where
  "prog_left N P = sum_list (map (go_weight N) (pg_go P))"

definition prog_live :: "bool \<Rightarrow> nat \<Rightarrow> ('d \<Rightarrow> bool) \<Rightarrow> 'd discovery_fns set \<Rightarrow> ('d, 'w) prog \<Rightarrow> bool" where
  "prog_live listed N dok dis P \<longleftrightarrow>
     dis_ok listed N dok dis \<and> dok (x_dis (pg_x P)) \<and> finite (dom (x_clients (pg_x P)))"

lemma sum_list_less:
  fixes f :: "'a \<Rightarrow> nat"
  shows "i < length xs \<Longrightarrow> f y < f (xs ! i) \<Longrightarrow> sum_list (map f (xs[i := y])) < sum_list (map f xs)"
  by (induction xs arbitrary: i) (auto split: nat.split simp: nth_Cons)

lemma goes_left:
  assumes "has_left P i st a" and "at_weight N a' < at_weight N a"
  shows "prog_left N (goes i a' (moved X w P)) < prog_left N P"
  using assms by (auto simp: has_left_def prog_left_def goes_def moved_def intro!: sum_list_less)

lemma at_weight_pos: "0 < at_weight N a"
  by (cases a) auto

lemma prints_left:
  assumes "has_left P i st a"
  shows "prog_left N (prints i r (moved X w P)) < prog_left N P"
proof -
  obtain sts where sts: "i < length (pg_go P)" "pg_go P ! i = (st # sts, a)"
    using assms by (auto simp: has_left_def)
  have "go_weight N (sts, At_start) < go_weight N (st # sts, a)"
    using at_weight_pos [of N a] by (cases sts) auto
  with sts show ?thesis by (auto simp: prog_left_def prints_def moved_def intro!: sum_list_less)
qed

lemma X_dial_dis: "X_dial net a (X, w) = (r, X', w') \<Longrightarrow> x_dis X' = x_dis X"
  by (auto simp: X_dial_def Let_def split: option.splits if_splits prod.splits sum.splits)

lemma X_dial_finite: "X_dial net a (X, w) = (r, X', w') \<Longrightarrow> finite (dom (x_clients X)) \<Longrightarrow> finite (dom (x_clients X'))"
  by (auto simp: X_dial_def Let_def split: option.splits if_splits prod.splits sum.splits)

lemma bc_step_dis: "bc_step net servers ctx_err m args S S' \<Longrightarrow> x_dis (bs_x S') = x_dis (bs_x S)"
  by (erule bc_stepE) (auto dest: X_dial_dis)

lemma bc_step_finite:
  "bc_step net servers ctx_err m args S S' \<Longrightarrow> finite (dom (x_clients (bs_x S))) \<Longrightarrow> finite (dom (x_clients (bs_x S')))"
  by (erule bc_stepE) (auto dest: X_dial_finite)

lemma goes_x [simp]: "pg_x (goes i a P) = pg_x P" "pg_x (prints i r P) = pg_x P" "pg_x (moved X w P) = X"
  by (simp_all add: goes_def prints_def moved_def)

lemma prog_step_live:
  assumes "prog_step net dis P P'" and "prog_live listed N dok dis P"
  shows "prog_live listed N dok dis P' \<and> prog_left N P' < prog_left N P"
proof -
  have ok: "dok (snd (dis_Get D m (x_dis (pg_x P))))" "dok (snd (dis_GetAll D (x_dis (pg_x P))))"
    "fst (dis_GetAll D (x_dis (pg_x P))) = Inr ss \<Longrightarrow> length ss \<le> N" if "D \<in> dis" for D m ss
    using assms(2) that by (auto simp: prog_live_def dis_ok_def)
  from assms show ?thesis
  proof cases
    case (pick i st D a d)
    then show ?thesis using goes_left [OF pick(2)] ok(1) [OF pick(4)] assms(2)
      by (simp add: prog_live_def) (metis snd_conv)
  next
    case (no_pick i st D e d)
    then show ?thesis using prints_left [OF no_pick(2)] ok(1) [OF no_pick(4)] assms(2)
      by (simp add: prog_live_def) (metis snd_conv)
  next
    case (dial i st a c X w)
    then show ?thesis using goes_left [OF dial(2)] assms(2) X_dial_finite [OF dial(3)]
      by (simp add: prog_live_def X_dial_dis)
  next
    case (no_dial i st a e X w)
    then show ?thesis using prints_left [OF no_dial(2)] assms(2) X_dial_finite [OF no_dial(3)]
      by (simp add: prog_live_def X_dial_dis)
  next
    case (reply i st c r w)
    then show ?thesis using prints_left [OF reply(2)] assms(2) by (simp add: prog_live_def)
  next
    case (list i st D servers d)
    have "length servers \<le> N" using ok(3) [OF list(4)] list(5) by simp
    then show ?thesis using list goes_left [OF list(2)] ok(2) [OF list(4)] assms(2)
      by (simp add: prog_live_def bc_left_start)
  next
    case (no_list i st D e d)
    then show ?thesis using prints_left [OF no_list(2)] ok(2) [OF no_list(4)] assms(2) by (simp add: prog_live_def)
  next
    case (broadcast i st servers S ctx_err S')
    have "bc_left S' < bc_left S" using bc_step_left [OF broadcast(4)] by (simp add: bc_left_def)
    then show ?thesis using broadcast(1) goes_left [OF broadcast(2)] bc_step_dis [OF broadcast(4)]
        bc_step_finite [OF broadcast(4)] assms(2)
      by (simp add: prog_live_def)
  next
    case (broadcast_done i st servers S)
    then show ?thesis using prints_left [OF broadcast_done(2), of N _ "pg_x P" "pg_w P"] assms(2)
      by (simp add: prog_live_def moved_def)
  next
    case (neither i st)
    then show ?thesis using prints_left [OF neither(2), of N _ "pg_x P" "pg_w P"] assms(2)
      by (simp add: prog_live_def moved_def)
  qed
qed

lemma prog_progress:
  assumes "prog_live listed N dok dis P" and "\<not> prog_over P"
  shows "\<exists>P'. prog_step net dis P P'"
proof -
  obtain D where D: "D \<in> dis" using assms(1) by (auto simp: prog_live_def dis_ok_def)
  obtain g where g: "g \<in> set (pg_go P)" "fst g \<noteq> []" using assms(2) by (auto simp: prog_over_def)
  then obtain i where i: "i < length (pg_go P)" "pg_go P ! i = g" by (auto simp: in_set_conv_nth)
  obtain st sts a where "g = (st # sts, a)" using g(2) by (metis list.exhaust prod.collapse)
  with i have left: "has_left P i st a" by (simp add: has_left_def)
  show ?thesis
  proof (cases a)
    case At_start
    with left have L: "has_left P i st At_start" by simp
    obtain r d where get: "dis_Get D (x_mode (pg_x P)) (x_dis (pg_x P)) = (r, d)" by fastforce
    obtain r' d' where all: "dis_GetAll D (x_dis (pg_x P)) = (r', d')" by fastforce
    consider "st_typ st = ''call''" | "st_typ st = ''broadcast''" | "st_typ st \<noteq> ''call''" "st_typ st \<noteq> ''broadcast''"
      by blast
    then show ?thesis
    proof cases
      case 1
      from prog_step.pick [OF L 1 D] prog_step.no_pick [OF L 1 D] get show ?thesis by (cases r) blast+
    next
      case 2
      from prog_step.list [OF L 2 D] prog_step.no_list [OF L 2 D] all show ?thesis by (cases r') blast+
    next
      case 3
      from prog_step.neither [OF L 3] show ?thesis by blast
    qed
  next
    case (At_picked addr)
    with left have L: "has_left P i st (At_picked addr)" by simp
    obtain r X w where "X_dial net addr (pg_x P, pg_w P) = (r, X, w)" by (metis prod.exhaust)
    with prog_step.dial [OF L] prog_step.no_dial [OF L] show ?thesis by (cases r) blast+
  next
    case (At_calling c)
    with left have L: "has_left P i st (At_calling c)" by simp
    obtain r w where "client_Call net c (st_method st) (st_value st) (pg_w P) = (r, w)" by fastforce
    from prog_step.reply [OF L this] show ?thesis by blast
  next
    case (At_broadcast servers S)
    with left have L: "has_left P i st (At_broadcast servers S)" by simp
    show ?thesis
    proof (cases "bc_ended S")
      case True
      from prog_step.broadcast_done [OF L True] show ?thesis by blast
    next
      case False
      then have "\<not> bc_ended (S\<lparr>bs_x := pg_x P, bs_w := pg_w P\<rparr>)" by (simp add: bc_ended_def)
      from bc_progress [OF this] prog_step.broadcast [OF L] show ?thesis by blast
    qed
  qed
qed

interpretation prog_ends: ending_machine "prog_live listed N dok dis" "prog_step net dis" "prog_live listed N dok dis"
  prog_over "prog_left N" for listed N dok dis net
  by unfold_locales (use prog_step_live prog_progress in blast)+

interpretation prog: machine "\<lambda>P. prog_of net bodies P \<and> prog_live listed N dok dis P" "prog_step net dis"
  "\<lambda>P. prog_inv net bodies listed P \<and> prog_live listed N dok dis P" for net bodies listed N dok dis
proof unfold_locales
  fix P P'
  assume st: "prog_step net dis P P'" and inv: "prog_inv net bodies listed P \<and> prog_live listed N dok dis P"
  have "ss \<noteq> []" if "listed" "D \<in> dis" "fst (dis_GetAll D (x_dis (pg_x P))) = Inr ss" for D ss
    using inv that by (auto simp: prog_live_def dis_ok_def)
  with prog_step_inv [OF st] prog_step_live [OF st] inv
  show "prog_inv net bodies listed P' \<and> prog_live listed N dok dis P'" by blast
qed (auto intro: prog_start_inv)

text \<open>Without the condition on the discovery a broadcast may find no server.\<close>

interpretation unlisted: machine "prog_of net bodies" "prog_step net dis" "prog_inv net bodies False"
  for net bodies dis
  by unfold_locales (auto intro: prog_start_inv prog_step_inv)

section \<open>The lines of a program\<close>

definition error_line :: "statement \<Rightarrow> string \<Rightarrow> string" where
  "error_line st e = st_typ st @ '' '' @ st_method st @ '' error: '' @ e"

definition success_line :: "statement \<Rightarrow> int64 \<Rightarrow> string" where
  "success_line st n = st_typ st @ '' '' @ st_method st @ '' success: '' @ FormatInt (sint (fst (st_args st))) @
     '' + '' @ FormatInt (sint (snd (st_args st))) @ '' = '' @ FormatInt (sint n)"

definition right_line :: "bool \<Rightarrow> statement \<times> string \<Rightarrow> bool" where
  "right_line listed = (\<lambda>(st, l). (\<exists>e. l = error_line st e) \<or>
     l = success_line st (fst (st_args st) + snd (st_args st)) \<or>
     \<not> listed \<and> st_typ st = ''broadcast'' \<and> l = success_line st 0)"

lemma says_right:
  assumes "right_result listed st r"
  shows "right_line listed (st, says (st, r))"
proof (cases "fst r")
  case None
  with assms have "snd r = Some (st_sum st) \<or> \<not> listed \<and> st_typ st = ''broadcast'' \<and> snd r = None"
    by (simp add: right_result_def)
  with None show ?thesis
    by (cases r; cases "st_args st") (auto simp: right_line_def says_def foo_line_def success_line_def st_sum_def)
next
  case (Some e)
  then show ?thesis
    by (cases r; cases "st_args st") (auto simp: right_line_def says_def foo_line_def error_line_def)
qed

text \<open>One line for each statement of the goroutines, and each line right.\<close>

definition right_output :: "bool \<Rightarrow> statement list list \<Rightarrow> string list \<Rightarrow> bool" where
  "right_output listed bodies lines \<longleftrightarrow> (\<exists>log. lines = map snd log \<and>
     mset (map fst log) = mset (concat bodies) \<and> (\<forall>sl \<in> set log. right_line listed sl))"

lemma over_output:
  assumes "prog_inv net bodies listed P" and "prog_over P"
  shows "right_output listed bodies (map says (pg_log P))"
proof -
  have "concat (map fst (pg_go P)) = []" using assms(2) by (auto simp: prog_over_def)
  with assms(1) have "mset (map fst (pg_log P)) = mset (concat bodies)" by (simp add: prog_inv_def)
  moreover have "right_line listed (st, says (st, r))" if "(st, r) \<in> set (pg_log P)" for st r
    using assms(1) that by (intro says_right) (auto simp: prog_inv_def)
  ultimately show ?thesis
    unfolding right_output_def
    by (intro exI [of _ "map (\<lambda>sr. (fst sr, says sr)) (pg_log P)"]) (auto simp: comp_def)
qed

lemma bodies_ok: "bodies \<in> {call_bodies, broadcast_bodies} \<Longrightarrow> \<forall>st \<in> set (concat bodies). foo_method_ok st"
  by (auto simp: call_bodies_def broadcast_bodies_def foo_method_ok_def)

lemma bodies_prog_of:
  "replies_sums net \<Longrightarrow> bodies \<in> {call_bodies, broadcast_bodies} \<Longrightarrow> prog_of net bodies (prog_start bodies s)"
  unfolding prog_of_def using bodies_ok by blast

lemma runs_output:
  assumes "runs net dis bodies X w (log, s)" and "replies_sums net" and "bodies \<in> {call_bodies, broadcast_bodies}"
  shows "right_output False bodies (map says log)"
  using assms(1)
proof cases
  case (1 P order)
  with over_output [OF unlisted.inv_reached [OF 1(3) bodies_prog_of [OF assms(2,3)]]] show ?thesis by simp
qed

lemma runs_listed_output:
  assumes "runs net dis bodies X w (log, s)" and "replies_sums net" and "bodies \<in> {call_bodies, broadcast_bodies}"
    and "prog_live True N dok dis (prog_start bodies (X, w))"
  shows "right_output True bodies (map says log)"
  using assms(1)
proof cases
  case (1 P order)
  with over_output [OF conjunct1 [OF prog.inv_reached [OF 1(3) conjI [OF bodies_prog_of [OF assms(2,3)] assms(4)]]]]
  show ?thesis by simp
qed

section \<open>The discoveries\<close>

lemma multi_ok: "dis_ok True 2 (\<lambda>d. length (disc_servers d) = 2) (multi_fns intn)"
  by (auto simp: dis_ok_def multi_fns_def multi_GetAll_def multi_Get_servers)

lemma multi_live:
  "prog_live True 2 (\<lambda>d. length (disc_servers d) = 2) (multi_fns intn)
     (prog_start bodies (two_servers intn seed addr1 addr2, w))"
  using multi_ok by (simp add: prog_live_def prog_start_def two_servers_def NewXClient_def
      NewMultiServerDiscovery_def Let_def split: prod.split)

text \<open>What \<open>NewMyRegistryDiscovery\<close> gets from a registry that names at most \<open>N\<close> servers.\<close>

definition names_at_most :: "nat \<Rightarrow> 'r registry_get \<Rightarrow> bool" where
  "names_at_most N http_Get \<longleftrightarrow>
     (\<forall>u w hdr w'. http_Get u w = (Inr hdr, w') \<longrightarrow> length (strings_Split (CHR '','') hdr) \<le> N)"

definition rd_within :: "nat \<Rightarrow> 'g registry_discovery \<times> 'r \<Rightarrow> bool" where
  "rd_within N s \<longleftrightarrow> length (disc_servers (embedded (fst s))) \<le> N"

lemma kept_servers_length: "length (kept_servers ss) \<le> length ss"
  unfolding kept_servers_eq by (metis length_filter_le length_map)

lemma rd_Refresh_within:
  assumes "names_at_most N http_Get" and "rd_Refresh http_Get now now' (d, w) = (e, d', w')" and "rd_within N (d, w)"
  shows "rd_within N (d', w')"
proof -
  have "length (kept_servers (strings_Split (CHR '','') hdr)) \<le> N" if "http_Get (rd_registry d) w = (Inr hdr, v)" for hdr v
    using assms(1) that kept_servers_length [of "strings_Split (CHR '','') hdr"]
    unfolding names_at_most_def by (meson le_trans)
  with assms(2,3) show ?thesis
    by (auto simp: rd_Refresh_def rd_within_def rd_set_servers_def Let_def split: if_splits prod.splits sum.splits)
qed

lemma registry_ok:
  fixes http_Get :: "'r registry_get" and intn :: "'g random_source"
  assumes "names_at_most N http_Get"
  shows "dis_ok False N (rd_within N) (registry_fns http_Get intn)"
proof -
  have get: "rd_within N (snd (rd_Get http_Get intn now now' m (d, w)))" if "rd_within N (d, w)" for now now' m d w
  proof -
    obtain e d' w' where R: "rd_Refresh http_Get now now' (d, w) = (e, d', w')" by (metis prod_cases3)
    from rd_Refresh_within [OF assms R that] multi_Get_servers [of intn m "embedded d'"] R show ?thesis
      by (auto simp: rd_Get_def rd_within_def Let_def split: option.split prod.split)
  qed
  have all: "rd_within N (snd (rd_GetAll http_Get now now' (d, w)))"
    "fst (rd_GetAll http_Get now now' (d, w)) = Inr ss \<Longrightarrow> length ss \<le> N"
    if "rd_within N (d, w)" for now now' ss w and d :: "'g registry_discovery"
  proof -
    obtain e d' w' where R: "rd_Refresh http_Get now now' (d, w) = (e, d', w')" by (metis prod_cases3)
    with rd_Refresh_within [OF assms R that]
    show "rd_within N (snd (rd_GetAll http_Get now now' (d, w)))"
      "fst (rd_GetAll http_Get now now' (d, w)) = Inr ss \<Longrightarrow> length ss \<le> N"
      by (auto simp: rd_GetAll_def multi_GetAll_def rd_within_def Let_def split: option.splits)
  qed
  have "registry_fns http_Get intn \<noteq> {}" by (auto simp: registry_fns_def)
  moreover have "(\<forall>m. rd_within N (snd (dis_Get D m d))) \<and> rd_within N (snd (dis_GetAll D d)) \<and>
     (\<forall>ss. fst (dis_GetAll D d) = Inr ss \<longrightarrow> length ss \<le> N)"
    if D: "D \<in> registry_fns http_Get intn" and d: "rd_within N d" for D d
  proof -
    obtain now now' where "D = \<lparr>dis_Get = rd_Get http_Get intn now now', dis_GetAll = rd_GetAll http_Get now now'\<rparr>"
      using D by (auto simp: registry_fns_def)
    moreover obtain d1 v where "d = (d1, v)" by (cases d)
    ultimately show ?thesis using get all d by simp
  qed
  ultimately show ?thesis unfolding dis_ok_def by simp
qed

lemma registry_live:
  assumes "names_at_most N http_Get"
  shows "prog_live False N (rd_within N) (registry_fns http_Get intn) (prog_start bodies (main_client intn seed registry r, w))"
  using registry_ok [OF assms] by (simp add: prog_live_def prog_start_def main_client_def NewXClient_def rd_within_def
      NewMyRegistryDiscovery_def NewMultiServerDiscovery_def Let_def split: prod.split)

lemma prog_left_start:
  "bodies \<in> {call_bodies, broadcast_bodies} \<Longrightarrow> prog_left N (prog_start bodies s) = (3 * N + 3) * length (concat bodies)"
  by (auto simp: prog_left_def prog_start_def call_bodies_def broadcast_bodies_def main_args_def upt_rec)

lemma ends_run:
  assumes "prog_live listed N dok dis (prog_start bodies (X, w))"
  shows "\<exists>log X' w'. runs net dis bodies X w (log, X', w')"
proof -
  obtain P where P: "prog_steps net dis (prog_start bodies (X, w)) P" "prog_over P"
    using prog_ends.can_end [OF assms] by blast
  have "prog_live listed N dok dis P" by (rule prog_ends.inv_steps [OF P(1) assms])
  then have "finite (dom (x_clients (pg_x P)))" by (simp add: prog_live_def)
  from finite_distinct_list [OF this] obtain order where
    "set order = dom (x_clients (pg_x P))" "distinct order" by (elim exE conjE)
  note run = runs.intros [OF P this(2,1)]
  obtain X' w' where "X_Close net order (pg_x P, pg_w P) = (X', w')" by fastforce
  with run have "runs net dis bodies X w (pg_log P, X', w')" by simp
  then show ?thesis by (intro exI)
qed

lemma main_can_print:
  assumes "names_at_most N http_Get"
  shows "\<exists>lines. main_prints net http_Get intn seed seed' (r, w) lines"
proof -
  note run = ends_run [OF registry_live [OF assms]]
  obtain log1 X1 w1 where 1: "main_callNew net http_Get intn seed registryAddr (r, w) (log1, X1, w1)"
    using run unfolding main_callNew_def prod.case by meson
  obtain log2 X2 w2 where
    "main_broadcastNew net http_Get intn seed' registryAddr (snd (x_dis X1), w1) (log2, X2, w2)"
    using run unfolding main_broadcastNew_def prod.case by meson
  with 1 show ?thesis by (blast intro: main_prints.intros)
qed

lemma bodies_length: "length (concat call_bodies) = 5" "length (concat broadcast_bodies) = 10"
  by (simp_all add: call_bodies_def broadcast_bodies_def main_args_def upt_rec)

lemma right_output_length: "right_output listed bodies out \<Longrightarrow> length out = length (concat bodies)"
  unfolding right_output_def by (metis length_map mset_eq_length)

lemma two_servers_output:
  assumes "runs net (multi_fns intn) bodies (two_servers intn seed addr1 addr2) w (log, s)" and "replies_sums net"
    and "bodies \<in> {call_bodies, broadcast_bodies}"
  shows "right_output True bodies (map says log)"
  by (rule runs_listed_output [OF assms multi_live])

lemma Broadcast_nobody:
  assumes "Broadcast net get_all True ctx_err m args (X, w) (ev, S)" and "fst (get_all (x_dis X)) = Inr []"
  shows "ev = (None, None)"
  using assms(1)
proof cases
  case (no_servers e d)
  with assms(2) show ?thesis by simp
next
  case (servers ss d)
  with assms(2) have "(bc_step net [] ctx_err m args)\<^sup>*\<^sup>* (bc_start [] True (X\<lparr>x_dis := d\<rparr>) w) S" by simp
  then have "bc_inv 0 True ctx_err S" using bc.inv_reached [of net "[]"] by fastforce
  then have "bs_log S = []" "bs_shared S = shared_of True (results S)" by (auto simp: bc_inv_def)
  with servers(1) show ?thesis by (simp add: results_def shared_of_def)
qed

text \<open>A network that answers with the sums, and a registry that names two servers.\<close>

definition sum_network :: "(main_value, nat) network" where
  "sum_network = \<lparr>available = (\<lambda>c w. True), close_client = (\<lambda>c w. w),
     dial_client = (\<lambda>a opt w. (Inr (Suc w), Suc w)),
     client_Call = (\<lambda>c m v w. (case v of Args a b \<Rightarrow> Inr (Reply (a + b)) | _ \<Rightarrow> Inl ''no args'', w))\<rparr>"

definition two_names :: "unit registry_get" where
  "two_names = (\<lambda>u w. (Inr ''tcp@a,tcp@b'', w))"

lemma sum_network_ok: "replies_sums sum_network"
  by (simp add: replies_sums_def sum_network_def)

lemma two_names_ok: "names_at_most 2 two_names"
  by (simp add: names_at_most_def two_names_def)

section \<open>Properties\<close>





text \<open>
  The same of \<open>mainOldII\<close>, whose client has the addresses of the two servers that it starts: there is
  no line of a broadcast without servers.
\<close>

theorem mainOldII_lines_right:
  assumes "mainOldII_prints net intn seed seed' l1 l2 w lines" and "replies_sums net"
  shows "\<exists>out1 out2. lines = out1 @ out2 \<and> right_output True call_bodies out1 \<and> right_output True broadcast_bodies out2"
  using assms(1)
proof cases
  case (1 out1 server1 addr1 out2 server2 addr2 log1 X1 w1 log2 X2 w2)
  have out: "out1 = []" "out2 = []" using 1(2,3) by (auto simp: startServerOld_def Let_def split: sum.splits)
  have "right_output True call_bodies (map says log1)"
    using 1(4) unfolding main_call_def by (rule two_servers_output [OF _ assms(2)]) simp
  moreover have "right_output True broadcast_bodies (map says log2)"
    using 1(5) unfolding main_broadcast_def by (rule two_servers_output [OF _ assms(2)]) simp
  ultimately show ?thesis unfolding 1(1) out append_Nil by blast
qed

theorem mainOldII_lines_right_witness:
  "\<exists>lines out1 out2. mainOldII_prints sum_network (\<lambda>n g. (0, g)) () () (Inr ''[::]:1'') (Inr ''[::]:2'') 0 lines \<and>
     lines = out1 @ out2 \<and> right_output True broadcast_bodies out2"
proof -
  let ?i = "\<lambda>n g. (0, g)"
  have start: "\<exists>srv. startServerOld (Inr a) = ([], Ret (srv, a))" for a by (simp add: startServerOld_def Let_def)
  note run = ends_run [OF multi_live]
  obtain log1 X1 w1 where 1: "main_call sum_network ?i () ''[::]:1'' ''[::]:2'' 0 (log1, X1, w1)"
    using run unfolding main_call_def by meson
  obtain log2 X2 w2 where 2: "main_broadcast sum_network ?i () ''[::]:1'' ''[::]:2'' w1 (log2, X2, w2)"
    using run unfolding main_broadcast_def by meson
  obtain srv1 srv2 where "startServerOld (Inr ''[::]:1'') = ([], Ret (srv1, ''[::]:1''))"
    "startServerOld (Inr ''[::]:2'') = ([], Ret (srv2, ''[::]:2''))" using start by metis
  from mainOldII_prints.intros [OF this 1 2]
  have run: "mainOldII_prints sum_network ?i () () (Inr ''[::]:1'') (Inr ''[::]:2'') 0 ([] @ [] @ map says log1 @ map says log2)" .
  from mainOldII_lines_right [OF run sum_network_ok] run show ?thesis by blast
qed

text \<open>
  A client whose discovery lists no server: a call fails and says so, but a broadcast is printed as
  a success, with 0 for the sum.
\<close>

theorem broadcast_to_nobody_succeeds:
  assumes "disc_servers (x_dis X) = []"
    and "foo_prints net (multi_Get intn) multi_GetAll ctx_err (st_typ st) (st_method st) (st_args st) (X, w) (l, X', w')"
  shows "(st_typ st = ''call'' \<longrightarrow> l = error_line st no_server) \<and> (st_typ st = ''broadcast'' \<longrightarrow> l = success_line st 0)"
  using assms(2)
proof cases
  case (call r)
  then have "r = Inl no_server" using assms(1) by (simp add: X_Call_def multi_Get_def)
  with call show ?thesis by (simp add: foo_line_def error_line_def split: prod.split)
next
  case (broadcast ev S)
  have "fst (multi_GetAll (x_dis X)) = Inr []" using assms(1) by (simp add: multi_GetAll_def)
  with broadcast have "ev = (None, None)" by (blast intro: Broadcast_nobody)
  with broadcast show ?thesis by (simp add: foo_line_def success_line_def split: prod.split)
qed simp

theorem broadcast_to_nobody_succeeds_witness:
  "\<exists>S. foo_prints sum_network (multi_Get (\<lambda>n g. (0, g))) multi_GetAll None ''broadcast'' ''Foo.Sum'' (3, 4)
     (NewXClient (NewMultiServerDiscovery (\<lambda>n g. (0, g)) () []) RandomSelect None, 0)
     (''broadcast Foo.Sum success: 3 + 4 = 0'', S)"
proof -
  let ?X = "NewXClient (NewMultiServerDiscovery (\<lambda>n g. (0, g)) () []) RandomSelect None"
  let ?st = "\<lparr>st_typ = ''broadcast'', st_deadline = False, st_method = ''Foo.Sum'', st_args = (3, 4)\<rparr>"
  have nobody: "disc_servers (x_dis ?X) = []" by (simp add: NewXClient_def NewMultiServerDiscovery_def)
  let ?ns = "(3, 4) :: int64 \<times> int64"
  obtain r where r: "Broadcast sum_network multi_GetAll True None ''Foo.Sum'' (Args (fst ?ns) (snd ?ns)) (?X, 0) r"
    using Broadcast_total [of sum_network multi_GetAll True None "''Foo.Sum''" "Args (fst ?ns) (snd ?ns)" ?X 0] by (elim exE)
  obtain ev S where "r = (ev, S)" by (cases r)
  with r have b: "Broadcast sum_network multi_GetAll True None ''Foo.Sum'' (Args (fst ?ns) (snd ?ns)) (?X, 0) (ev, S)"
    by simp
  note f = foo_prints.broadcast [OF b, of "multi_Get (\<lambda>n g. (0, g))"]
  have "foo_line ''broadcast'' ''Foo.Sum'' ?ns ev = success_line ?st 0"
    using broadcast_to_nobody_succeeds [OF nobody, where st = ?st] f by fastforce
  also have "\<dots> = ''broadcast Foo.Sum success: 3 + 4 = 0''"
    by (simp add: success_line_def) code_simp
  finally show ?thesis using f by auto
qed

end
