(* ===== verification/Rpc_Old.thy ===== *)
theory Rpc_Old
  imports Rpc_Program
begin

text \<open>
  The oldest programs of MyRPC/main/main.go, \<open>mainOld\<close> with \<open>Dial\<close> and \<open>callOld\<close> with \<open>DialHTTP\<close>: five
  goroutines call \<open>Foo.Sum\<close> through one client and print the sums; an error ends the program. They
  run on the machine of client, connection and server of \<open>Rpc_System\<close>, from the moment on at which
  the client is connected to the server of \<open>startServerOld\<close>.
\<close>

section \<open>The goroutines\<close>

text \<open>What they printed, with a flag for \<open>log.Fatal\<close>, by the number of the goroutine.\<close>

record ('m, 'w) old_prog =
  od_sys :: "('m, main_value, 'w) rpc_sys"
  od_out :: "(nat \<times> bool \<times> string) list"

definition old_args :: "nat \<Rightarrow> main_value" where
  "old_args i = Args (word_of_nat i) (word_of_nat i * word_of_nat i)"

definition old_start :: "string \<Rightarrow> int \<Rightarrow> ('m, int) old_prog" where
  "old_start addr now = \<lparr>od_sys = sys_start (fst (startServer addr)) old_args now, od_out = []\<rparr>"

definition call_error_old :: string where
  "call_error_old = ''call Foo.Sum error:''"

definition call_error_main :: string where
  "call_error_main = [CHR 0xE8, CHR 0xB0, CHR 0x83, CHR 0xE7, CHR 0x94, CHR 0xA8] @ ''Foo.Sum'' @
     [CHR 0xE9, CHR 0x94, CHR 0x99, CHR 0xE8, CHR 0xAF, CHR 0xAF, CHR 0xEF, CHR 0xBC, CHR 0x9A]"

definition sum_line :: "nat \<Rightarrow> int64 \<Rightarrow> string" where
  "sum_line i n = FormatInt (sint (word_of_nat i :: int64)) @ '' + '' @
     FormatInt (sint (word_of_nat i * word_of_nat i :: int64)) @ '' = '' @ FormatInt (sint n)"

text \<open>After \<open>Call\<close> has returned \<open>err\<close>; the reply is 0 unless it was set.\<close>

definition old_says :: "string \<Rightarrow> nat \<Rightarrow> string option \<Rightarrow> main_value option \<Rightarrow> nat \<times> bool \<times> string" where
  "old_says fatal i err reply = (case err of
     Some e \<Rightarrow> (i, True, fatal @ e)
   | None \<Rightarrow> (i, False, sum_line i (case reply of Some (Reply n) \<Rightarrow> n | _ \<Rightarrow> 0)))"

definition old_exited :: "('m, 'w) old_prog \<Rightarrow> bool" where
  "old_exited P \<longleftrightarrow> (\<exists>(i, f, l) \<in> set (od_out P). f)"

text \<open>
  \<open>fatal\<close> is the text of the error, \<open>deadline\<close> says whether the context has one. The steps of the
  client, its server and the network are any, only that the calls are those of the goroutines.
\<close>

inductive old_step ::
  "('m, main_value) wire \<Rightarrow> (string \<Rightarrow> string) \<Rightarrow> int \<Rightarrow> string \<Rightarrow> bool \<Rightarrow> ('m, int) old_prog \<Rightarrow> ('m, int) old_prog \<Rightarrow> bool"
  for W errorf timeout fatal deadline where
  moves: "\<not> old_exited P \<Longrightarrow> sys_step W errorf timeout (od_sys P) S \<Longrightarrow>
     (\<And>i x. cl_calls (s_client (od_sys P)) i = None \<Longrightarrow> cl_calls (s_client S) i = Some x \<Longrightarrow>
        i < 5 \<and> x = new_call ''Foo.Sum'') \<Longrightarrow>
     old_step W errorf timeout fatal deadline P (P\<lparr>od_sys := S\<rparr>)"
| returns: "\<not> old_exited P \<Longrightarrow> i \<notin> fst ` set (od_out P) \<Longrightarrow>
     cl_calls (s_client (od_sys P)) i = Some x \<Longrightarrow> c_pc x = P_Sent \<Longrightarrow>
     ctx_err = None \<or> deadline \<and> ctx_err = Some deadline_exceeded \<Longrightarrow>
     Call_returns ctx_err i (s_client (od_sys P)) (err, c) \<Longrightarrow>
     old_step W errorf timeout fatal deadline P
       (P\<lparr>od_sys := (od_sys P)\<lparr>s_client := c\<rparr>, od_out := od_out P @ [old_says fatal i err (c_Reply x)]\<rparr>)"

definition callOld ::
  "('m, main_value) wire \<Rightarrow> (string \<Rightarrow> string) \<Rightarrow> int \<Rightarrow> ('m, int) old_prog \<Rightarrow> ('m, int) old_prog \<Rightarrow> bool" where
  "callOld W errorf timeout = old_step W errorf timeout call_error_old False"

definition mainOld ::
  "('m, main_value) wire \<Rightarrow> (string \<Rightarrow> string) \<Rightarrow> int \<Rightarrow> ('m, int) old_prog \<Rightarrow> ('m, int) old_prog \<Rightarrow> bool" where
  "mainOld W errorf timeout = old_step W errorf timeout call_error_main True"

section \<open>The calls\<close>

definition old_call :: "nat \<Rightarrow> main_value rpc_call \<Rightarrow> bool" where
  "old_call i x \<longleftrightarrow> i < 5 \<and> c_ServiceMethod x = ''Foo.Sum'' \<and> (c_Done x = 0 \<or> c_Error x \<noteq> None \<or> c_Reply x \<noteq> None)"

definition old_calls :: "main_value client \<Rightarrow> bool" where
  "old_calls c \<longleftrightarrow> (\<forall>i x. cl_calls c i = Some x \<longrightarrow> old_call i x)"

lemma old_call_upd:
  "old_call i x \<Longrightarrow> old_call i (x\<lparr>c_Seq := s, c_num := n\<rparr>)" "old_call i x \<Longrightarrow> old_call i (x\<lparr>c_pc := p\<rparr>)"
  "old_call i x \<Longrightarrow> old_call i (x\<lparr>c_cancelled := b\<rparr>)" "old_call i x \<Longrightarrow> old_call i (fail_call e x)"
  "old_call i x \<Longrightarrow> old_call i ((fail_call e x)\<lparr>c_pc := p\<rparr>)" "old_call i x \<Longrightarrow> old_call i (completed_call errorf h res x)"
  by (auto simp: old_call_def fail_call_def completed_call_def split: sum.splits)

lemma upd_old: "old_calls c \<Longrightarrow> (\<And>x. old_call i x \<Longrightarrow> old_call i (f x)) \<Longrightarrow> old_calls (upd_call i f c)"
  by (auto simp: old_calls_def upd_call_def split: if_splits)

lemma same_calls: "cl_calls c' = cl_calls c \<Longrightarrow> old_calls c' = old_calls c"
  by (simp add: old_calls_def)

lemma registerCall_old: "old_calls c \<Longrightarrow> registerCall i c = (r, c') \<Longrightarrow> old_calls c'"
  by (auto simp: registerCall_def Let_def old_calls_def upd_call_def old_call_upd split: if_splits)

lemma terminate_old: "old_calls c \<Longrightarrow> old_calls (terminateCalls e order c)"
proof -
  have "old_calls (fold (\<lambda>s d. case cl_pend d s of None \<Rightarrow> d | Some i \<Rightarrow> upd_call i (fail_call e) d) order d)"
    if "old_calls d" for d
    using that by (induction order arbitrary: d) (auto split: option.split intro!: upd_old old_call_upd(4))
  then show "old_calls c \<Longrightarrow> old_calls (terminateCalls e order c)"
    by (simp add: terminateCalls_def same_calls [of "c\<lparr>cl_shutdown := True\<rparr>" c])
qed

lemma cancel_old: "old_calls c \<Longrightarrow> old_calls (Call_cancel i c)"
  by (auto simp: Call_cancel_def removeCall_def Let_def intro!: upd_old old_call_upd(3) simp: same_calls [of "c\<lparr>cl_pend := _\<rparr>" c])

lemma step_old:
  assumes "cl_step errorf c c'" and "old_calls c"
    and "\<And>i x. cl_calls c i = None \<Longrightarrow> cl_calls c' i = Some x \<Longrightarrow> i < 5 \<and> x = new_call ''Foo.Sum''"
  shows "old_calls c'"
  using assms(1)
proof cases
  case (go i sm)
  with assms(2) assms(3) [of i] show ?thesis by (auto simp: old_calls_def old_call_def new_call_def)
next
  case (send i x)
  obtain r c1 where R: "registerCall i c = (r, c1)" by fastforce
  from registerCall_old [OF assms(2) R] R send(1) show ?thesis
    by (auto simp: Send_start_def split: sum.splits intro!: upd_old old_call_upd simp: same_calls [of "c1\<lparr>cl_send := _\<rparr>" c1])
next
  case (written i)
  with assms(2) show ?thesis
    by (auto simp: Send_written_def intro!: upd_old old_call_upd simp: same_calls [of "c\<lparr>cl_send := _\<rparr>" c])
next
  case (failed i e)
  let ?c1 = "c\<lparr>cl_pend := (cl_pend c)(c_Seq (the (cl_calls c i)) := None)\<rparr>"
  have "old_calls ?c1" using assms(2) by (simp add: same_calls [of ?c1 c])
  then have "old_calls (case r of None \<Rightarrow> ?c1 | Some j \<Rightarrow> upd_call j (fail_call e) ?c1)" for r
    by (auto split: option.split intro!: upd_old old_call_upd)
  then show ?thesis
    unfolding failed(1) Send_failed_def removeCall_def Let_def prod.case
    by (intro upd_old old_call_upd) (simp_all add: same_calls [of "_\<lparr>cl_send := None\<rparr>"])
next
  case (body h r res)
  with assms(2) show ?thesis
    by (auto simp: old_calls_def receive_body_calls old_call_upd(6) split: if_splits)
next
  case (terminate e order)
  with terminate_old [OF assms(2)] show ?thesis by (simp add: same_calls [of "_\<lparr>cl_recv := _\<rparr>"])
next
  case (cancel i x)
  with cancel_old [OF assms(2)] show ?thesis by simp
next
  case close
  with assms(2) show ?thesis by (auto simp: Client_Close_def old_calls_def split: if_splits)
qed (use assms(2) in \<open>auto simp: receive_header_def removeCall_def old_calls_def\<close>)

text \<open>The calls that have a number: five at most, so the numbers do not run out.\<close>

definition numbered :: "'v client \<Rightarrow> nat set" where
  "numbered c = {i. \<exists>x. cl_calls c i = Some x \<and> c_num x \<noteq> None}"

lemma numbered_upd: "(\<And>x. c_num (f x) = c_num x) \<Longrightarrow> numbered (upd_call i f c) = numbered c"
  by (auto simp: numbered_def upd_call_def)

lemma numbered_other [simp]:
  "numbered (c\<lparr>cl_send := s\<rparr>) = numbered c" "numbered (c\<lparr>cl_pend := p\<rparr>) = numbered c"
  "numbered (c\<lparr>cl_recv := r\<rparr>) = numbered c" "numbered (c\<lparr>cl_shutdown := b\<rparr>) = numbered c"
  "numbered (c\<lparr>cl_closing := b\<rparr>) = numbered c"
  by (simp_all add: numbered_def)

lemma numbered_fail: "c_num (fail_call e x) = c_num x"
  by (simp add: fail_call_def)

lemma numbered_terminate:
  fixes c :: "'v client"
  shows "numbered (terminateCalls e order c) = numbered c"
proof -
  have "numbered (fold (\<lambda>s d. case cl_pend d s of None \<Rightarrow> d | Some i \<Rightarrow> upd_call i (fail_call e) d) order d) = numbered d"
    for d :: "'v client"
    by (induction order arbitrary: d) (auto split: option.split simp: numbered_upd numbered_fail)
  then show ?thesis by (simp add: terminateCalls_def)
qed

lemma step_numbered:
  assumes "cl_step errorf c c'" and "\<not> (\<exists>i x. cl_calls c i = Some x \<and> c_pc x = P_New \<and> c' = Send_start i c)"
  shows "cl_count c' = cl_count c \<and> numbered c' = numbered c"
  using assms(1)
proof cases
  case (go i sm)
  then show ?thesis by (auto simp: numbered_def new_call_def)
next
  case (body h r res)
  then show ?thesis
    by (auto simp: numbered_def receive_body_calls completed_call_id)
      (auto simp: receive_body_def Let_def upd_call_def split: option.split sum.split)
next
  case (failed i e)
  then show ?thesis
    by (auto simp: Send_failed_def removeCall_def Let_def numbered_upd numbered_fail split: option.split)
qed (use assms(2) in \<open>auto simp: Send_written_def removeCall_def receive_header_def numbered_terminate terminate_count
    Call_cancel_def Client_Close_def numbered_upd\<close>)

definition few_calls :: "main_value client \<Rightarrow> bool" where
  "few_calls c \<longleftrightarrow> old_calls c \<and> cl_count c \<le> card (numbered c)"

lemma few_calls_count:
  assumes "few_calls c"
  shows "cl_count c \<le> 5" and "finite (numbered c)"
proof -
  have sub: "numbered c \<subseteq> {..<5}" using assms by (auto simp: few_calls_def old_calls_def old_call_def numbered_def)
  then show "finite (numbered c)" by (rule finite_subset) simp
  from card_mono [OF _ sub] assms show "cl_count c \<le> 5" by (simp add: few_calls_def)
qed

lemma send_numbered:
  assumes "cl_inv c" and "cl_calls c i = Some x" and "c_pc x = P_New" and "finite (numbered c)"
    and "cl_count c \<le> card (numbered c)"
  shows "cl_count (Send_start i c) \<le> card (numbered (Send_start i c))"
proof (cases "cl_closing c \<or> cl_shutdown c")
  case True
  then have "numbered (Send_start i c) = numbered c" "cl_count (Send_start i c) = cl_count c"
    by (auto simp: Send_start_def registerCall_def numbered_upd fail_call_def)
  with assms(5) show ?thesis by simp
next
  case False
  have "i \<notin> numbered c" using cl_invD(3) [OF assms(1,2)] assms(2,3) by (simp add: call_ok_def numbered_def)
  moreover have "numbered (Send_start i c) = insert i (numbered c)"
    using False assms(2) by (auto simp: Send_start_def registerCall_def Let_def numbered_def upd_call_def)
  moreover have "cl_count (Send_start i c) = Suc (cl_count c)"
    using False by (simp add: Send_start_def registerCall_def Let_def)
  ultimately show ?thesis using assms(4,5) by simp
qed

lemma step_few:
  assumes "cl_step errorf c c'" and "few_calls c" and "cl_reach errorf c"
    and "\<And>i x. cl_calls c i = None \<Longrightarrow> cl_calls c' i = Some x \<Longrightarrow> i < 5 \<and> x = new_call ''Foo.Sum''"
  shows "few_calls c'"
proof -
  note five = few_calls_count [OF assms(2)]
  have inv: "cl_inv c" using cl_reach_inv [OF assms(3)] five(1) by simp
  have "old_calls c'" by (rule step_old [OF assms(1) _ assms(4)]) (use assms(2) in \<open>simp_all add: few_calls_def\<close>)
  moreover have "cl_count c' \<le> card (numbered c')"
  proof (cases "\<exists>i x. cl_calls c i = Some x \<and> c_pc x = P_New \<and> c' = Send_start i c")
    case True
    with send_numbered [OF inv _ _ five(2)] assms(2) show ?thesis by (auto simp: few_calls_def)
  next
    case False
    with step_numbered [OF assms(1)] assms(2) show ?thesis by (simp add: few_calls_def)
  qed
  ultimately show ?thesis by (simp add: few_calls_def)
qed

section \<open>What is printed\<close>

definition right_old_line :: "string \<Rightarrow> nat \<times> bool \<times> string \<Rightarrow> bool" where
  "right_old_line fatal = (\<lambda>(i, f, l). i < 5 \<and>
     (if f then \<exists>e. l = fatal @ e else l = sum_line i (word_of_nat i + word_of_nat i * word_of_nat i)))"

definition old_inv ::
  "('m, main_value) wire \<Rightarrow> (string \<Rightarrow> string) \<Rightarrow> int \<Rightarrow> string \<Rightarrow> string \<Rightarrow> int \<Rightarrow> ('m, int) old_prog \<Rightarrow> bool" where
  "old_inv W errorf timeout fatal addr now P \<longleftrightarrow>
     (sys_step W errorf timeout)\<^sup>*\<^sup>* (od_sys (old_start addr now)) (od_sys P) \<and> few_calls (s_client (od_sys P)) \<and>
     distinct (map fst (od_out P)) \<and> (\<forall>q \<in> set (od_out P). right_old_line fatal q) \<and>
     (\<forall>k < length (od_out P). fst (snd (od_out P ! k)) \<longrightarrow> Suc k = length (od_out P))"

lemma old_start_inv: "old_inv W errorf timeout fatal addr now (old_start addr now)"
  by (simp add: old_inv_def old_start_def sys_start_def NewClientCodec_def few_calls_def old_calls_def)

lemma old_says_fst: "fst (old_says fatal i err r) = i"
  by (simp add: old_says_def split: option.split)

lemma old_step_inv:
  assumes "wire_ok W" and "gob_values W" and "old_step W errorf timeout fatal deadline P P'"
    and "old_inv W errorf timeout fatal addr now P"
  shows "old_inv W errorf timeout fatal addr now P'"
  using assms(3)
proof cases
  case (moves S)
  let ?c = "s_client (od_sys P)"
  have reach: "(sys_step W errorf timeout)\<^sup>*\<^sup>* (sys_start (fst (startServer addr)) old_args now) (od_sys P)"
    using assms(4) by (simp add: old_inv_def old_start_def)
  have few: "few_calls ?c" using assms(4) by (simp add: old_inv_def)
  have "few_calls (s_client S)"
    using sys_client_step [OF moves(3)] step_few [OF _ few sys_client_reach [OF reach] moves(4)] few by metis
  with assms(4) moves(1,3) show ?thesis by (auto simp: old_inv_def intro: reach_step)
next
  case (returns i x ctx_err err c)
  let ?S = "od_sys P"
  have reach: "(sys_step W errorf timeout)\<^sup>*\<^sup>* (sys_start (fst (startServer addr)) old_args now) ?S"
    and few: "few_calls (s_client ?S)" using assms(4) by (simp_all add: old_inv_def old_start_def)
  have count: "cl_count (s_client ?S) < 2 ^ 64" using few_calls_count(1) [OF few] by simp
  have x: "old_call i x" using few returns(4) by (auto simp: few_calls_def old_calls_def)
  have quiet: "\<not> fst (snd q)" if "q \<in> set (od_out P)" for q
    using returns(2) that by (auto simp: old_exited_def)
  have moved: "(sys_step W errorf timeout)\<^sup>*\<^sup>* (od_sys (old_start addr now)) (?S\<lparr>s_client := c\<rparr>) \<and> few_calls c"
    and line: "right_old_line fatal (old_says fatal i err (c_Reply x))"
    using returns(7)
  proof (atomize(full), cases)
    case (cancelled e)
    have st: "sys_step W errorf timeout ?S (?S\<lparr>s_client := c\<rparr>)"
      using sys_step.cancel [OF returns(4,5), of W errorf timeout] cancelled by simp
    have calls: "cl_calls (s_client ?S) j = None \<Longrightarrow> cl_calls c j = Some y \<Longrightarrow> False" for j y
      using cancelled by (auto simp: Call_cancel_def removeCall_def upd_call_def split: if_splits)
    have "few_calls c"
      using sys_client_step [OF st] step_few [OF _ few sys_client_reach [OF reach], of c] few calls by auto
    moreover have "right_old_line fatal (old_says fatal i err (c_Reply x))"
      using x cancelled by (simp add: right_old_line_def old_says_def old_call_def)
    ultimately show "((sys_step W errorf timeout)\<^sup>*\<^sup>* (od_sys (old_start addr now)) (?S\<lparr>s_client := c\<rparr>) \<and> few_calls c) \<and>
        right_old_line fatal (old_says fatal i err (c_Reply x))"
      using reach_step [OF reach, of "?S\<lparr>s_client := c\<rparr>"] st by (simp add: old_start_def)
  next
    case (completed y)
    then have y: "y = x" "c = s_client ?S" "err = c_Error x" using returns(4) by auto
    have "right_old_line fatal (old_says fatal i err (c_Reply x))"
    proof (cases err)
      case None
      then obtain v where v: "c_Reply x = Some v" using x completed(4) y by (auto simp: old_call_def)
      have "c_ServiceMethod x \<in> {''Foo.Sum'', ''Foo.Sleep''}" using x by (simp add: old_call_def)
      from Sum_reply [OF assms(1,2) reach [unfolded old_args_def [abs_def]] count returns(4) this v]
      show ?thesis using None x v by (simp add: right_old_line_def old_says_def old_call_def)
    next
      case (Some e)
      with x show ?thesis by (simp add: right_old_line_def old_says_def old_call_def)
    qed
    with reach few y show "((sys_step W errorf timeout)\<^sup>*\<^sup>* (od_sys (old_start addr now)) (?S\<lparr>s_client := c\<rparr>) \<and> few_calls c) \<and>
        right_old_line fatal (old_says fatal i err (c_Reply x))"
      by (simp add: old_start_def)
  qed
  have last: "fst (snd ((od_out P @ [q]) ! k)) \<longrightarrow> Suc k = length (od_out P @ [q])"
    if "k < length (od_out P @ [q])" for k q
    using that quiet by (cases "k < length (od_out P)") (auto simp: nth_append)
  let ?q = "old_says fatal i err (c_Reply x)"
  have "distinct (map fst (od_out P @ [?q]))"
    using assms(4) returns(3) by (simp add: old_inv_def old_says_fst)
  moreover have "\<forall>q \<in> set (od_out P @ [?q]). right_old_line fatal q"
    using assms(4) line by (simp add: old_inv_def)
  ultimately show ?thesis unfolding returns(1) old_inv_def using moved last by simp
qed

interpretation old: machine "\<lambda>P. P = old_start addr now"
  "\<lambda>P P'. wire_ok W \<and> gob_values W \<and> old_step W errorf timeout fatal deadline P P'"
  "old_inv W errorf timeout fatal addr now" for addr now W errorf timeout fatal deadline
  by unfold_locales (auto intro: old_start_inv old_step_inv)

text \<open>A run of the system with one call is a run of the program.\<close>

lemma alone_run:
  assumes "(step_alone W ''Foo.Sum'')\<^sup>*\<^sup>* S S'"
  shows "(old_step W id 0 fatal deadline)\<^sup>*\<^sup>* \<lparr>od_sys = S, od_out = []\<rparr> \<lparr>od_sys = S', od_out = []\<rparr>"
  using assms
proof (induction rule: rtranclp_induct)
  case (step T T')
  have "old_step W id 0 fatal deadline \<lparr>od_sys = T, od_out = []\<rparr> (\<lparr>od_sys = T, od_out = []\<rparr>\<lparr>od_sys := T'\<rparr>)"
  proof (rule old_step.moves)
    fix i x
    assume "cl_calls (s_client (od_sys \<lparr>od_sys = T, od_out = []\<rparr>)) i = None" "cl_calls (s_client T') i = Some x"
    with step(2) have "i = 0 \<and> x = new_call ''Foo.Sum''" unfolding step_alone_def only_call_def by simp
    then show "i < 5 \<and> x = new_call ''Foo.Sum''" by simp
  qed (use step(2) in \<open>auto simp: old_exited_def step_alone_def\<close>)
  then have "old_step W id 0 fatal deadline \<lparr>od_sys = T, od_out = []\<rparr> \<lparr>od_sys = T', od_out = []\<rparr>" by simp
  with step(3) show ?case by (rule reach_step)
qed simp

definition right_old_output :: "string \<Rightarrow> (nat \<times> bool \<times> string) list \<Rightarrow> bool" where
  "right_old_output fatal out \<longleftrightarrow> distinct (map fst out) \<and> (\<forall>q \<in> set out. right_old_line fatal q) \<and>
     (\<forall>k < length out. fst (snd (out ! k)) \<longrightarrow> Suc k = length out)"

lemma old_output:
  assumes "wire_ok W" and "gob_values W"
    and "(old_step W errorf timeout fatal deadline)\<^sup>*\<^sup>* (old_start addr now) P"
  shows "right_old_output fatal (od_out P)"
proof -
  have "old_inv W errorf timeout fatal addr now P"
    by (rule old.inv_reached) (use assms in simp_all)
  then show ?thesis by (simp add: old_inv_def right_old_output_def)
qed

section \<open>Properties\<close>

text \<open>
  What \<open>mainOld\<close> and \<open>callOld\<close> print: each of the five goroutines one line at most, the sum of its own
  arguments or the error of its call, and nothing after an error.
\<close>

theorem mainOld_lines_right:
  assumes "wire_ok W" and "gob_values W"
  shows "((mainOld W errorf timeout)\<^sup>*\<^sup>* (old_start addr now) P \<longrightarrow> right_old_output call_error_main (od_out P)) \<and>
    ((callOld W errorf timeout)\<^sup>*\<^sup>* (old_start addr now) P \<longrightarrow> right_old_output call_error_old (od_out P))"
  using old_output [OF assms] by (simp add: mainOld_def callOld_def)

theorem mainOld_lines_right_witness:
  "\<exists>P. (mainOld main_wire id 0)\<^sup>*\<^sup>* (old_start ''[::]:1234'' 0) P \<and>
     od_out P = [(0, False, ''0 + 0 = 0'')] \<and> right_old_line call_error_main (0, False, ''0 + 0 = 0'')"
proof -
  let ?srv = "fst (startServer ''[::]:1234'')" and ?h = "demo_header ''Foo.Sum'' 1"
  let ?rq = "\<lparr>rq_h = ?h, rq_argv = Args 0 0, rq_replyv = Reply 0, rq_service = ''Foo'', rq_method = ''Sum''\<rparr>"
  have rd: "readRequest (wire_cc main_wire) ?srv [enc_header main_wire ?h, enc_args main_wire (old_args 0)] =
      (Ret (Good_request ?rq), [])"
    by (simp add: readRequest_def main_wire_def main_codec_def old_args_def)
      (simp add: demo_header_def Foo_find newArgv_def newReplyv_def type_Kind_def type_Elem_def Args_type_def)
  have "\<exists>now'. fst (server_call ?srv ?rq 0) = (Ret (None, Reply (0 + 0)), now')" by (rule Foo_call) simp_all
  then obtain now' srv' where "server_call ?srv ?rq 0 = ((Ret (None, Reply 0), now'), srv')"
    by (cases "server_call ?srv ?rq 0") auto
  from call_can_succeed_alone [where args = old_args, OF main_wire_ok(1) refl rd _ this, of "Reply 0"]
  obtain S x where r: "(step_alone main_wire ''Foo.Sum'')\<^sup>*\<^sup>* (sys_start ?srv old_args 0) S"
    "cl_calls (s_client S) 0 = Some x" "c_pc x = P_Sent" "c_Done x = 1" "c_Error x = None" "c_Reply x = Some (Reply 0)"
    by (auto simp: main_wire_def)
  let ?P = "\<lparr>od_sys = S, od_out = []\<rparr>"
  let ?Q = "?P\<lparr>od_sys := S\<lparr>s_client := s_client S\<rparr>, od_out := [old_says call_error_main 0 None (c_Reply x)]\<rparr>"
  have "(old_step main_wire id 0 call_error_main True)\<^sup>*\<^sup>* (old_start ''[::]:1234'' 0) ?P"
    using alone_run [OF r(1)] by (simp add: old_start_def)
  moreover have "Call_returns None 0 (s_client S) (None, s_client S)"
    using Call_returns.completed [OF r(2), of None] r(4,5) by simp
  then have "old_step main_wire id 0 call_error_main True ?P ?Q"
    using old_step.returns [of ?P 0 x None True "None" "s_client S" main_wire id 0 call_error_main] r(2,3)
    by (simp add: old_exited_def)
  ultimately have run: "(old_step main_wire id 0 call_error_main True)\<^sup>*\<^sup>* (old_start ''[::]:1234'' 0) ?Q"
    by (rule reach_step)
  have out: "od_out ?Q = [(0, False, ''0 + 0 = 0'')]"
    by (simp add: old_says_def r(6) sum_line_def) code_simp
  note run = run [folded mainOld_def]
  have "right_old_output call_error_main (od_out ?Q)"
    using mainOld_lines_right [OF main_wire_ok, of id 0 "''[::]:1234''" 0 ?Q] run by blast
  then have "right_old_line call_error_main (0, False, ''0 + 0 = 0'')"
    unfolding out right_old_output_def by (simp only: list.set ball_simps)
  with run out show ?thesis by (intro exI [of _ ?Q]) blast
qed

end
