(* ===== verification/Rpc_Demo.thy ===== *)
theory Rpc_Demo
  imports Rpc_Service Go_Strings Machine
begin

text \<open>
  MyRPC/demo/main/main.go, the exercises of the RPC framework. Its \<open>main\<close> starts goroutines that
  watch something until they are told to stop, over a channel or by the cancelling of a context:
  a timed machine, in which time passes freely and a sleep ends no earlier than asked for.
  \<open>timeAfter\<close> is the pattern of a result with a time limit that the server and the client use;
  \<open>mainI\<close> lists the methods of a type by reflection.

  Times are whole numbers of nanoseconds; texts are the bytes of their UTF-8.
\<close>

section \<open>Texts\<close>

definition utf8 :: "nat list \<Rightarrow> string" where
  "utf8 bs = map char_of bs"

definition text_watching :: string where
  "text_watching = ''goroutine'' @ utf8 [0xe7, 0x9b, 0x91, 0xe6, 0x8e, 0xa7, 0xe4, 0xb8, 0xad] @ ''...''"

definition text_exit :: string where
  "text_exit = utf8 [0xe7, 0x9b, 0x91, 0xe6, 0x8e, 0xa7, 0xe9, 0x80, 0x80, 0xe5, 0x87, 0xba, 0xef, 0xbc, 0x8c,
     0xe5, 0x81, 0x9c, 0xe6, 0xad, 0xa2, 0xe4, 0xba, 0x86] @ ''...''"

definition text_notify :: string where
  "text_notify = utf8 [0xe5, 0x8f, 0xaf, 0xe4, 0xbb, 0xa5, 0xe4, 0xba, 0x86, 0xef, 0xbc, 0x8c, 0xe9, 0x80, 0x9a,
     0xe7, 0x9f, 0xa5, 0xe7, 0x9b, 0x91, 0xe6, 0x8e, 0xa7, 0xe5, 0x81, 0x9c, 0xe6, 0xad, 0xa2]"

definition monitor_name :: "string \<Rightarrow> string" where
  "monitor_name d = utf8 [0xe3, 0x80, 0x90, 0xe7, 0x9b, 0x91, 0xe6, 0x8e, 0xa7] @ d @ utf8 [0xe3, 0x80, 0x91]"

definition Second :: int where
  "Second = 1000000000"

section \<open>Contexts\<close>

text \<open>A context is a chain that ends in the background; a cancellation is known by its number.\<close>

datatype go_context = Background | WithCancel nat go_context | WithValue string string go_context

fun ctx_Value :: "go_context \<Rightarrow> string \<Rightarrow> string option" where
  "ctx_Value Background k = None"
| "ctx_Value (WithCancel i c) k = ctx_Value c k"
| "ctx_Value (WithValue k' v c) k = (if k' = k then Some v else ctx_Value c k)"

fun ctx_Done :: "nat list \<Rightarrow> go_context \<Rightarrow> bool" where
  "ctx_Done cancelled Background \<longleftrightarrow> False"
| "ctx_Done cancelled (WithCancel i c) \<longleftrightarrow> i \<in> set cancelled \<or> ctx_Done cancelled c"
| "ctx_Done cancelled (WithValue k v c) \<longleftrightarrow> ctx_Done cancelled c"

section \<open>Monitors and the program that starts them\<close>

datatype watched = On_stop | On_ctx go_context

datatype mon_pc = At_select | Chosen | Printed | Napping int | Told | Mon_returned

record monitor =
  mo_on :: watched
  mo_label :: "string option"
  mo_since :: int
  mo_pc :: mon_pc

text \<open>What \<open>main\<close> does, one statement after the other.\<close>

datatype stmt = Spawn watched "string option" | Nap int | Say string | Send_stop | Cancel nat

definition watch :: "go_context \<Rightarrow> string \<Rightarrow> stmt" where
  "watch ctx name = Spawn (On_ctx ctx) (Some name)"

definition demo_key :: string where
  "demo_key = ''name''"

definition watchValue :: "go_context \<Rightarrow> stmt" where
  "watchValue ctx =
     Spawn (On_ctx ctx) (Some (case ctx_Value ctx demo_key of Some v \<Rightarrow> v | None \<Rightarrow> ''<nil>''))"

definition demo_main :: "stmt list" where
  "demo_main =
     [Spawn On_stop None, Nap (10 * Second), Say text_notify, Send_stop, Nap (5 * Second)] @
     [Spawn (On_ctx (WithCancel 0 Background)) None, Nap (10 * Second), Say text_notify, Cancel 0, Nap (5 * Second)] @
     [watch (WithCancel 1 Background) (monitor_name ''1''), watch (WithCancel 1 Background) (monitor_name ''2''),
      watch (WithCancel 1 Background) (monitor_name ''3''),
      Nap (10 * Second), Say text_notify, Cancel 1, Nap (5 * Second)] @
     [watchValue (WithValue demo_key (monitor_name ''1'') (WithCancel 2 Background)),
      Nap (10 * Second), Say text_notify, Cancel 2, Nap (5 * Second)]"

text \<open>
  The statements left, until when \<open>main\<close> sleeps, whether it is blocked in \<open>stop <- true\<close>, the
  clock, the goroutines, the contexts cancelled, and every line with its time and its printer.
\<close>

record demo =
  de_code :: "stmt list"
  de_nap :: "int option"
  de_offer :: bool
  de_now :: int
  de_mons :: "monitor list"
  de_cancelled :: "nat list"
  de_out :: "(int \<times> nat option \<times> string) list"

definition demo_start :: "stmt list \<Rightarrow> demo" where
  "demo_start code = \<lparr>de_code = code, de_nap = None, de_offer = False, de_now = 0, de_mons = [],
     de_cancelled = [], de_out = []\<rparr>"

text \<open>The process lives as long as \<open>main\<close> does.\<close>

definition demo_running :: "demo \<Rightarrow> bool" where
  "demo_running D \<longleftrightarrow> de_code D \<noteq> [] \<or> de_nap D \<noteq> None"

definition told :: "demo \<Rightarrow> monitor \<Rightarrow> bool" where
  "told D m = (case mo_on m of On_stop \<Rightarrow> de_offer D | On_ctx c \<Rightarrow> ctx_Done (de_cancelled D) c)"

text \<open>\<open>fmt.Println(name, text)\<close> puts a space between its operands.\<close>

definition mon_line :: "monitor \<Rightarrow> string \<Rightarrow> string" where
  "mon_line m s = (case mo_label m of None \<Rightarrow> s | Some n \<Rightarrow> n @ '' '' @ s)"

definition mon_goes :: "nat \<Rightarrow> mon_pc \<Rightarrow> demo \<Rightarrow> demo" where
  "mon_goes k p D = D\<lparr>de_mons := (de_mons D)[k := (de_mons D ! k)\<lparr>mo_pc := p\<rparr>]\<rparr>"

definition demo_says :: "nat option \<Rightarrow> string \<Rightarrow> demo \<Rightarrow> demo" where
  "demo_says i s D = D\<lparr>de_out := de_out D @ [(de_now D, i, s)]\<rparr>"

text \<open>A statement of \<open>main\<close> that does not wait for anybody.\<close>

fun main_does :: "stmt \<Rightarrow> demo \<Rightarrow> demo" where
  "main_does (Spawn w l) D =
     D\<lparr>de_mons := de_mons D @ [\<lparr>mo_on = w, mo_label = l, mo_since = de_now D, mo_pc = At_select\<rparr>]\<rparr>"
| "main_does (Nap d) D = D\<lparr>de_nap := Some (de_now D + d)\<rparr>"
| "main_does (Say s) D = demo_says None s D"
| "main_does (Cancel i) D = D\<lparr>de_cancelled := i # de_cancelled D\<rparr>"
| "main_does Send_stop D = D"

inductive demo_step :: "demo \<Rightarrow> demo \<Rightarrow> bool" where
  tick: "demo_running D \<Longrightarrow> de_now D \<le> t \<Longrightarrow> demo_step D (D\<lparr>de_now := t\<rparr>)"
| main: "de_code D = s # c \<Longrightarrow> de_nap D = None \<Longrightarrow> s \<noteq> Send_stop \<Longrightarrow>
     demo_step D (main_does s (D\<lparr>de_code := c\<rparr>))"
| main_wakes: "de_nap D = Some t \<Longrightarrow> t \<le> de_now D \<Longrightarrow> demo_step D (D\<lparr>de_nap := None\<rparr>)"
| main_offers: "de_code D = Send_stop # c \<Longrightarrow> de_nap D = None \<Longrightarrow> demo_step D (D\<lparr>de_offer := True\<rparr>)"
| received: "de_offer D \<Longrightarrow> k < length (de_mons D) \<Longrightarrow> mo_on (de_mons D ! k) = On_stop \<Longrightarrow>
     mo_pc (de_mons D ! k) = At_select \<Longrightarrow>
     demo_step D (mon_goes k Told (D\<lparr>de_offer := False, de_code := tl (de_code D)\<rparr>))"
| done_seen: "demo_running D \<Longrightarrow> k < length (de_mons D) \<Longrightarrow> mo_on (de_mons D ! k) = On_ctx c \<Longrightarrow>
     mo_pc (de_mons D ! k) = At_select \<Longrightarrow> told D (de_mons D ! k) \<Longrightarrow> demo_step D (mon_goes k Told D)"
| default: "demo_running D \<Longrightarrow> k < length (de_mons D) \<Longrightarrow> mo_pc (de_mons D ! k) = At_select \<Longrightarrow>
     \<not> told D (de_mons D ! k) \<Longrightarrow> demo_step D (mon_goes k Chosen D)"
| watching: "demo_running D \<Longrightarrow> k < length (de_mons D) \<Longrightarrow> mo_pc (de_mons D ! k) = Chosen \<Longrightarrow>
     demo_step D (demo_says (Some k) (mon_line (de_mons D ! k) text_watching) (mon_goes k Printed D))"
| naps: "demo_running D \<Longrightarrow> k < length (de_mons D) \<Longrightarrow> mo_pc (de_mons D ! k) = Printed \<Longrightarrow>
     demo_step D (mon_goes k (Napping (de_now D + 2 * Second)) D)"
| wakes: "demo_running D \<Longrightarrow> k < length (de_mons D) \<Longrightarrow> mo_pc (de_mons D ! k) = Napping t \<Longrightarrow>
     t \<le> de_now D \<Longrightarrow> demo_step D (mon_goes k At_select D)"
| exits: "demo_running D \<Longrightarrow> k < length (de_mons D) \<Longrightarrow> mo_pc (de_mons D ! k) = Told \<Longrightarrow>
     demo_step D (demo_says (Some k) (mon_line (de_mons D ! k) text_exit) (mon_goes k Mon_returned D))"

abbreviation demo_steps :: "demo \<Rightarrow> demo \<Rightarrow> bool" where
  "demo_steps \<equiv> demo_step\<^sup>*\<^sup>*"

text \<open>The lines a goroutine has printed.\<close>

definition texts_of :: "nat \<Rightarrow> demo \<Rightarrow> string list" where
  "texts_of k D = map (snd \<circ> snd) (filter (\<lambda>e. fst (snd e) = Some k) (de_out D))"

section \<open>What a monitor prints, and how often\<close>

lemma texts_watching_exit: "mon_line m text_watching \<noteq> mon_line m text_exit"
  by (cases "mo_label m")
    (simp_all add: mon_line_def text_watching_def text_exit_def utf8_def char_of_def)

lemma texts_of_demo_says:
  "texts_of k (demo_says i s D) = texts_of k D @ (if i = Some k then [s] else [])"
  by (simp add: texts_of_def demo_says_def)

lemma texts_of_mon_goes [simp]: "texts_of j (mon_goes k p D) = texts_of j D"
  by (simp add: texts_of_def mon_goes_def)

lemma texts_of_upd [simp]:
  "texts_of k (D\<lparr>de_code := c\<rparr>) = texts_of k D" "texts_of k (D\<lparr>de_now := t\<rparr>) = texts_of k D"
  "texts_of k (D\<lparr>de_nap := n\<rparr>) = texts_of k D" "texts_of k (D\<lparr>de_offer := b\<rparr>) = texts_of k D"
  "texts_of k (D\<lparr>de_mons := ms\<rparr>) = texts_of k D" "texts_of k (D\<lparr>de_cancelled := cs\<rparr>) = texts_of k D"
  by (simp_all add: texts_of_def)

lemma demo_says_sel [simp]:
  "de_mons (demo_says i s D) = de_mons D" "de_now (demo_says i s D) = de_now D" "de_code (demo_says i s D) = de_code D"
  "de_nap (demo_says i s D) = de_nap D" "de_offer (demo_says i s D) = de_offer D"
  "de_cancelled (demo_says i s D) = de_cancelled D"
  by (simp_all add: demo_says_def)

lemma mon_goes_sel [simp]:
  "de_now (mon_goes k p D) = de_now D" "de_code (mon_goes k p D) = de_code D" "de_nap (mon_goes k p D) = de_nap D"
  "de_offer (mon_goes k p D) = de_offer D" "de_cancelled (mon_goes k p D) = de_cancelled D"
  "length (de_mons (mon_goes k p D)) = length (de_mons D)" "de_out (mon_goes k p D) = de_out D"
  by (simp_all add: mon_goes_def)

lemma mon_goes_mons:
  "de_mons (mon_goes k p D) = (de_mons D)[k := (de_mons D ! k)\<lparr>mo_pc := p\<rparr>]"
  by (simp add: mon_goes_def)

lemma mon_line_pc [simp]: "mon_line (m\<lparr>mo_pc := p\<rparr>) s = mon_line m s"
  by (simp add: mon_line_def)

text \<open>Every line of watching costs its monitor two seconds of sleep.\<close>

definition mon_due :: "int \<Rightarrow> mon_pc \<Rightarrow> int" where
  "mon_due now p = (case p of Napping t \<Rightarrow> t | Printed \<Rightarrow> now + 2 * Second | _ \<Rightarrow> now)"

definition mon_ok :: "demo \<Rightarrow> nat \<Rightarrow> monitor \<Rightarrow> bool" where
  "mon_ok D k m \<longleftrightarrow> mo_since m \<le> de_now D \<and>
     (\<exists>n. texts_of k D = replicate n (mon_line m text_watching) @
            (if mo_pc m = Mon_returned then [mon_line m text_exit] else []) \<and>
          2 * Second * int n \<le> mon_due (de_now D) (mo_pc m) - mo_since m \<and>
          mon_due (de_now D) (mo_pc m) \<le> de_now D + 2 * Second)"

definition demo_lines_ok :: "demo \<Rightarrow> bool" where
  "demo_lines_ok D \<longleftrightarrow>
     (\<forall>k < length (de_mons D). mon_ok D k (de_mons D ! k)) \<and> (\<forall>k \<ge> length (de_mons D). texts_of k D = [])"

lemma mon_due_later: "now \<le> now' \<Longrightarrow> mon_due now p \<le> mon_due now' p"
  by (simp add: mon_due_def split: mon_pc.split)

lemma mon_due_ahead: "now \<le> now' \<Longrightarrow> mon_due now p \<le> now + 2 * Second \<Longrightarrow> mon_due now' p \<le> now' + 2 * Second"
  by (auto simp: mon_due_def Second_def split: mon_pc.splits)

text \<open>A monitor that does nothing stays as it should be, and so do the ones that are not concerned.\<close>

lemma mon_ok_later:
  assumes "mon_ok D k m" and "de_now D \<le> de_now E" and "texts_of k E = texts_of k D"
  shows "mon_ok E k m"
proof -
  from assms(1) obtain n where "mo_since m \<le> de_now D"
    "texts_of k D = replicate n (mon_line m text_watching) @
       (if mo_pc m = Mon_returned then [mon_line m text_exit] else [])"
    "2 * Second * int n \<le> mon_due (de_now D) (mo_pc m) - mo_since m"
    "mon_due (de_now D) (mo_pc m) \<le> de_now D + 2 * Second"
    by (auto simp: mon_ok_def)
  with mon_due_later [OF assms(2), of "mo_pc m"] mon_due_ahead [OF assms(2), of "mo_pc m"] assms(2,3)
  show ?thesis unfolding mon_ok_def by (intro conjI exI [of _ n]) auto
qed

lemma demo_lines_ok_later:
  assumes "demo_lines_ok D" and "de_now D \<le> de_now E" and "de_mons E = de_mons D"
    and "\<And>k. texts_of k E = texts_of k D"
  shows "demo_lines_ok E"
  using assms by (auto simp: demo_lines_ok_def intro: mon_ok_later)

lemma demo_lines_ok_one:
  assumes "demo_lines_ok D" and "k < length (de_mons D)"
    and "de_mons E = (de_mons D)[k := m]" and "de_now E = de_now D"
    and "\<And>j. j \<noteq> k \<Longrightarrow> texts_of j E = texts_of j D" and "mon_ok E k m"
  shows "demo_lines_ok E"
  unfolding demo_lines_ok_def
proof (intro conjI allI impI)
  fix j
  show "mon_ok E j (de_mons E ! j)" if "j < length (de_mons E)"
    using assms that by (cases "j = k") (auto simp: demo_lines_ok_def intro: mon_ok_later)
  show "texts_of j E = []" if "length (de_mons E) \<le> j"
    using assms that by (auto simp: demo_lines_ok_def)
qed

lemma mon_moves_ok:
  assumes "mon_ok D k m" and "mo_pc m \<noteq> Mon_returned" and "p \<noteq> Mon_returned"
    and "mon_due (de_now D) (mo_pc m) \<le> mon_due (de_now D) p" and "mon_due (de_now D) p \<le> de_now D + 2 * Second"
  shows "mon_ok (mon_goes k p D) k (m\<lparr>mo_pc := p\<rparr>)"
  using assms by (fastforce simp: mon_ok_def)

lemma replicate_snoc: "replicate n x @ [x] = replicate (Suc n) x"
  by (simp add: replicate_append_same)

lemma watching_ok:
  assumes "mon_ok D k m" and "mo_pc m = Chosen"
  shows "mon_ok (demo_says (Some k) (mon_line m text_watching) (mon_goes k Printed D)) k (m\<lparr>mo_pc := Printed\<rparr>)"
proof -
  from assms obtain n where "mo_since m \<le> de_now D" "texts_of k D = replicate n (mon_line m text_watching)"
    "2 * Second * int n \<le> de_now D - mo_since m"
    by (auto simp: mon_ok_def mon_due_def)
  then show ?thesis unfolding mon_ok_def
    by (intro conjI exI [of _ "Suc n"]) (auto simp: texts_of_demo_says replicate_append_same mon_due_def algebra_simps)
qed

lemma exits_ok:
  assumes "mon_ok D k m" and "mo_pc m = Told"
  shows "mon_ok (demo_says (Some k) (mon_line m text_exit) (mon_goes k Mon_returned D)) k (m\<lparr>mo_pc := Mon_returned\<rparr>)"
  using assms by (fastforce simp: mon_ok_def texts_of_demo_says mon_due_def Second_def)

lemma demo_lines_step:
  assumes "demo_step D E" and "demo_lines_ok D"
  shows "demo_lines_ok E"
  using assms(1)
proof cases
  case (main s c)
  show ?thesis
  proof (cases s)
    case (Spawn w l)
    let ?m = "\<lparr>mo_on = w, mo_label = l, mo_since = de_now D, mo_pc = At_select\<rparr>"
    have "mon_ok E (length (de_mons D)) ?m"
      using assms(2) main Spawn by (auto simp: demo_lines_ok_def mon_ok_def mon_due_def Second_def)
    with assms(2) main Spawn show ?thesis
      by (auto simp: demo_lines_ok_def nth_append less_Suc_eq intro: mon_ok_later)
  qed (use assms(2) main in \<open>auto intro!: demo_lines_ok_later [OF assms(2)] simp: texts_of_demo_says\<close>)
next
  case (received k)
  have "demo_lines_ok (mon_goes k Told D)"
    by (rule demo_lines_ok_one [OF assms(2) received(3)])
      (use assms(2) received in \<open>auto simp: mon_goes_mons demo_lines_ok_def Second_def mon_due_def intro!: mon_moves_ok\<close>)
  then show ?thesis
    by (rule demo_lines_ok_later) (simp_all add: received mon_goes_mons)
next
  case (watching k)
  then show ?thesis
    by (intro demo_lines_ok_one [OF assms(2) watching(3)])
      (use assms(2) in \<open>auto simp: mon_goes_mons texts_of_demo_says demo_lines_ok_def intro: watching_ok\<close>)
next
  case (exits k)
  then show ?thesis
    by (intro demo_lines_ok_one [OF assms(2) exits(3)])
      (use assms(2) in \<open>auto simp: mon_goes_mons texts_of_demo_says demo_lines_ok_def intro: exits_ok\<close>)
next
  case (done_seen k c)
  show ?thesis unfolding done_seen(1)
    by (rule demo_lines_ok_one [OF assms(2) done_seen(3)])
      (use assms(2) done_seen in \<open>auto simp: mon_goes_mons demo_lines_ok_def Second_def mon_due_def intro!: mon_moves_ok\<close>)
next
  case (default k)
  show ?thesis unfolding default(1)
    by (rule demo_lines_ok_one [OF assms(2) default(3)])
      (use assms(2) default in \<open>auto simp: mon_goes_mons demo_lines_ok_def Second_def mon_due_def intro!: mon_moves_ok\<close>)
next
  case (naps k)
  show ?thesis unfolding naps(1)
    by (rule demo_lines_ok_one [OF assms(2) naps(3)])
      (use assms(2) naps in \<open>auto simp: mon_goes_mons demo_lines_ok_def Second_def mon_due_def intro!: mon_moves_ok\<close>)
next
  case (wakes k t)
  show ?thesis unfolding wakes(1)
    by (rule demo_lines_ok_one [OF assms(2) wakes(3)])
      (use assms(2) wakes in \<open>auto simp: mon_goes_mons demo_lines_ok_def Second_def mon_due_def intro!: mon_moves_ok\<close>)
qed (use assms(2) in \<open>auto intro!: demo_lines_ok_later [OF assms(2)]\<close>)

interpretation demo: machine "\<lambda>D. D = demo_start code" demo_step demo_lines_ok for code
proof
  show "demo_lines_ok D" if "D = demo_start code" for D
    using that by (simp add: demo_lines_ok_def demo_start_def texts_of_def)
qed (rule demo_lines_step)


section \<open>After the cancelling\<close>

text \<open>
  The choice of \<open>select\<close> and the line that follows are two steps, so a monitor that has just
  chosen prints once more; after that it can only leave.
\<close>

definition watch_credit :: "nat \<Rightarrow> demo \<Rightarrow> nat" where
  "watch_credit k D = length (filter (\<lambda>s. s = mon_line (de_mons D ! k) text_watching) (texts_of k D)) +
     (if mo_pc (de_mons D ! k) = Chosen then 1 else 0)"

definition cancelled_mon :: "nat \<Rightarrow> demo \<Rightarrow> bool" where
  "cancelled_mon k D \<longleftrightarrow> k < length (de_mons D) \<and>
     (\<exists>c. mo_on (de_mons D ! k) = On_ctx c \<and> ctx_Done (de_cancelled D) c)"

lemma ctx_Done_more: "ctx_Done cs c \<Longrightarrow> ctx_Done (i # cs) c"
  by (induction c) auto

lemma mon_goes_nth:
  "j < length (de_mons D) \<Longrightarrow> de_mons (mon_goes k p D) ! j =
     (if j = k then (de_mons D ! k)\<lparr>mo_pc := p\<rparr> else de_mons D ! j)"
  by (simp add: mon_goes_mons nth_list_update)

lemma credit_step:
  assumes "demo_step D E" and "cancelled_mon k D"
  shows "cancelled_mon k E \<and> watch_credit k E \<le> watch_credit k D \<and>
    mo_label (de_mons E ! k) = mo_label (de_mons D ! k)"
  using assms(1)
proof cases
  case (main s c)
  with assms(2) show ?thesis
    by (cases s) (auto simp: cancelled_mon_def watch_credit_def texts_of_demo_says nth_append intro: ctx_Done_more)
qed (use assms(2) in \<open>auto simp: cancelled_mon_def watch_credit_def texts_of_demo_says mon_goes_nth told_def
       texts_watching_exit [symmetric]\<close>)

lemma credit_steps:
  assumes "demo_steps D E" and "cancelled_mon k D"
  shows "cancelled_mon k E \<and> watch_credit k E \<le> watch_credit k D \<and>
    mo_label (de_mons E ! k) = mo_label (de_mons D ! k)"
  using assms(1)
proof (induction rule: rtranclp_induct)
  case (step E F)
  with credit_step [OF step.hyps(2)] show ?case by fastforce
qed (simp add: assms(2))

definition busy_count :: "nat \<Rightarrow> demo \<Rightarrow> nat" where
  "busy_count k D = length (filter (\<lambda>s. s = mon_line (de_mons D ! k) text_watching) (texts_of k D))"

text \<open>
  Once the context of a monitor is cancelled it prints at most one more line of watching, in
  however many steps.
\<close>

theorem cancelled_monitor_is_quiet:
  assumes "demo_steps D E" and "cancelled_mon k D"
  shows "busy_count k E \<le> busy_count k D + 1"
  using credit_steps [OF assms] by (auto simp: busy_count_def watch_credit_def split: if_splits)

section \<open>The program can always go on to its end\<close>

text \<open>
  A send on the unbuffered channel needs a receiver: as many monitors must be listening as there
  are sends. Any number of them may have been started before.
\<close>

fun sends_ok :: "stmt list \<Rightarrow> nat \<Rightarrow> bool" where
  "sends_ok [] n \<longleftrightarrow> True"
| "sends_ok (Spawn w l # c) n \<longleftrightarrow> sends_ok c (if w = On_stop then Suc n else n)"
| "sends_ok (Send_stop # c) n \<longleftrightarrow> (case n of 0 \<Rightarrow> False | Suc m \<Rightarrow> sends_ok c m)"
| "sends_ok (s # c) n \<longleftrightarrow> sends_ok c n"

definition listening :: "monitor \<Rightarrow> bool" where
  "listening m \<longleftrightarrow> mo_on m = On_stop \<and> mo_pc m \<noteq> Told \<and> mo_pc m \<noteq> Mon_returned"

definition demo_sends :: "demo \<Rightarrow> bool" where
  "demo_sends D \<longleftrightarrow> sends_ok (de_code D) (length (filter listening (de_mons D))) \<and>
     (de_offer D \<longrightarrow> de_nap D = None \<and> (\<exists>c. de_code D = Send_stop # c))"

lemma length_filter_update:
  "k < length xs \<Longrightarrow> length (filter P (xs[k := y])) + (if P (xs ! k) then 1 else 0) =
     length (filter P xs) + (if P y then 1 else 0)"
proof (induction xs arbitrary: k)
  case (Cons x xs)
  show ?case
  proof (cases k)
    case (Suc j)
    with Cons.prems Cons.IH [of j] show ?thesis by auto
  qed auto
qed simp

lemma listening_same:
  assumes "k < length (de_mons D)" and "listening ((de_mons D ! k)\<lparr>mo_pc := p\<rparr>) = listening (de_mons D ! k)"
  shows "length (filter listening (de_mons (mon_goes k p D))) = length (filter listening (de_mons D))"
  using length_filter_update [OF assms(1), of listening "(de_mons D ! k)\<lparr>mo_pc := p\<rparr>"] assms(2)
  by (simp add: mon_goes_mons split: if_splits)

lemma demo_sends_goes:
  assumes "demo_sends D" and "k < length (de_mons D)"
    and "listening ((de_mons D ! k)\<lparr>mo_pc := p\<rparr>) = listening (de_mons D ! k)"
  shows "demo_sends (mon_goes k p D)"
  using assms(1) by (simp add: demo_sends_def listening_same [OF assms(2,3)])

lemma demo_sends_demo_says: "demo_sends (demo_says i s D) = demo_sends D"
  by (simp add: demo_sends_def)

lemma demo_sends_step:
  assumes "demo_step D E" and "demo_sends D"
  shows "demo_sends E"
  using assms(1)
proof cases
  case (main s c)
  with assms(2) show ?thesis by (cases s) (auto simp: demo_sends_def listening_def split: if_splits)
next
  case (received k)
  from assms(2) received(2) obtain c where c: "de_code D = Send_stop # c" by (auto simp: demo_sends_def)
  have "length (filter listening (de_mons D)) = Suc (length (filter listening (de_mons (mon_goes k Told D))))"
    using length_filter_update [OF received(3), of listening "(de_mons D ! k)\<lparr>mo_pc := Told\<rparr>"] received
    by (simp add: mon_goes_mons listening_def)
  with assms(2) c received(1) show ?thesis by (simp add: demo_sends_def mon_goes_mons)
next
  case (done_seen k c)
  show ?thesis unfolding done_seen(1)
    by (rule demo_sends_goes [OF assms(2) done_seen(3)]) (simp add: listening_def done_seen(4))
next
  case (default k)
  show ?thesis unfolding default(1)
    by (rule demo_sends_goes [OF assms(2) default(3)]) (simp add: listening_def default(4))
next
  case (watching k)
  show ?thesis unfolding watching(1) demo_sends_demo_says
    by (rule demo_sends_goes [OF assms(2) watching(3)]) (simp add: listening_def watching(4))
next
  case (naps k)
  show ?thesis unfolding naps(1)
    by (rule demo_sends_goes [OF assms(2) naps(3)]) (simp add: listening_def naps(4))
next
  case (wakes k t)
  show ?thesis unfolding wakes(1)
    by (rule demo_sends_goes [OF assms(2) wakes(3)]) (simp add: listening_def wakes(4))
next
  case (exits k)
  show ?thesis unfolding exits(1) demo_sends_demo_says
    by (rule demo_sends_goes [OF assms(2) exits(3)]) (simp add: listening_def exits(4))
qed (use assms(2) in \<open>auto simp: demo_sends_def\<close>)

interpretation demo_run: machine "\<lambda>D. \<exists>code. D = demo_start code \<and> sends_ok code 0" demo_step demo_sends
proof
  show "demo_sends D" if "\<exists>code. D = demo_start code \<and> sends_ok code 0" for D
    using that by (auto simp: demo_sends_def demo_start_def)
qed (rule demo_sends_step)

text \<open>A monitor that listens comes back to its \<open>select\<close>, whatever it is at, and \<open>main\<close> stays where it is.\<close>

definition at_select :: "nat \<Rightarrow> demo \<Rightarrow> demo \<Rightarrow> bool" where
  "at_select k D E \<longleftrightarrow> demo_steps D E \<and> k < length (de_mons E) \<and> mo_on (de_mons E ! k) = On_stop \<and>
     mo_pc (de_mons E ! k) = At_select \<and> de_code E = de_code D \<and> de_nap E = de_nap D \<and> de_offer E = de_offer D"

lemma at_select_step:
  assumes "demo_step D D'" and "at_select k D' E"
    and "de_code D' = de_code D" and "de_nap D' = de_nap D" and "de_offer D' = de_offer D"
  shows "at_select k D E"
  using assms by (auto simp: at_select_def intro: converse_rtranclp_into_rtranclp)

lemma running_upd [simp]:
  "demo_running (mon_goes k p D) = demo_running D" "demo_running (demo_says i s D) = demo_running D"
  "demo_running (D\<lparr>de_now := t\<rparr>) = demo_running D"
  by (simp_all add: demo_running_def)

lemma napping_at_select:
  assumes "demo_running D" and k: "k < length (de_mons D)" and "mo_on (de_mons D ! k) = On_stop"
    and "mo_pc (de_mons D ! k) = Napping t"
  shows "\<exists>E. at_select k D E"
proof -
  let ?T = "D\<lparr>de_now := max t (de_now D)\<rparr>"
  have "demo_step ?T (mon_goes k At_select ?T)" by (rule demo_step.wakes [where t = t]) (use assms in simp_all)
  then have "at_select k ?T (mon_goes k At_select ?T)"
    using assms by (auto simp: at_select_def mon_goes_mons)
  with demo_step.tick [OF assms(1), of "max t (de_now D)"] have "at_select k D (mon_goes k At_select ?T)"
    by (auto intro: at_select_step)
  then show ?thesis ..
qed

lemma printed_at_select:
  assumes "demo_running D" and k: "k < length (de_mons D)" and "mo_on (de_mons D ! k) = On_stop"
    and "mo_pc (de_mons D ! k) = Printed"
  shows "\<exists>E. at_select k D E"
proof -
  let ?N = "mon_goes k (Napping (de_now D + 2 * Second)) D"
  obtain E where "at_select k ?N E"
    using napping_at_select [of ?N k] assms by (auto simp: mon_goes_mons)
  from at_select_step [OF demo_step.naps [OF assms(1,2,4)] this] show ?thesis by auto
qed

lemma listening_at_select:
  assumes "demo_running D" and "k < length (de_mons D)" and "listening (de_mons D ! k)"
  shows "\<exists>E. at_select k D E"
proof (cases "mo_pc (de_mons D ! k)")
  case At_select
  with assms show ?thesis by (auto simp: at_select_def listening_def)
next
  case Chosen
  let ?P = "demo_says (Some k) (mon_line (de_mons D ! k) text_watching) (mon_goes k Printed D)"
  obtain E where "at_select k ?P E"
    using printed_at_select [of ?P k] assms by (auto simp: mon_goes_mons listening_def)
  from at_select_step [OF demo_step.watching [OF assms(1,2) Chosen] this] show ?thesis by auto
next
  case Printed
  with assms show ?thesis by (auto simp: listening_def intro: printed_at_select)
next
  case (Napping t)
  with assms show ?thesis by (auto simp: listening_def intro: napping_at_select)
qed (use assms in \<open>simp_all add: listening_def\<close>)

text \<open>So \<open>main\<close> gets past its next statement, or past its sleep.\<close>

definition main_left :: "demo \<Rightarrow> nat" where
  "main_left D = 2 * length (de_code D) + (if de_nap D = None then 0 else 1)"

lemma offered_received:
  assumes "demo_sends D" and "de_offer D"
  shows "\<exists>E. demo_steps D E \<and> main_left E < main_left D"
proof -
  from assms obtain c where c: "de_code D = Send_stop # c" and nap: "de_nap D = None" by (auto simp: demo_sends_def)
  with assms(1) have "filter listening (de_mons D) \<noteq> []" by (auto simp: demo_sends_def)
  then obtain k where "k < length (de_mons D)" "listening (de_mons D ! k)"
    by (metis filter_False in_set_conv_nth)
  with c obtain E where E: "at_select k D E" using listening_at_select [of D k] by (auto simp: demo_running_def)
  have "demo_step E (mon_goes k Told (E\<lparr>de_offer := False, de_code := tl (de_code E)\<rparr>))"
    by (rule demo_step.received) (use E assms(2) in \<open>auto simp: at_select_def\<close>)
  with E c nap show ?thesis unfolding at_select_def main_left_def
    by (intro exI [of _ "mon_goes k Told (E\<lparr>de_offer := False, de_code := tl (de_code E)\<rparr>)"])
      (auto intro: reach_step)
qed

lemma main_gets_on:
  assumes "demo_sends D" and "demo_running D"
  shows "\<exists>E. demo_steps D E \<and> main_left E < main_left D"
proof (cases "de_nap D")
  case (Some t)
  let ?T = "D\<lparr>de_now := max t (de_now D)\<rparr>"
  have "demo_step D ?T" by (rule demo_step.tick) (use assms(2) in simp_all)
  moreover have "demo_step ?T (?T\<lparr>de_nap := None\<rparr>)" by (rule demo_step.main_wakes [where t = t]) (use Some in simp_all)
  ultimately have "demo_steps D (?T\<lparr>de_nap := None\<rparr>)" by (meson reach_refl reach_step)
  with Some show ?thesis by (intro exI [of _ "?T\<lparr>de_nap := None\<rparr>"]) (simp add: main_left_def)
next
  case None
  with assms(2) obtain s c where code: "de_code D = s # c" by (auto simp: demo_running_def neq_Nil_conv)
  show ?thesis
  proof (cases "s = Send_stop")
    case True
    have "demo_step D (D\<lparr>de_offer := True\<rparr>)"
      by (rule demo_step.main_offers [OF _ None]) (use code True in simp)
    moreover from demo_sends_step [OF this assms(1)]
    obtain E where "demo_steps (D\<lparr>de_offer := True\<rparr>) E" "main_left E < main_left (D\<lparr>de_offer := True\<rparr>)"
      using offered_received by fastforce
    ultimately show ?thesis by (auto simp: main_left_def intro: converse_rtranclp_into_rtranclp)
  next
    case False
    have "main_left (main_does s (D\<lparr>de_code := c\<rparr>)) < main_left D"
      using code None by (cases s) (auto simp: main_left_def)
    with demo_step.main [OF code None False] show ?thesis by blast
  qed
qed

text \<open>
  No statement of the program blocks for good: from every state it can go on until it ends. That
  depends on the monitors; with a send too many the program would stay in it.
\<close>

theorem demo_can_end:
  assumes "sends_ok code 0" and "demo_steps (demo_start code) D"
  shows "\<exists>E. demo_steps D E \<and> \<not> demo_running E"
proof -
  have "demo_sends D" using demo_run.inv_reached [OF assms(2)] assms(1) by blast
  then show ?thesis
  proof (induction "main_left D" arbitrary: D rule: less_induct)
    case less
    show ?case
    proof (cases "demo_running D")
      case True
      with main_gets_on [OF less.prems] obtain E where E: "demo_steps D E" "main_left E < main_left D" by blast
      from less.hyps [OF E(2) demo_run.inv_steps [OF E(1) less.prems]] E(1) show ?thesis
        by (meson rtranclp_trans)
    qed blast
  qed
qed

lemma demo_main_sends: "sends_ok demo_main 0"
  by (simp add: demo_main_def watch_def watchValue_def)

section \<open>A value with a time limit\<close>

datatype ta_line = Stamp string int | Text string

datatype ta_pc = Ta_enters | Ta_started | Ta_first int | Ta_fired | Ta_stamped | Ta_spawned | Ta_select int | Ta_done

datatype ta_go = No_goroutine | Go_starts | Go_sleeps int | Go_sends | Go_over

record time_after =
  ta_pc :: ta_pc
  ta_go :: ta_go
  ta_now :: int
  ta_out :: "ta_line list"

definition time_after_start :: "int \<Rightarrow> time_after" where
  "time_after_start now = \<lparr>ta_pc = Ta_enters, ta_go = No_goroutine, ta_now = now, ta_out = []\<rparr>"

definition ta_goes :: "ta_pc \<Rightarrow> ta_line list \<Rightarrow> time_after \<Rightarrow> time_after" where
  "ta_goes p ls A = A\<lparr>ta_pc := p, ta_out := ta_out A @ ls\<rparr>"

definition received_line :: string where
  "received_line = ''recv value form ch1: put value into ch1''"

definition timeout_line :: string where
  "timeout_line = ''3 seconds over, time over''"

text \<open>The value of a timer is the time when it fired, which may be before it is received.\<close>

inductive timeAfter_step :: "time_after \<Rightarrow> time_after \<Rightarrow> bool" where
  ta_tick: "ta_now A \<le> t \<Longrightarrow> timeAfter_step A (A\<lparr>ta_now := t\<rparr>)"
| ta_enters: "ta_pc A = Ta_enters \<Longrightarrow> timeAfter_step A (ta_goes Ta_started [Stamp ''StartTime:'' (ta_now A)] A)"
| ta_timer: "ta_pc A = Ta_started \<Longrightarrow> timeAfter_step A (ta_goes (Ta_first (ta_now A + 5 * Second)) [] A)"
| ta_fires: "ta_pc A = Ta_first t \<Longrightarrow> t \<le> v \<Longrightarrow> v \<le> ta_now A \<Longrightarrow>
     timeAfter_step A (ta_goes Ta_fired [Stamp '''' v] A)"
| ta_ends: "ta_pc A = Ta_fired \<Longrightarrow> timeAfter_step A (ta_goes Ta_stamped [Stamp ''EndTime:'' (ta_now A)] A)"
| ta_spawns: "ta_pc A = Ta_stamped \<Longrightarrow> timeAfter_step A (ta_goes Ta_spawned [] (A\<lparr>ta_go := Go_starts\<rparr>))"
| ta_selects: "ta_pc A = Ta_spawned \<Longrightarrow> timeAfter_step A (ta_goes (Ta_select (ta_now A + 3 * Second)) [] A)"
| go_naps: "ta_go A = Go_starts \<Longrightarrow> timeAfter_step A (A\<lparr>ta_go := Go_sleeps (ta_now A + 2 * Second)\<rparr>)"
| go_wakes: "ta_go A = Go_sleeps t \<Longrightarrow> t \<le> ta_now A \<Longrightarrow> timeAfter_step A (A\<lparr>ta_go := Go_sends\<rparr>)"
| ta_value: "ta_pc A = Ta_select t \<Longrightarrow> ta_go A = Go_sends \<Longrightarrow>
     timeAfter_step A (ta_goes Ta_done [Text received_line] (A\<lparr>ta_go := Go_over\<rparr>))"
| ta_timeout: "ta_pc A = Ta_select t \<Longrightarrow> t \<le> ta_now A \<Longrightarrow>
     timeAfter_step A (ta_goes Ta_done [Text timeout_line] A)"

text \<open>What has been printed at each point, and where the goroutine is.\<close>

definition go_after :: "int \<Rightarrow> time_after \<Rightarrow> bool" where
  "go_after e A \<longleftrightarrow> e \<le> ta_now A \<and>
     (case ta_go A of Go_starts \<Rightarrow> True | Go_sleeps t \<Rightarrow> e + 2 * Second \<le> t | Go_sends \<Rightarrow> e + 2 * Second \<le> ta_now A | _ \<Rightarrow> False)"

definition ta_stamps :: "int \<Rightarrow> int \<Rightarrow> int \<Rightarrow> ta_line list" where
  "ta_stamps s f e = [Stamp ''StartTime:'' s, Stamp '''' f, Stamp ''EndTime:'' e]"

definition ta_inv :: "time_after \<Rightarrow> bool" where
  "ta_inv A \<longleftrightarrow>
     (case ta_pc A of
        Ta_enters \<Rightarrow> ta_out A = [] \<and> ta_go A = No_goroutine
      | Ta_started \<Rightarrow> \<exists>s. ta_out A = [Stamp ''StartTime:'' s] \<and> s \<le> ta_now A \<and> ta_go A = No_goroutine
      | Ta_first t \<Rightarrow> \<exists>s. ta_out A = [Stamp ''StartTime:'' s] \<and> s + 5 * Second \<le> t \<and> ta_go A = No_goroutine
      | Ta_fired \<Rightarrow> \<exists>s f. ta_out A = [Stamp ''StartTime:'' s, Stamp '''' f] \<and> s + 5 * Second \<le> f \<and> f \<le> ta_now A \<and>
          ta_go A = No_goroutine
      | Ta_stamped \<Rightarrow> \<exists>s f e. ta_out A = ta_stamps s f e \<and> s + 5 * Second \<le> f \<and> f \<le> e \<and> e \<le> ta_now A \<and>
          ta_go A = No_goroutine
      | Ta_spawned \<Rightarrow> \<exists>s f e. ta_out A = ta_stamps s f e \<and> s + 5 * Second \<le> f \<and> f \<le> e \<and> go_after e A
      | Ta_select t \<Rightarrow> \<exists>s f e. ta_out A = ta_stamps s f e \<and> s + 5 * Second \<le> f \<and> f \<le> e \<and> e + 3 * Second \<le> t \<and> go_after e A
      | Ta_done \<Rightarrow> \<exists>s f e. s + 5 * Second \<le> f \<and> f \<le> e \<and>
          (ta_out A = ta_stamps s f e @ [Text received_line] \<and> e + 2 * Second \<le> ta_now A \<and> ta_go A = Go_over \<or>
           ta_out A = ta_stamps s f e @ [Text timeout_line] \<and> e + 3 * Second \<le> ta_now A \<and> go_after e A))"

text \<open>Time and the goroutine move without changing what is printed.\<close>

lemma ta_stamps_eq [simp]: "ta_stamps s f e = ta_stamps s' f' e' \<longleftrightarrow> s = s' \<and> f = f' \<and> e = e'"
  by (simp add: ta_stamps_def)

lemma ta_goes_sel [simp]:
  "ta_pc (ta_goes p ls A) = p" "ta_go (ta_goes p ls A) = ta_go A" "ta_now (ta_goes p ls A) = ta_now A"
  "ta_out (ta_goes p ls A) = ta_out A @ ls" "go_after e (ta_goes p ls A) = go_after e A"
  by (simp_all add: ta_goes_def go_after_def split: ta_go.split)

lemma go_after_later: "go_after e A \<Longrightarrow> ta_now A \<le> t \<Longrightarrow> go_after e (A\<lparr>ta_now := t\<rparr>)"
  by (auto simp: go_after_def split: ta_go.splits)

lemma go_after_moves:
  "go_after e A \<Longrightarrow> ta_go A = Go_starts \<Longrightarrow> go_after e (A\<lparr>ta_go := Go_sleeps (ta_now A + 2 * Second)\<rparr>)"
  "go_after e A \<Longrightarrow> ta_go A = Go_sleeps t \<Longrightarrow> t \<le> ta_now A \<Longrightarrow> go_after e (A\<lparr>ta_go := Go_sends\<rparr>)"
  by (auto simp: go_after_def)

lemma ta_inv_go:
  assumes "ta_inv A" and "\<And>e. go_after e A \<Longrightarrow> go_after e B" and "ta_go A \<noteq> No_goroutine" "ta_go A \<noteq> Go_over"
    and "ta_pc B = ta_pc A" "ta_out B = ta_out A" "ta_now B = ta_now A"
  shows "ta_inv B"
proof (cases "ta_pc A")
  case Ta_done
  with assms show ?thesis unfolding ta_inv_def by simp blast
qed (use assms in \<open>simp_all add: ta_inv_def, blast+\<close>)

lemma ta_inv_step:
  assumes "timeAfter_step A B" and "ta_inv A"
  shows "ta_inv B"
  using assms(1)
proof cases
  case (ta_tick t)
  show ?thesis
  proof (cases "ta_pc A")
    case Ta_done
    with assms(2) ta_tick show ?thesis by (fastforce simp: ta_inv_def intro: go_after_later)
  qed (use assms(2) ta_tick in \<open>auto simp: ta_inv_def dest: go_after_later\<close>)
next
  case go_naps
  with assms(2) show ?thesis by (auto intro: ta_inv_go go_after_moves)
next
  case (go_wakes t)
  with assms(2) show ?thesis by (auto intro: ta_inv_go go_after_moves)
next
  case (ta_value t)
  with assms(2) obtain s f e where "ta_out A = ta_stamps s f e" "s + 5 * Second \<le> f" "f \<le> e"
    "e + 2 * Second \<le> ta_now A"
    by (auto simp: ta_inv_def go_after_def)
  with ta_value show ?thesis by (auto simp: ta_inv_def ta_goes_def)
next
  case (ta_timeout t)
  with assms(2) obtain s f e where "ta_out A = ta_stamps s f e" "s + 5 * Second \<le> f" "f \<le> e"
    "e + 3 * Second \<le> ta_now A" "go_after e A"
    by (force simp: ta_inv_def)
  with ta_timeout show ?thesis by (auto simp: ta_inv_def)
next
  case ta_ends
  with assms(2) show ?thesis by (force simp: ta_inv_def ta_goes_def ta_stamps_def)
next
  case ta_selects
  with assms(2) obtain s f e where "ta_out A = ta_stamps s f e" "s + 5 * Second \<le> f" "f \<le> e" "go_after e A"
    by (auto simp: ta_inv_def)
  moreover from this(4) have "e \<le> ta_now A" by (simp add: go_after_def)
  ultimately show ?thesis using ta_selects by (auto simp: ta_inv_def)
next
  case (ta_fires t v)
  with assms(2) show ?thesis by (force simp: ta_inv_def ta_goes_def)
qed (use assms(2) in \<open>auto simp: ta_inv_def ta_goes_def go_after_def\<close>)

interpretation time_after: machine "\<lambda>A. \<exists>now. A = time_after_start now" timeAfter_step ta_inv
proof
  show "ta_inv A" if "\<exists>now. A = time_after_start now" for A
    using that by (auto simp: ta_inv_def time_after_start_def)
qed (rule ta_inv_step)

text \<open>
  The function prints three times that are far enough apart and then the value, or that it took
  too long; it has waited long enough for either. After the timeout nobody receives the value:
  the goroutine never ends.
\<close>

theorem timeAfter_prints:
  assumes "timeAfter_step\<^sup>*\<^sup>* (time_after_start now) A" and "ta_pc A = Ta_done"
  shows "\<exists>s f e. s + 5 * Second \<le> f \<and> f \<le> e \<and>
    (ta_out A = ta_stamps s f e @ [Text received_line] \<and> e + 2 * Second \<le> ta_now A \<and> ta_go A = Go_over \<or>
     ta_out A = ta_stamps s f e @ [Text timeout_line] \<and> e + 3 * Second \<le> ta_now A \<and> ta_go A \<noteq> Go_over)"
  using time_after.inv_reached [OF assms(1)] assms(2) by (fastforce simp: ta_inv_def go_after_def)

section \<open>Listing methods\<close>

text \<open>
  \<open>mainI\<close>: the parameters of a method expression start with the receiver. The type is an
  argument; the one the program looks at is \<open>*sync.WaitGroup\<close>.
\<close>

definition method_line :: "string \<Rightarrow> ('v, 'w) go_method \<Rightarrow> string" where
  "method_line typ m =
     ''func (w *'' @ typ @ '') '' @ meth_Name m @ ''('' @ strings_Join (map type_Name (tl (meth_In m))) (CHR '','') @ '') '' @
     strings_Join (map type_Name (meth_Out m)) (CHR '','')"

definition mainI :: "('v, 'w) go_receiver \<Rightarrow> string list" where
  "mainI rc = map (method_line (rc_type_name rc)) (rc_methods rc)"

text \<open>What the comment after \<open>mainI\<close> says it prints, with a space after each line.\<close>

definition wait_group :: "(unit, unit) go_receiver" where
  "wait_group =
     (let t = PtrTo (Defined ''WaitGroup'' ''sync'' (StructOf []));
          m = \<lambda>nm as. \<lparr>meth_Name = nm, meth_In = t # as, meth_Out = [], meth_Func = \<lambda>_ _ _ w. (Hang, w)\<rparr>
      in \<lparr>rc_type_name = ''WaitGroup'', rc_methods = [m ''Add'' [Basic ''int''], m ''Done'' [], m ''Wait'' []],
          rc_value = ()\<rparr>)"

lemma mainI_prints_comment:
  "mainI wait_group =
     [''func (w *WaitGroup) Add(int) '', ''func (w *WaitGroup) Done() '', ''func (w *WaitGroup) Wait() '']"
  by (simp add: mainI_def method_line_def wait_group_def Let_def)

section \<open>A run of the program\<close>

text \<open>The first monitor watches at once and ten seconds later it is told to stop.\<close>

definition demo_after :: "mon_pc \<Rightarrow> stmt list \<Rightarrow> int option \<Rightarrow> int \<Rightarrow> bool \<Rightarrow> (int \<times> nat option \<times> string) list \<Rightarrow> demo" where
  "demo_after p c nap now b out = \<lparr>de_code = c, de_nap = nap, de_offer = b, de_now = now,
     de_mons = [\<lparr>mo_on = On_stop, mo_label = None, mo_since = 0, mo_pc = p\<rparr>], de_cancelled = [], de_out = out\<rparr>"

lemma demo_watching_run:
  "demo_steps (demo_start demo_main) (demo_after Printed (tl demo_main) None 0 False [(0, Some 0, text_watching)])"
proof -
  let ?c = "tl demo_main"
  have c: "demo_main = Spawn On_stop None # ?c" by (simp add: demo_main_def)
  have run: "demo_running (demo_after p ?c None 0 False out)" for p out
    by (simp add: demo_after_def demo_running_def demo_main_def)
  have "demo_step (demo_start demo_main) (demo_after At_select ?c None 0 False [])"
    using demo_step.main [of "demo_start demo_main" "Spawn On_stop None" ?c] c
    by (simp add: demo_start_def demo_after_def)
  moreover have "demo_step (demo_after At_select ?c None 0 False []) (demo_after Chosen ?c None 0 False [])"
    using demo_step.default [of "demo_after At_select ?c None 0 False []" 0] run
    by (simp add: demo_after_def mon_goes_def told_def)
  moreover have "demo_step (demo_after Chosen ?c None 0 False [])
      (demo_after Printed ?c None 0 False [(0, Some 0, text_watching)])"
    using demo_step.watching [of "demo_after Chosen ?c None 0 False []" 0] run
    by (simp add: demo_after_def mon_goes_def demo_says_def mon_line_def)
  ultimately show ?thesis by (meson reach_refl reach_step)
qed


theorem demo_can_end_witness:
  "\<exists>E. demo_steps (demo_start demo_main) E \<and> \<not> demo_running E"
  by (rule demo_can_end [OF demo_main_sends reach_refl])

end
