(* ===== verification/Kit_Service.thy ===== *)
theory Kit_Service
  imports Go_Number
begin

text \<open>
  MicroService/go-kit/baseUse: a service that adds two numbers, in go-kit's layers. The service
  and its decorator that logs (service), the endpoint and its middleware (end_point), the HTTP
  transport with its decoder and encoders (transport). Log records are collected in a list,
  oldest first; a context carries the identifier of the request. go-kit's HTTP server, the
  identifiers, the clock, and the text of a JSON string and of a quoted string are parameters.
\<close>

section \<open>Log records and data\<close>

record add_request =
  add_A :: int64
  add_B :: int64

record add_ack =
  ack_Res :: int64

datatype log_value = Log_text string | Log_add add_request | Log_ack add_ack | Log_num int

record log_record =
  rec_level :: string
  rec_msg :: string
  rec_fields :: "(string \<times> log_value) list"

type_synonym log = "log_record list"

text \<open>The identifier in a context, as \<open>fmt.Sprint\<close> prints it.\<close>

type_synonym kit_context = "string option"

definition req_uuid :: "kit_context \<Rightarrow> string" where
  "req_uuid ctx = (case ctx of None \<Rightarrow> ''<nil>'' | Some u \<Rightarrow> u)"

definition log_Debug :: "kit_context \<Rightarrow> (string \<times> log_value) list \<Rightarrow> log \<Rightarrow> log" where
  "log_Debug ctx fs lg = lg @ [\<lparr>rec_level = ''debug'', rec_msg = req_uuid ctx, rec_fields = fs\<rparr>]"

text \<open>The texts of the records.\<close>

definition txt_call :: string where
  "txt_call = [CHR 0xE8, CHR 0xB0, CHR 0x83, CHR 0xE7, CHR 0x94, CHR 0xA8] @ '' ''"

definition txt_handles :: string where
  "txt_handles = ''TestAdd '' @ [CHR 0xE5, CHR 0xA4, CHR 0x84, CHR 0xE7, CHR 0x90, CHR 0x86, CHR 0xE8, CHR 0xAF, CHR
     0xB7, CHR 0xE6, CHR 0xB1, CHR 0x82]"

definition txt_result :: string where
  "txt_result = [CHR 0xE5, CHR 0xA4, CHR 0x84, CHR 0xE7, CHR 0x90, CHR 0x86, CHR 0xE8, CHR 0xBF, CHR
     0x94, CHR 0xE5, CHR 0x9B, CHR 0x9E, CHR 0xE5, CHR 0x80, CHR 0xBC]"

definition txt_handled :: string where
  "txt_handled = [CHR 0xE5, CHR 0xA4, CHR 0x84, CHR 0xE7, CHR 0x90, CHR 0x86, CHR 0xE5, CHR 0xAE, CHR
     0x8C, CHR 0xE8, CHR 0xAF, CHR 0xB7, CHR 0xE6, CHR 0xB1, CHR 0x82]"

definition txt_millis :: string where
  "txt_millis = [CHR 0xE8, CHR 0x80, CHR 0x97, CHR 0xE6, CHR 0x97, CHR 0xB6, CHR 0xE6, CHR 0xAF, CHR
     0xAB, CHR 0xE7, CHR 0xA7, CHR 0x92]"

section \<open>The service\<close>

type_synonym kit_service = "kit_context \<Rightarrow> add_request \<Rightarrow> log \<Rightarrow> add_ack \<times> log"

definition base_TestAdd :: kit_service where
  "base_TestAdd ctx inp lg =
     (let lg1 = log_Debug ctx [(txt_call @ ''service Service'', Log_text txt_handles)] lg;
          ack = \<lparr>ack_Res = add_A inp + add_B inp\<rparr>;
          lg2 = log_Debug ctx [(txt_call @ ''service Service'', Log_text txt_handles), (txt_result, Log_ack ack)] lg1
      in (ack, lg2))"

text \<open>The decorator: its deferred function logs the request and the result.\<close>

definition log_TestAdd :: "kit_service \<Rightarrow> kit_service" where
  "log_TestAdd nxt ctx inp lg =
     (let (out, lg1) = nxt ctx inp lg
      in (out, log_Debug ctx [(txt_call @ ''service logMiddlewareServer'', Log_text ''TestAdd''),
            (''req'', Log_add inp), (''res'', Log_ack out)] lg1))"

definition NewService :: kit_service where
  "NewService = log_TestAdd base_TestAdd"

section \<open>The endpoint\<close>

text \<open>A value of Go's empty interface, of the types the program puts in one.\<close>

datatype kit_any = Any_add add_request | Any_ack add_ack | Any_nil

type_synonym endpoint = "kit_context \<Rightarrow> kit_any \<Rightarrow> log \<Rightarrow> (kit_any \<times> string option) outcome \<times> log"

definition MakeAddEndPoint :: "kit_service \<Rightarrow> endpoint" where
  "MakeAddEndPoint s ctx request lg =
     (case request of
        Any_add req \<Rightarrow> let (res, lg1) = s ctx req lg in (Ret (Any_ack res, None), lg1)
      | _ \<Rightarrow> (Panic ''interface conversion: interface {} is not service.Add'', lg))"

text \<open>The middleware logs when the next endpoint has returned, or panicked; \<open>elapsed\<close> is the time.\<close>

definition LoggingMiddleware :: "int \<Rightarrow> endpoint \<Rightarrow> endpoint" where
  "LoggingMiddleware elapsed nxt ctx request lg =
     (let (r, lg1) = nxt ctx request lg
      in (r, if r = Hang then lg1
             else log_Debug ctx [(txt_call @ ''endpoint LoggingMiddleware'', Log_text txt_handled),
               (txt_millis, Log_num elapsed)] lg1))"

definition NewEndPointServer :: "int \<Rightarrow> kit_service \<Rightarrow> endpoint" where
  "NewEndPointServer elapsed s = LoggingMiddleware elapsed (MakeAddEndPoint s)"

definition EndPointServer_Add :: "endpoint \<Rightarrow> kit_context \<Rightarrow> add_request \<Rightarrow> log \<Rightarrow> add_ack outcome \<times> log" where
  "EndPointServer_Add e ctx inp lg =
     (case e ctx (Any_add inp) lg of
        (Ret (Any_ack a, err), lg1) \<Rightarrow> (Ret a, lg1)
      | (Ret (r, err), lg1) \<Rightarrow> (Panic ''interface conversion: interface {} is not service.AddAck'', lg1)
      | (Panic m, lg1) \<Rightarrow> (Panic m, lg1)
      | (Hang, lg1) \<Rightarrow> (Hang, lg1))"

section \<open>The transport\<close>

record http_writer =
  hw_status :: nat
  hw_type :: string
  hw_body :: bytes

text \<open>The text of an error of \<open>strconv.Atoi\<close>; \<open>quote\<close> is \<open>strconv.Quote\<close>.\<close>

definition atoi_error :: "(string \<Rightarrow> string) \<Rightarrow> string \<Rightarrow> num_error \<Rightarrow> string" where
  "atoi_error quote s e = ''strconv.Atoi: parsing '' @ quote s @ '': '' @
     (case e of Err_syntax \<Rightarrow> ''invalid syntax'' | Err_range \<Rightarrow> ''value out of range'')"

text \<open>\<open>form\<close> gives the value of a form field, empty if there is none.\<close>

definition decodeHTTPADDRequest ::
  "(string \<Rightarrow> string) \<Rightarrow> kit_context \<Rightarrow> (string \<Rightarrow> string) \<Rightarrow> log \<Rightarrow> (string + kit_any) \<times> log" where
  "decodeHTTPADDRequest quote ctx form lg =
     (let (a, err) = Atoi (form ''a'');
          (b, err) = Atoi (form ''b'');
          inp = \<lparr>add_A = a, add_B = b\<rparr>
      in case err of
           Some e \<Rightarrow> (Inl (atoi_error quote (form ''b'') e), lg)
         | None \<Rightarrow> (Inr (Any_add inp), log_Debug ctx [('' '' @ [CHR 0xE5, CHR 0xBC, CHR 0x80, CHR 0xE5, CHR 0xA7, CHR 0x8B, CHR 0xE8, CHR 0xA7, CHR
     0xA3, CHR 0xE6, CHR 0x9E, CHR 0x90, CHR 0xE8, CHR 0xAF, CHR 0xB7, CHR 0xE6, CHR 0xB1,
     CHR 0x82, CHR 0xE6, CHR 0x95, CHR 0xB0, CHR 0xE6, CHR 0x8D, CHR 0xAE], Log_add inp)] lg))"

text \<open>\<open>json.Encoder\<close> on the types the program encodes.\<close>

definition json_ack :: "add_ack \<Rightarrow> bytes" where
  "json_ack a = ''{\"res\":'' @ FormatInt (sint (ack_Res a)) @ ''}'' @ [CHR 0x0A]"

definition json_error :: "(string \<Rightarrow> bytes) \<Rightarrow> string \<Rightarrow> bytes" where
  "json_error json_string e = ''{\"errors\":'' @ json_string e @ ''}'' @ [CHR 0x0A]"

definition encodeHTTPGenericResponse ::
  "kit_context \<Rightarrow> kit_any \<Rightarrow> http_writer \<times> log \<Rightarrow> string option \<times> http_writer \<times> log" where
  "encodeHTTPGenericResponse ctx response = (\<lambda>(w, lg).
     let lg1 = log_Debug ctx [([CHR 0xE8, CHR 0xAF, CHR 0xB7, CHR 0xE6, CHR 0xB1, CHR 0x82, CHR 0xE7, CHR 0xBB, CHR
     0x93, CHR 0xE6, CHR 0x9D, CHR 0x9F, CHR 0xE5, CHR 0xB0, CHR 0x81, CHR 0xE8, CHR 0xA3,
     CHR 0x85, CHR 0xE8, CHR 0xBF, CHR 0x94, CHR 0xE5, CHR 0x9B, CHR 0x9E, CHR 0xE5, CHR
     0x80, CHR 0xBC],
           case response of Any_ack a \<Rightarrow> Log_ack a | Any_add r \<Rightarrow> Log_add r | Any_nil \<Rightarrow> Log_text ''nil'')] lg;
         w1 = w\<lparr>hw_type := ''application/json; charset=utf-8''\<rparr>
     in case response of
          Any_ack a \<Rightarrow> (None, w1\<lparr>hw_body := hw_body w1 @ json_ack a\<rparr>, lg1)
        | Any_add r \<Rightarrow> (None, w1\<lparr>hw_body := hw_body w1 @ ''{\"a\":'' @ FormatInt (sint (add_A r)) @ '',\"b\":'' @
            FormatInt (sint (add_B r)) @ ''}'' @ [CHR 0x0A]\<rparr>, lg1)
        | Any_nil \<Rightarrow> (None, w1\<lparr>hw_body := hw_body w1 @ ''null'' @ [CHR 0x0A]\<rparr>, lg1))"

text \<open>The two options of the server: the encoder of errors, and what comes before a request.\<close>

definition error_encoder ::
  "(string \<Rightarrow> bytes) \<Rightarrow> kit_context \<Rightarrow> string \<Rightarrow> http_writer \<times> log \<Rightarrow> http_writer \<times> log" where
  "error_encoder json_string ctx err = (\<lambda>(w, lg).
     (w\<lparr>hw_status := 200, hw_body := hw_body w @ json_error json_string err\<rparr>,
      lg @ [\<lparr>rec_level = ''warn'', rec_msg = req_uuid ctx, rec_fields = [(''error'', Log_text err)]\<rparr>]))"

definition before_request :: "string \<Rightarrow> kit_context \<Rightarrow> log \<Rightarrow> kit_context \<times> log" where
  "before_request uuid ctx lg =
     (Some uuid, lg @ [\<lparr>rec_level = ''debug'', rec_msg = [CHR 0xE7, CHR 0xBB, CHR 0x99, CHR 0xE8, CHR 0xAF, CHR 0xB7, CHR 0xE6, CHR 0xB1, CHR
     0x82, CHR 0xE6, CHR 0xB7, CHR 0xBB, CHR 0xE5, CHR 0x8A, CHR 0xA0] @ ''uuid'', rec_fields = [(''UUID'', Log_text uuid)]\<rparr>])"

text \<open>
  go-kit's HTTP server, as documented: the functions before the request, the decoder, the
  endpoint, the encoder, and the error encoder for an error of any of them.
\<close>

type_synonym kit_server =
  "(kit_context \<Rightarrow> log \<Rightarrow> kit_context \<times> log) \<Rightarrow>
   (kit_context \<Rightarrow> (string \<Rightarrow> string) \<Rightarrow> log \<Rightarrow> (string + kit_any) \<times> log) \<Rightarrow> endpoint \<Rightarrow>
   (kit_context \<Rightarrow> kit_any \<Rightarrow> http_writer \<times> log \<Rightarrow> string option \<times> http_writer \<times> log) \<Rightarrow>
   (kit_context \<Rightarrow> string \<Rightarrow> http_writer \<times> log \<Rightarrow> http_writer \<times> log) \<Rightarrow>
   (string \<Rightarrow> string) \<Rightarrow> log \<Rightarrow> (http_writer \<times> log) outcome"

definition new_writer :: http_writer where
  "new_writer = \<lparr>hw_status = 200, hw_type = '''', hw_body = ''''\<rparr>"

definition kit_documented :: "kit_server \<Rightarrow> bool" where
  "kit_documented serve \<longleftrightarrow> (\<forall>before dec e enc erre form lg. \<forall>ctx lg1. before None lg = (ctx, lg1) \<longrightarrow>
     (\<forall>err lg2. dec ctx form lg1 = (Inl err, lg2) \<longrightarrow>
        serve before dec e enc erre form lg = Ret (erre ctx err (new_writer, lg2))) \<and>
     (\<forall>req lg2 resp lg3 w lg4. dec ctx form lg1 = (Inr req, lg2) \<longrightarrow> e ctx req lg2 = (Ret (resp, None), lg3) \<longrightarrow>
        enc ctx resp (new_writer, lg3) = (None, w, lg4) \<longrightarrow> serve before dec e enc erre form lg = Ret (w, lg4)))"

lemma kit_success:
  assumes "kit_documented serve" and "before None lg = (ctx, lg1)" and "dec ctx form lg1 = (Inr req, lg2)"
    and "e ctx req lg2 = (Ret (resp, None), lg3)" and "enc ctx resp (new_writer, lg3) = (None, w, lg4)"
  shows "serve before dec e enc erre form lg = Ret (w, lg4)"
  using assms unfolding kit_documented_def by metis

lemma kit_failure:
  assumes "kit_documented serve" and "before None lg = (ctx, lg1)" and "dec ctx form lg1 = (Inl err, lg2)"
  shows "serve before dec e enc erre form lg = Ret (erre ctx err (new_writer, lg2))"
  using assms unfolding kit_documented_def by metis

text \<open>The routes: go's mux sends a path that lacks the final slash to the one that has it.\<close>

datatype 'a mux_result = Handled 'a | Redirect string | Mux_404

definition NewHttpHandler ::
  "kit_server \<Rightarrow> (string \<Rightarrow> string) \<Rightarrow> (string \<Rightarrow> bytes) \<Rightarrow> string \<Rightarrow> endpoint \<Rightarrow> string \<Rightarrow> (string \<Rightarrow> string) \<Rightarrow> log \<Rightarrow>
   (http_writer \<times> log) outcome mux_result" where
  "NewHttpHandler serve quote json_string uuid e path form lg =
     (if strings_HasPrefix path ''/sum/'' then
        Handled (serve (before_request uuid) (decodeHTTPADDRequest quote) e encodeHTTPGenericResponse
          (error_encoder json_string) form lg)
      else if path = ''/sum'' then Redirect ''/sum/''
      else Mux_404)"

section \<open>Lemmas\<close>

text \<open>Records of one request: how many, all for debugging and under its identifier.\<close>

definition traced :: "kit_context \<Rightarrow> nat \<Rightarrow> log \<Rightarrow> bool" where
  "traced ctx n recs \<longleftrightarrow> length recs = n \<and> (\<forall>r \<in> set recs. rec_level r = ''debug'' \<and> rec_msg r = req_uuid ctx)"

lemma traced_Nil [simp]: "traced ctx 0 []"
  by (simp add: traced_def)

lemma traced_append: "traced ctx m xs \<Longrightarrow> traced ctx n ys \<Longrightarrow> traced ctx (m + n) (xs @ ys)"
  by (auto simp: traced_def)

lemma log_Debug_traced: "\<exists>recs. log_Debug ctx fs lg = lg @ recs \<and> traced ctx 1 recs"
  by (simp add: log_Debug_def traced_def)

lemma service_eq:
  "\<exists>recs. NewService ctx inp lg = (\<lparr>ack_Res = add_A inp + add_B inp\<rparr>, lg @ recs) \<and> traced ctx 3 recs"
  by (simp add: NewService_def log_TestAdd_def base_TestAdd_def log_Debug_def traced_def Let_def)

lemma endpoint_eq:
  "\<exists>recs. NewEndPointServer t NewService ctx (Any_add inp) lg =
      (Ret (Any_ack \<lparr>ack_Res = add_A inp + add_B inp\<rparr>, None), lg @ recs) \<and> traced ctx 4 recs"
proof -
  obtain recs where "NewService ctx inp lg = (\<lparr>ack_Res = add_A inp + add_B inp\<rparr>, lg @ recs)" "traced ctx 3 recs"
    using service_eq by blast
  then show ?thesis
    by (simp add: NewEndPointServer_def LoggingMiddleware_def MakeAddEndPoint_def log_Debug_def traced_def)
qed

text \<open>What the handler does, by what becomes of the second number.\<close>

lemma handler_answers:
  assumes "kit_documented serve" and "snd (Atoi (form ''b'')) = None"
  shows "\<exists>w r recs. NewHttpHandler serve quote json_string uuid (NewEndPointServer t NewService) ''/sum/'' form lg =
      Handled (Ret (w, lg @ r # recs)) \<and> hw_status w = 200 \<and>
      hw_body w = json_ack \<lparr>ack_Res = fst (Atoi (form ''a'')) + fst (Atoi (form ''b''))\<rparr> \<and>
      rec_level r = ''debug'' \<and> rec_fields r = [(''UUID'', Log_text uuid)] \<and> traced (Some uuid) 6 recs"
proof -
  let ?in = "\<lparr>add_A = fst (Atoi (form ''a'')), add_B = fst (Atoi (form ''b''))\<rparr>"
  let ?e = "NewEndPointServer t NewService"
  obtain r where 1: "before_request uuid None lg = (Some uuid, lg @ [r])" "rec_level r = ''debug''"
    "rec_fields r = [(''UUID'', Log_text uuid)]" by (simp add: before_request_def)
  obtain recs1 where 2: "decodeHTTPADDRequest quote (Some uuid) form (lg @ [r]) = (Inr (Any_add ?in), (lg @ [r]) @ recs1)"
    "traced (Some uuid) 1 recs1"
    using assms(2) log_Debug_traced by (auto simp: decodeHTTPADDRequest_def case_prod_beta Let_def log_Debug_def traced_def)
  obtain recs2 where 3: "?e (Some uuid) (Any_add ?in) ((lg @ [r]) @ recs1) =
      (Ret (Any_ack \<lparr>ack_Res = fst (Atoi (form ''a'')) + fst (Atoi (form ''b''))\<rparr>, None), ((lg @ [r]) @ recs1) @ recs2)"
    "traced (Some uuid) 4 recs2"
    using endpoint_eq [of t "Some uuid" ?in "(lg @ [r]) @ recs1"] by auto
  obtain w recs3 where 4: "encodeHTTPGenericResponse (Some uuid) (Any_ack \<lparr>ack_Res = fst (Atoi (form ''a'')) +
      fst (Atoi (form ''b''))\<rparr>) (new_writer, ((lg @ [r]) @ recs1) @ recs2) =
      (None, w, (((lg @ [r]) @ recs1) @ recs2) @ recs3)" "hw_status w = 200"
    "hw_body w = json_ack \<lparr>ack_Res = fst (Atoi (form ''a'')) + fst (Atoi (form ''b''))\<rparr>" "traced (Some uuid) 1 recs3"
    by (simp add: encodeHTTPGenericResponse_def new_writer_def log_Debug_def traced_def)
  note kit_success [where before = "before_request uuid" and dec = "decodeHTTPADDRequest quote" and e = ?e and
      enc = encodeHTTPGenericResponse and erre = "error_encoder json_string", OF assms(1) 1(1) 2(1) 3(1) 4(1)]
  moreover have "traced (Some uuid) 6 (recs1 @ recs2 @ recs3)"
    using traced_append [OF 2(2) traced_append [OF 3(2) 4(4)]] by simp
  ultimately show ?thesis using 1(2,3) 4(2,3) by (simp add: NewHttpHandler_def strings_HasPrefix_def)
qed

lemma handler_refuses:
  assumes "kit_documented serve" and "snd (Atoi (form ''b'')) = Some err"
  shows "\<exists>w lg'. NewHttpHandler serve quote json_string uuid e ''/sum/'' form lg = Handled (Ret (w, lg')) \<and>
      hw_status w = 200 \<and> hw_body w = json_error json_string (atoi_error quote (form ''b'') err)"
proof -
  obtain lg1 where 1: "before_request uuid None lg = (Some uuid, lg1)" by (simp add: before_request_def)
  have 2: "decodeHTTPADDRequest quote (Some uuid) form lg1 = (Inl (atoi_error quote (form ''b'') err), lg1)"
    using assms(2) by (auto simp: decodeHTTPADDRequest_def case_prod_beta Let_def)
  note kit_failure [where before = "before_request uuid" and dec = "decodeHTTPADDRequest quote" and e = e and
      enc = encodeHTTPGenericResponse and erre = "error_encoder json_string", OF assms(1) 1 2]
  then show ?thesis by (simp add: NewHttpHandler_def strings_HasPrefix_def error_encoder_def new_writer_def)
qed

section \<open>Properties\<close>

text \<open>
  The layers around the service change nothing of its result: the endpoint with its
  middleware, over the service with its decorator, returns the sum of the two numbers, modulo
  2 to the 64, as the bare service does; around it there are exactly four log records, each
  under the identifier of the request.
\<close>

theorem layers_are_transparent:
  "fst (EndPointServer_Add (NewEndPointServer t NewService) ctx req lg) = Ret (fst (base_TestAdd ctx req lg)) \<and>
   fst (base_TestAdd ctx req lg) = \<lparr>ack_Res = add_A req + add_B req\<rparr> \<and>
   (\<exists>recs. snd (EndPointServer_Add (NewEndPointServer t NewService) ctx req lg) = lg @ recs \<and> length recs = 4 \<and>
      map rec_msg recs = replicate 4 (req_uuid ctx))"
proof -
  obtain recs where e: "NewEndPointServer t NewService ctx (Any_add req) lg =
      (Ret (Any_ack \<lparr>ack_Res = add_A req + add_B req\<rparr>, None), lg @ recs)" and r: "length recs = 4"
    "\<forall>r \<in> set recs. rec_msg r = req_uuid ctx" using endpoint_eq unfolding traced_def by blast
  have "map rec_msg recs = replicate 4 (req_uuid ctx)"
    by (rule nth_equalityI) (use r in auto)
  with e r(1) show ?thesis
    by (simp add: EndPointServer_Add_def base_TestAdd_def log_Debug_def Let_def)
qed


text \<open>
  The HTTP service adds: a request with two decimal numbers in the range of an \<open>int\<close> is
  answered with status 200 and the JSON of their sum, reduced to 64 bits; it leaves seven log
  records, the first with its identifier and the others under it.
\<close>

lemma sum_api_sum:
  assumes "kit_documented serve" and "form ''a'' = FormatInt x" and "form ''b'' = FormatInt y"
    and "- (2 ^ 63) \<le> x" and "x < 2 ^ 63" and "- (2 ^ 63) \<le> y" and "y < 2 ^ 63"
  shows "\<exists>w r recs. NewHttpHandler serve quote json_string uuid (NewEndPointServer t NewService) ''/sum/'' form lg =
      Handled (Ret (w, lg @ r # recs)) \<and> hw_status w = 200 \<and> hw_body w = json_ack \<lparr>ack_Res = word_of_int (x + y)\<rparr> \<and>
      rec_level r = ''debug'' \<and> rec_fields r = [(''UUID'', Log_text uuid)] \<and> traced (Some uuid) 6 recs"
proof -
  have A: "Atoi (form ''a'') = (word_of_int x, None)" unfolding assms(2) by (rule Atoi_FormatInt [OF assms(4,5)])
  have B: "Atoi (form ''b'') = (word_of_int y, None)" unfolding assms(3) by (rule Atoi_FormatInt [OF assms(6,7)])
  have "snd (Atoi (form ''b'')) = None" by (simp only: B snd_conv)
  from handler_answers [where form = form, OF assms(1) this] show ?thesis unfolding A B fst_conv wi_hom_add by blast
qed

text \<open>A server that does what is documented.\<close>

definition demo_serve :: kit_server where
  "demo_serve before dec e enc erre form lg =
     (let (ctx, lg1) = before None lg
      in case dec ctx form lg1 of
           (Inl err, lg2) \<Rightarrow> Ret (erre ctx err (new_writer, lg2))
         | (Inr req, lg2) \<Rightarrow>
             (case e ctx req lg2 of
                (Ret (resp, None), lg3) \<Rightarrow>
                  (case enc ctx resp (new_writer, lg3) of
                     (None, w, lg4) \<Rightarrow> Ret (w, lg4)
                   | (Some err, w, lg4) \<Rightarrow> Ret (erre ctx err (w, lg4)))
              | (Ret (resp, Some err), lg3) \<Rightarrow> Ret (erre ctx err (new_writer, lg3))
              | (Panic m, lg3) \<Rightarrow> Panic m
              | (Hang, lg3) \<Rightarrow> Hang))"

lemma demo_serve_documented: "kit_documented demo_serve"
  by (simp add: kit_documented_def demo_serve_def)

definition demo_form :: "string \<Rightarrow> string \<Rightarrow> string \<Rightarrow> string" where
  "demo_form a b field = (if field = ''a'' then a else if field = ''b'' then b else '''')"

text \<open>
  Only the second number is checked: the error of the first is overwritten by that of the
  second, so a request whose first number does not parse is answered with status 200 and the
  second number for a sum; with a bad second number the answer is an error, also under status
  200.
\<close>

theorem sum_api_ignores_bad_first:
  assumes "kit_documented serve" and "snd (Atoi (form ''a'')) = Some Err_syntax"
  shows "\<exists>w lg'. NewHttpHandler serve quote json_string uuid (NewEndPointServer t NewService) ''/sum/'' form lg =
      Handled (Ret (w, lg')) \<and> hw_status w = 200 \<and>
      hw_body w = (case Atoi (form ''b'') of
        (b, None) \<Rightarrow> json_ack \<lparr>ack_Res = b\<rparr>
      | (b, Some err) \<Rightarrow> json_error json_string (atoi_error quote (form ''b'') err))"
proof -
  have "fst (Atoi (form ''a'')) = 0"
    using assms(2) by (auto simp: Atoi_def ParseInt_def Let_def split: if_splits sum.splits num_error.splits)
  then show ?thesis
    using handler_answers [OF assms(1), of form quote json_string uuid t lg]
      handler_refuses [OF assms(1), of form _ quote json_string uuid "NewEndPointServer t NewService" lg]
    by (cases "Atoi (form ''b'')"; cases "snd (Atoi (form ''b''))") auto
qed

theorem sum_api_ignores_bad_first_witness:
  "\<exists>w lg'. NewHttpHandler demo_serve id id ''u1'' (NewEndPointServer 2 NewService) ''/sum/'' (demo_form ''x1'' ''5'') [] =
      Handled (Ret (w, lg')) \<and> hw_body w = ''{\"res\":5}'' @ [CHR 0x0A]"
proof -
  have "snd (Atoi (demo_form ''x1'' ''5'' ''a'')) = Some Err_syntax"
    by (simp add: demo_form_def Atoi_def ParseInt_def digit_value_def)
  moreover have "Atoi (demo_form ''x1'' ''5'' ''b'') = (5, None)"
    by (simp add: demo_form_def Atoi_def ParseInt_def digit_value_def)
  moreover have "FormatInt 5 = ''5''" by (simp add: FormatInt_def Itoa.simps digit_char_def)
  ultimately show ?thesis
    using sum_api_ignores_bad_first [OF demo_serve_documented, of "demo_form ''x1'' ''5''" id id "''u1''" 2 "[]"]
    by (auto simp: json_ack_def)
qed

end
