(* ===== verification/Log_Tool.thy ===== *)
theory Log_Tool
  imports Go_Number
begin

text \<open>
  MicroService/go-kit/logtol/log.go: a logger that sorts its records into one rotating file per
  level and, in development, shows them on the console too. The logging library zap is a
  parameter: the numbers of its levels, its two standard configurations, whether \<open>Build\<close>
  succeeds, and what a tee of cores does with a record. A level has eight bits, and the
  code computes with levels in this width.
\<close>

type_synonym level = "8 word"

section \<open>Options\<close>

text \<open>Of the embedded \<open>zap.Config\<close> the code reads the output paths.\<close>

record log_options =
  LogFileDir :: string
  AppName :: string
  ErrorFileName :: string
  WarnFileName :: string
  InfoFileName :: string
  DebugFileName :: string
  Level :: level
  MaxSize :: int
  MaxBackups :: int
  MaxAge :: int
  Development :: bool
  OutputPaths :: "string list"
  ErrorOutputPaths :: "string list"

type_synonym mod_options = "log_options \<Rightarrow> log_options"

definition SetMaxSize :: "int \<Rightarrow> mod_options" where
  "SetMaxSize n opt = opt\<lparr>MaxSize := n\<rparr>"

definition SetMaxBackups :: "int \<Rightarrow> mod_options" where
  "SetMaxBackups n opt = opt\<lparr>MaxBackups := n\<rparr>"

definition SetMaxAge :: "int \<Rightarrow> mod_options" where
  "SetMaxAge n opt = opt\<lparr>MaxAge := n\<rparr>"

definition SetLogFileDir :: "string \<Rightarrow> mod_options" where
  "SetLogFileDir s opt = opt\<lparr>LogFileDir := s\<rparr>"

definition SetAppName :: "string \<Rightarrow> mod_options" where
  "SetAppName s opt = opt\<lparr>AppName := s\<rparr>"

definition SetLevel :: "level \<Rightarrow> mod_options" where
  "SetLevel v opt = opt\<lparr>Level := v\<rparr>"

definition SetErrorFileName :: "string \<Rightarrow> mod_options" where
  "SetErrorFileName s opt = opt\<lparr>ErrorFileName := s\<rparr>"

definition SetWarnFileName :: "string \<Rightarrow> mod_options" where
  "SetWarnFileName s opt = opt\<lparr>WarnFileName := s\<rparr>"

definition SetInfoFileName :: "string \<Rightarrow> mod_options" where
  "SetInfoFileName s opt = opt\<lparr>InfoFileName := s\<rparr>"

definition SetDebugFileName :: "string \<Rightarrow> mod_options" where
  "SetDebugFileName s opt = opt\<lparr>DebugFileName := s\<rparr>"

definition SetDevelopment :: "bool \<Rightarrow> mod_options" where
  "SetDevelopment b opt = opt\<lparr>Development := b\<rparr>"

section \<open>Where records go\<close>

record rotating_file =
  rf_Filename :: string
  rf_MaxSize :: int
  rf_MaxBackups :: int
  rf_MaxAge :: int
  rf_Compress :: bool
  rf_LocalTime :: bool

datatype sink = Log_file rotating_file | Console_out | Console_err

text \<open>The two functions that encode a time, and any other one.\<close>

datatype time_encoder = TimeEncoder | TimeUnixNano | Other_time

datatype encoder = Json_encoder time_encoder | Console_encoder time_encoder

record zap_config =
  zc_Level :: level
  zc_EncodeTime :: time_encoder
  zc_OutputPaths :: "string list"
  zc_ErrorOutputPaths :: "string list"

text \<open>A core has an encoder, a sink and a test that is given the level set and that of a record.\<close>

record core =
  core_encoder :: encoder
  core_sink :: sink
  core_enabled :: "level \<Rightarrow> level \<Rightarrow> bool"

record zap =
  DebugLevel :: level
  InfoLevel :: level
  WarnLevel :: level
  ErrorLevel :: level
  ProductionConfig :: zap_config
  DevelopmentConfig :: zap_config
  Build_error :: "zap_config \<Rightarrow> string option"
  Tee :: "core list \<Rightarrow> level \<Rightarrow> level \<Rightarrow> sink list"

record logger =
  lg_Opts :: log_options
  lg_zapConfig :: zap_config
  lg_cores :: "core list"
  lg_isInit :: bool

definition sp :: string where
  "sp = ''/''"

definition log_file :: "log_options \<Rightarrow> string \<Rightarrow> sink" where
  "log_file opt fN = Log_file \<lparr>rf_Filename = LogFileDir opt @ sp @ AppName opt @ ''-'' @ fN,
     rf_MaxSize = MaxSize opt, rf_MaxBackups = MaxBackups opt, rf_MaxAge = MaxAge opt,
     rf_Compress = True, rf_LocalTime = True\<rparr>"

text \<open>\<open>setSyncers\<close> sets the sinks for errors, warnings, information and debugging.\<close>

definition setSyncers :: "log_options \<Rightarrow> sink \<times> sink \<times> sink \<times> sink" where
  "setSyncers opt = (log_file opt (ErrorFileName opt), log_file opt (WarnFileName opt),
     log_file opt (InfoFileName opt), log_file opt (DebugFileName opt))"

definition priority :: "level \<Rightarrow> level \<Rightarrow> level \<Rightarrow> bool" where
  "priority own cur lvl \<longleftrightarrow> lvl = own \<and> sint (own - cur) > - 1"

definition cores :: "zap \<Rightarrow> log_options \<Rightarrow> zap_config \<Rightarrow> sink \<times> sink \<times> sink \<times> sink \<Rightarrow> core list" where
  "cores z opt cfg = (\<lambda>(errWS, warnWS, infoWS, debugWS).
     let fileEncoder = Json_encoder (zc_EncodeTime cfg); consoleEncoder = Console_encoder TimeEncoder;
         errPriority = priority (ErrorLevel z); warnPriority = priority (WarnLevel z);
         infoPriority = priority (InfoLevel z); debugPriority = priority (DebugLevel z);
         files = [\<lparr>core_encoder = fileEncoder, core_sink = errWS, core_enabled = errPriority\<rparr>,
           \<lparr>core_encoder = fileEncoder, core_sink = warnWS, core_enabled = warnPriority\<rparr>,
           \<lparr>core_encoder = fileEncoder, core_sink = infoWS, core_enabled = infoPriority\<rparr>,
           \<lparr>core_encoder = fileEncoder, core_sink = debugWS, core_enabled = debugPriority\<rparr>]
     in if Development opt then
          files @ [\<lparr>core_encoder = consoleEncoder, core_sink = Console_err, core_enabled = errPriority\<rparr>,
            \<lparr>core_encoder = consoleEncoder, core_sink = Console_out, core_enabled = warnPriority\<rparr>,
            \<lparr>core_encoder = consoleEncoder, core_sink = Console_out, core_enabled = infoPriority\<rparr>,
            \<lparr>core_encoder = consoleEncoder, core_sink = Console_out, core_enabled = debugPriority\<rparr>]
        else files)"

section \<open>Making a logger\<close>

definition default_options :: "zap \<Rightarrow> log_options" where
  "default_options z = \<lparr>LogFileDir = '''', AppName = ''app_log'', ErrorFileName = ''error.log'',
     WarnFileName = ''warn.log'', InfoFileName = ''info.log'', DebugFileName = ''debug.log'',
     Level = DebugLevel z, MaxSize = 100, MaxBackups = 60, MaxAge = 30, Development = False,
     OutputPaths = [], ErrorOutputPaths = []\<rparr>"

text \<open>
  \<open>cwd\<close> is the absolute path of the working directory. \<open>init\<close> is the part from \<open>setSyncers\<close> on;
  it panics if \<open>Build\<close> fails. The global logger that \<open>NewLogger\<close> replaces plays no role.
\<close>

definition zap_settings :: "zap \<Rightarrow> log_options \<Rightarrow> zap_config" where
  "zap_settings z opt =
     (let cfg = (if Development opt then (DevelopmentConfig z)\<lparr>zc_EncodeTime := TimeEncoder\<rparr>
                 else (ProductionConfig z)\<lparr>zc_EncodeTime := TimeUnixNano\<rparr>);
          cfg1 = (if OutputPaths opt = [] then cfg\<lparr>zc_OutputPaths := [''stdout'']\<rparr> else cfg);
          cfg2 = (if ErrorOutputPaths opt = [] then cfg1\<lparr>zc_OutputPaths := [''stderr'']\<rparr> else cfg1)
      in cfg2\<lparr>zc_Level := Level opt\<rparr>)"

definition logger_init :: "zap \<Rightarrow> logger \<Rightarrow> logger outcome" where
  "logger_init z l =
     (let ws = setSyncers (lg_Opts l)
      in case Build_error z (lg_zapConfig l) of
           Some e \<Rightarrow> Panic e
         | None \<Rightarrow> Ret (l\<lparr>lg_cores := cores z (lg_Opts l) (lg_zapConfig l) ws\<rparr>))"

definition NewLogger :: "zap \<Rightarrow> string \<Rightarrow> mod_options list \<Rightarrow> logger outcome" where
  "NewLogger z cwd mods =
     (let opts = fold (\<lambda>fn opt. fn opt) mods (default_options z);
          opts1 = (if LogFileDir opts = '''' then opts\<lparr>LogFileDir := cwd @ sp @ ''logs'' @ sp\<rparr> else opts);
          l = \<lparr>lg_Opts = opts1, lg_zapConfig = zap_settings z opts1, lg_cores = [], lg_isInit = False\<rparr>
      in bind_outcome (logger_init z l) (\<lambda>l1. Ret (l1\<lparr>lg_isInit := True\<rparr>)))"

text \<open>The time encoder for production: milliseconds, the division rounding towards zero.\<close>

definition timeUnixNano :: "int \<Rightarrow> int" where
  "timeUnixNano nanos = (if nanos < 0 then - (- nanos div 10 ^ 6) else nanos div 10 ^ 6)"

section \<open>Lemmas\<close>

text \<open>Documented of zap: the numbers of the levels, and that a tee writes to every enabled core.\<close>

definition zap_documented :: "zap \<Rightarrow> bool" where
  "zap_documented z \<longleftrightarrow> DebugLevel z = - 1 \<and> InfoLevel z = 0 \<and> WarnLevel z = 1 \<and> ErrorLevel z = 2 \<and>
     (\<forall>cs cur lvl. Tee z cs cur lvl = map core_sink (filter (\<lambda>c. core_enabled c cur lvl) cs))"

text \<open>An eight-bit subtraction that does not leave the range of the width.\<close>

lemma sint_8: "sint (w :: level) \<ge> - 128" "sint (w :: level) < 128"
  using sint_range_size [of w] by (simp_all add: word_size)

lemma priority_own:
  assumes "own \<in> {- 1, 0, 1, 2}"
  shows "priority own cur lvl \<longleftrightarrow> lvl = own \<and> sint own - 127 \<le> sint cur \<and> sint cur \<le> sint own"
proof -
  let ?d = "sint own - sint cur"
  have own: "- 1 \<le> sint own" "sint own \<le> 2" using assms by auto
  have s: "sint (own - cur) = signed_take_bit 7 ?d" by (simp add: sint_word_ariths)
  have "- 1 < signed_take_bit 7 ?d \<longleftrightarrow> 0 \<le> ?d \<and> ?d < 128"
  proof (cases "?d < 128")
    case True
    then have "signed_take_bit 7 ?d = ?d"
      by (intro signed_take_bit_int_eq_self) (use own sint_8 [of cur] in simp_all)
    with True show ?thesis by auto
  next
    case False
    have "take_bit (Suc 7) ?d = take_bit (Suc 7) (?d - 256)"
      using minus_mod_self2 [of ?d 256] by (simp only: take_bit_eq_mod) simp
    then have "signed_take_bit 7 ?d = signed_take_bit 7 (?d - 256)"
      by (simp only: signed_take_bit_eq_iff_take_bit_eq)
    also have "\<dots> = ?d - 256"
      by (intro signed_take_bit_int_eq_self) (use own sint_8 [of cur] False in simp_all)
    finally show ?thesis using False own sint_8 [of cur] by simp
  qed
  then show ?thesis by (auto simp: priority_def s)
qed

text \<open>The file that the records of a level are for, and where the console shows them.\<close>

definition file_for :: "log_options \<Rightarrow> level \<Rightarrow> string" where
  "file_for opt lvl = (if lvl = 2 then ErrorFileName opt else if lvl = 1 then WarnFileName opt
     else if lvl = 0 then InfoFileName opt else DebugFileName opt)"

definition console_for :: "level \<Rightarrow> sink" where
  "console_for lvl = (if lvl = 2 then Console_err else Console_out)"

lemma levels_distinct: "(- 1 :: level) \<noteq> 0" "(- 1 :: level) \<noteq> 1" "(- 1 :: level) \<noteq> 2"
  by simp_all

lemma cores_targets:
  assumes "zap_documented z"
  shows "Tee z (cores z opt cfg (setSyncers opt)) cur lvl =
    (if lvl \<in> {- 1, 0, 1, 2} \<and> sint lvl - 127 \<le> sint cur \<and> sint cur \<le> sint lvl
     then log_file opt (file_for opt lvl) # (if Development opt then [console_for lvl] else []) else [])"
proof -
  have z: "DebugLevel z = - 1" "InfoLevel z = 0" "WarnLevel z = 1" "ErrorLevel z = 2"
    and tee: "\<And>cs cur lvl. Tee z cs cur lvl = map core_sink (filter (\<lambda>c. core_enabled c cur lvl) cs)"
    using assms by (simp_all add: zap_documented_def)
  have p: "priority (- 1) c l \<longleftrightarrow> l = - 1 \<and> - 128 \<le> sint c \<and> sint c \<le> - 1"
    "priority 0 c l \<longleftrightarrow> l = 0 \<and> - 127 \<le> sint c \<and> sint c \<le> 0"
    "priority 1 c l \<longleftrightarrow> l = 1 \<and> - 126 \<le> sint c \<and> sint c \<le> 1"
    "priority 2 c l \<longleftrightarrow> l = 2 \<and> - 125 \<le> sint c \<and> sint c \<le> 2" for c l
    by (simp_all add: priority_own)
  consider "lvl = - 1" | "lvl = 0" | "lvl = 1" | "lvl = 2" | "lvl \<notin> {- 1, 0, 1, 2}" by blast
  then show ?thesis
    by cases (simp_all add: tee cores_def setSyncers_def z p file_for_def console_for_def Let_def)
qed

lemma NewLogger_Ret:
  assumes "NewLogger z cwd mods = Ret l"
  shows "lg_cores l = cores z (lg_Opts l) (lg_zapConfig l) (setSyncers (lg_Opts l))"
    and "zc_Level (lg_zapConfig l) = Level (fold (\<lambda>fn opt. fn opt) mods (default_options z))"
    and "lg_isInit l" and "LogFileDir (lg_Opts l) \<noteq> ''''"
  using assms by (auto simp: NewLogger_def logger_init_def zap_settings_def sp_def Let_def bind_outcome_Ret_iff
      split: option.splits if_splits)

text \<open>Without error paths the output paths are overwritten, whether they were given or not.\<close>

lemma output_paths_overwritten:
  "ErrorOutputPaths opt = [] \<Longrightarrow> zc_OutputPaths (zap_settings z opt) = [''stderr'']"
  by (simp add: zap_settings_def Let_def)

section \<open>Properties\<close>

text \<open>
  C27: Where a record goes: one of level debug, info, warn or error goes to the file of just its
  level, and in development to the console too, exactly when the level set is not above it and
  the eight-bit difference does not overflow, that is, when the level set is at most 127 below.
\<close>

theorem log_record_goes_to_its_file:
  assumes "zap_documented z" and "NewLogger z cwd mods = Ret l" and "lvl \<in> {- 1, 0, 1, 2}"
  shows "Tee z (lg_cores l) cur lvl =
    (if sint lvl - 127 \<le> sint cur \<and> sint cur \<le> sint lvl
     then log_file (lg_Opts l) (file_for (lg_Opts l) lvl) # (if Development (lg_Opts l) then [console_for lvl] else [])
     else [])"
  using assms(3) by (simp add: NewLogger_Ret(1) [OF assms(2)] cores_targets [OF assms(1)])

text \<open>zap as documented, with a level set by default.\<close>

definition demo_zap :: zap where
  "demo_zap = (let cfg = \<lparr>zc_Level = 0, zc_EncodeTime = Other_time, zc_OutputPaths = [''stderr''],
       zc_ErrorOutputPaths = [''stderr'']\<rparr>
     in \<lparr>DebugLevel = - 1, InfoLevel = 0, WarnLevel = 1, ErrorLevel = 2, ProductionConfig = cfg,
       DevelopmentConfig = cfg, Build_error = (\<lambda>c. None),
       Tee = (\<lambda>cs cur lvl. map core_sink (filter (\<lambda>c. core_enabled c cur lvl) cs))\<rparr>)"

lemma demo_zap_documented: "zap_documented demo_zap"
  by (simp add: demo_zap_def zap_documented_def Let_def)

lemma demo_logger: "\<exists>l. NewLogger demo_zap ''/srv'' [SetAppName ''go-kit'', SetDevelopment True, SetLevel 1] = Ret l \<and>
    lg_Opts l = (default_options demo_zap)\<lparr>AppName := ''go-kit'', Development := True, Level := 1,
      LogFileDir := ''/srv/logs/''\<rparr>"
  by (simp add: NewLogger_def logger_init_def demo_zap_def Let_def SetAppName_def SetDevelopment_def SetLevel_def
      default_options_def sp_def)

theorem log_record_goes_to_its_file_witness:
  "\<exists>l f. NewLogger demo_zap ''/srv'' [SetAppName ''go-kit'', SetDevelopment True, SetLevel 1] = Ret l \<and>
     Tee demo_zap (lg_cores l) 1 2 = [Log_file f, Console_err] \<and> rf_Filename f = ''/srv/logs//go-kit-error.log''"
proof -
  obtain l where l: "NewLogger demo_zap ''/srv'' [SetAppName ''go-kit'', SetDevelopment True, SetLevel 1] = Ret l"
    "lg_Opts l = (default_options demo_zap)\<lparr>AppName := ''go-kit'', Development := True, Level := 1,
      LogFileDir := ''/srv/logs/''\<rparr>" using demo_logger by blast
  have "(2 :: level) \<in> {- 1, 0, 1, 2}" by simp
  from log_record_goes_to_its_file [OF demo_zap_documented l(1) this, of 1] l show ?thesis
    by (simp add: log_file_def file_for_def console_for_def default_options_def sp_def)
qed

text \<open>
  Records of the levels above error, with which the program panics or exits, are written
  nowhere: each core takes one level only, and none takes these.
\<close>

theorem log_above_error_is_lost:
  assumes "zap_documented z" and "NewLogger z cwd mods = Ret l" and "2 < sint lvl"
  shows "Tee z (lg_cores l) cur lvl = []"
proof -
  have "lvl \<notin> {- 1, 0, 1, 2}" using assms(3) by auto
  then show ?thesis by (simp add: NewLogger_Ret(1) [OF assms(2)] cores_targets [OF assms(1)])
qed

theorem log_above_error_is_lost_witness:
  "\<exists>l. NewLogger demo_zap ''/srv'' [SetAppName ''go-kit'', SetDevelopment True, SetLevel 1] = Ret l \<and>
     Tee demo_zap (lg_cores l) 1 5 = []"
proof -
  obtain l where l: "NewLogger demo_zap ''/srv'' [SetAppName ''go-kit'', SetDevelopment True, SetLevel 1] = Ret l"
    using demo_logger by blast
  have "2 < sint (5 :: level)" by simp
  from log_above_error_is_lost [OF demo_zap_documented l this] l show ?thesis by blast
qed

end
