(* ===== verification/Kit_Program.thy ===== *)
theory Kit_Program
  imports Kit_Service Log_Tool
begin

text \<open>
  MicroService/go-kit/baseUse/main.go and utils/log.go: the program that serves the add service and
  logs with the logger of the log tool.
\<close>

definition NewLoggerServer :: "zap \<Rightarrow> string \<Rightarrow> logger outcome" where
  "NewLoggerServer z cwd = NewLogger z cwd [SetAppName ''go-kit'', SetDevelopment True, SetLevel (DebugLevel z)]"

text \<open>
  \<open>main\<close>: the logger, then the layers, then a server. The second component is what a request for
  a path and a form writes to the log.
\<close>

definition kit_main ::
  "zap \<Rightarrow> string \<Rightarrow> kit_server \<Rightarrow> (string \<Rightarrow> string) \<Rightarrow> (string \<Rightarrow> bytes) \<Rightarrow> int \<Rightarrow>
   (logger \<times> (string \<Rightarrow> string \<Rightarrow> (string \<Rightarrow> string) \<Rightarrow> log \<Rightarrow> (http_writer \<times> log) outcome mux_result)) outcome" where
  "kit_main z cwd serve quote json_string elapsed =
     bind_outcome (NewLoggerServer z cwd) (\<lambda>logger.
       let server = NewService;
           endpoints = NewEndPointServer elapsed server
       in Ret (logger, \<lambda>uuid. NewHttpHandler serve quote json_string uuid endpoints))"

text \<open>The level of a record, and where the logger writes it.\<close>

definition record_level :: "zap \<Rightarrow> log_record \<Rightarrow> level" where
  "record_level z r = (if rec_level r = ''debug'' then DebugLevel z else WarnLevel z)"

definition record_sinks :: "zap \<Rightarrow> logger \<Rightarrow> log_record \<Rightarrow> sink list" where
  "record_sinks z l r = Tee z (lg_cores l) (zc_Level (lg_zapConfig l)) (record_level z r)"

text \<open>The file of a level in the directory of the logs.\<close>

definition kit_file :: "string \<Rightarrow> string \<Rightarrow> sink" where
  "kit_file cwd nm = Log_file \<lparr>rf_Filename = cwd @ ''/logs//go-kit-'' @ nm, rf_MaxSize = 100, rf_MaxBackups = 60,
     rf_MaxAge = 30, rf_Compress = True, rf_LocalTime = True\<rparr>"

lemma NewLoggerServer_opts:
  assumes "NewLoggerServer z cwd = Ret l"
  shows "log_file (lg_Opts l) nm = kit_file cwd nm" "Development (lg_Opts l)"
    "zc_Level (lg_zapConfig l) = DebugLevel z" "DebugFileName (lg_Opts l) = ''debug.log''" "WarnFileName (lg_Opts l) = ''warn.log''"
  using assms by (auto simp: NewLoggerServer_def NewLogger_def logger_init_def default_options_def SetAppName_def
      SetDevelopment_def SetLevel_def log_file_def kit_file_def sp_def zap_settings_def Let_def bind_outcome_Ret_iff
      split: option.splits if_splits)

lemma record_goes:
  assumes "zap_documented z" and "NewLoggerServer z cwd = Ret l"
  shows "record_sinks z l r = [kit_file cwd (if rec_level r = ''debug'' then ''debug.log'' else ''warn.log''), Console_out]"
proof -
  have z: "DebugLevel z = - 1" "WarnLevel z = 1" using assms(1) by (simp_all add: zap_documented_def)
  note o = NewLoggerServer_opts [OF assms(2)]
  have c: "lg_cores l = cores z (lg_Opts l) (lg_zapConfig l) (setSyncers (lg_Opts l))"
    using assms(2) unfolding NewLoggerServer_def by (rule NewLogger_Ret)
  show ?thesis
    by (simp add: record_sinks_def record_level_def c cores_targets [OF assms(1)] o z file_for_def console_for_def)
qed

text \<open>
  C30: The whole program answers and logs: a request with two decimal numbers is answered with
  their sum, and the seven records it leaves, the last six under the identifier that the first
  one names, are all written to the file for debugging in the log directory and to the console.
\<close>

theorem kit_request_answered_and_logged:
  assumes "zap_documented z" and "kit_documented serve"
    and "kit_main z cwd serve quote json_string elapsed = Ret (logger, handler)"
    and "form ''a'' = FormatInt x" and "form ''b'' = FormatInt y"
    and "- (2 ^ 63) \<le> x" and "x < 2 ^ 63" and "- (2 ^ 63) \<le> y" and "y < 2 ^ 63"
  shows "\<exists>w r recs. handler uuid ''/sum/'' form [] = Handled (Ret (w, r # recs)) \<and> hw_status w = 200 \<and>
    hw_body w = json_ack \<lparr>ack_Res = word_of_int (x + y)\<rparr> \<and>
    rec_fields r = [(''UUID'', Log_text uuid)] \<and> traced (Some uuid) 6 recs \<and>
    map (record_sinks z logger) (r # recs) = replicate 7 [kit_file cwd ''debug.log'', Console_out]"
proof -
  have l: "NewLoggerServer z cwd = Ret logger"
    and h: "handler = (\<lambda>uuid. NewHttpHandler serve quote json_string uuid (NewEndPointServer elapsed NewService))"
    using assms(3) by (auto simp: kit_main_def bind_outcome_Ret_iff Let_def)
  obtain w r recs where R: "handler uuid ''/sum/'' form [] = Handled (Ret (w, r # recs))" "hw_status w = 200"
    "hw_body w = json_ack \<lparr>ack_Res = word_of_int (x + y)\<rparr>" "rec_level r = ''debug''"
    "rec_fields r = [(''UUID'', Log_text uuid)]" "traced (Some uuid) 6 recs"
    using sum_api_sum [OF assms(2,4-), of quote json_string uuid elapsed "[]"] unfolding h append_Nil by blast
  have "map (record_sinks z logger) (r # recs) = replicate 7 [kit_file cwd ''debug.log'', Console_out]"
  proof -
    have debug: "rec_level q = ''debug''" if "q \<in> set (r # recs)" for q
      using R(4,6) that by (auto simp: traced_def)
    have len: "length (r # recs) = 7" using R(6) by (simp add: traced_def)
    have "map (record_sinks z logger) (r # recs) = map (\<lambda>q. [kit_file cwd ''debug.log'', Console_out]) (r # recs)"
      by (rule map_cong [OF refl]) (simp only: record_goes [OF assms(1) l] debug if_True simp_thms)
    then show ?thesis by (simp only: map_replicate_const len)
  qed
  with R show ?thesis by blast
qed

theorem kit_request_answered_and_logged_witness:
  "\<exists>logger handler w recs. kit_main demo_zap ''/srv'' demo_serve id id 2 = Ret (logger, handler) \<and>
     handler ''u1'' ''/sum/'' (demo_form ''12'' ''-5'') [] = Handled (Ret (w, recs)) \<and> hw_body w = ''{\"res\":7}'' @ [CHR 0x0A] \<and>
     map (record_sinks demo_zap logger) recs = replicate 7 [kit_file ''/srv'' ''debug.log'', Console_out]"
proof -
  obtain logger handler where m: "kit_main demo_zap ''/srv'' demo_serve id id 2 = Ret (logger, handler)"
    by (simp add: kit_main_def NewLoggerServer_def NewLogger_def logger_init_def demo_zap_def Let_def)
  have f: "FormatInt 12 = ''12''" "FormatInt (- 5) = ''-5''" "FormatInt 7 = ''7''"
    by (simp_all add: FormatInt_def Itoa.simps digit_char_def)
  have "demo_form ''12'' ''-5'' ''a'' = FormatInt 12" "demo_form ''12'' ''-5'' ''b'' = FormatInt (- 5)"
    by (simp_all add: f demo_form_def)
  moreover have "- (2 ^ 63) \<le> (12 :: int)" "(12 :: int) < 2 ^ 63" "- (2 ^ 63) \<le> (- 5 :: int)" "(- 5 :: int) < 2 ^ 63"
    by simp_all
  ultimately have "\<exists>w r recs. handler ''u1'' ''/sum/'' (demo_form ''12'' ''-5'') [] = Handled (Ret (w, r # recs)) \<and>
      hw_body w = json_ack \<lparr>ack_Res = word_of_int (12 + - 5)\<rparr> \<and>
      map (record_sinks demo_zap logger) (r # recs) = replicate 7 [kit_file ''/srv'' ''debug.log'', Console_out]"
    using kit_request_answered_and_logged [OF demo_zap_documented demo_serve_documented m] by blast
  then
  obtain w r recs where "handler ''u1'' ''/sum/'' (demo_form ''12'' ''-5'') [] = Handled (Ret (w, r # recs))"
    "hw_body w = json_ack \<lparr>ack_Res = word_of_int (12 + - 5)\<rparr>"
    "map (record_sinks demo_zap logger) (r # recs) = replicate 7 [kit_file ''/srv'' ''debug.log'', Console_out]"
    by (elim exE conjE)
  moreover have "json_ack \<lparr>ack_Res = word_of_int (12 + - 5)\<rparr> = ''{\"res\":7}'' @ [CHR 0x0A]"
    using f(3) by (simp add: json_ack_def)
  ultimately show ?thesis using m by metis
qed

end
