(* ===== verification/Cert_Filters.thy ===== *)
theory Cert_Filters
  imports Prelude
begin

text \<open>
  Web/certificate/filters: certificates that are read from a Vault server (AutoDiscover.go), a
  loop that replaces a certificate while it is in use (AutoRotation.go), and a filter that
  checks a token (Provider_filters.go). The Vault client, the parser of key pairs and the TLS
  connection are parameters; the world is what they change. Slices are kept with the arrays
  they share, because the rotation writes into one.
\<close>

section \<open>Secrets\<close>

datatype vault_value = Vault_string string | Vault_other

type_synonym secret = "string \<Rightarrow> vault_value option"

text \<open>A client, and reading a path: an error, or a secret, which is nil if there is none.\<close>

record vault_config =
  vc_Address :: string
  vc_Token :: "string option"

record ('cl, 'w) vault =
  DefaultConfig :: vault_config
  api_NewClient :: "vault_config \<Rightarrow> 'w \<Rightarrow> (string + 'cl) \<times> 'w"
  Logical_Read :: "'cl \<Rightarrow> string \<Rightarrow> 'w \<Rightarrow> (string + secret option) \<times> 'w"

text \<open>The type assertion \<open>v.(string)\<close> with its flag, and without it.\<close>

definition string_ok :: "vault_value option \<Rightarrow> string option" where
  "string_ok v = (case v of Some (Vault_string s) \<Rightarrow> Some s | _ \<Rightarrow> None)"

definition string_or_panic :: "vault_value option \<Rightarrow> string outcome" where
  "string_or_panic v = (case string_ok v of Some s \<Rightarrow> Ret s | None \<Rightarrow> Panic ''interface conversion'')"

text \<open>\<open>Read\<close> followed by a look at the secret, which panics if it is nil.\<close>

definition read_secret ::
  "('cl, 'w) vault \<Rightarrow> 'cl \<Rightarrow> string \<Rightarrow> (secret \<Rightarrow> (string + 'a) outcome) \<Rightarrow> 'w \<Rightarrow> (string + 'a) outcome \<times> 'w" where
  "read_secret V client path f w =
     (case Logical_Read V client path w of
        (Inl e, w1) \<Rightarrow> (Ret (Inl e), w1)
      | (Inr None, w1) \<Rightarrow> (Panic nil_pointer, w1)
      | (Inr (Some s), w1) \<Rightarrow> (f s, w1))"

definition vault_address :: string where
  "vault_address = ''http://127.0.0.1:8200''"

definition getVaultClient :: "('cl, 'w) vault \<Rightarrow> string \<Rightarrow> 'w \<Rightarrow> (string + 'cl) \<times> 'w" where
  "getVaultClient V token w =
     (let cfg = (DefaultConfig V)\<lparr>vc_Address := vault_address\<rparr>
      in if token = '''' then (Inl ''VAULT_TOKEN environment variable not set'', w)
         else api_NewClient V (cfg\<lparr>vc_Token := Some token\<rparr>) w)"

definition getVaultCert ::
  "('cl, 'w) vault \<Rightarrow> (string \<Rightarrow> string \<Rightarrow> string + 'ct) \<Rightarrow> 'cl \<Rightarrow> string \<Rightarrow> 'w \<Rightarrow> (string + 'ct) outcome \<times> 'w" where
  "getVaultCert V X509KeyPair client certPath =
     read_secret V client certPath (\<lambda>secret.
       case string_ok (secret ''certificate'') of
         None \<Rightarrow> Ret (Inl ''invalid certificate format'')
       | Some certPEM \<Rightarrow>
           (case string_ok (secret ''private_key'') of
              None \<Rightarrow> Ret (Inl ''invalid private key format'')
            | Some keyPEM \<Rightarrow> Ret (X509KeyPair certPEM keyPEM)))"

definition getVaultKey :: "('cl, 'w) vault \<Rightarrow> 'cl \<Rightarrow> string \<Rightarrow> 'w \<Rightarrow> (string + bytes) outcome \<times> 'w" where
  "getVaultKey V client keyPath =
     read_secret V client keyPath (\<lambda>secret.
       case string_ok (secret ''private_key'') of
         None \<Rightarrow> Ret (Inl ''invalid private key format'')
       | Some key \<Rightarrow> Ret (Inr key))"

definition getVaultCACert :: "('cl, 'w) vault \<Rightarrow> 'cl \<Rightarrow> string \<Rightarrow> 'w \<Rightarrow> (string + bytes) outcome \<times> 'w" where
  "getVaultCACert V client caPath =
     read_secret V client caPath (\<lambda>secret.
       case string_ok (secret ''certificate'') of
         None \<Rightarrow> Ret (Inl ''invalid CA certificate format'')
       | Some caCert \<Rightarrow> Ret (Inr caCert))"

text \<open>
  \<open>AutoDiscover\<close>: \<open>os.Exit\<close> and \<open>log.Fatal\<close> end the program, here with a panic. \<open>tls_Dial\<close> is given
  the certificate and the CA; what is printed and what is sent are lists.
\<close>

datatype 'ct printed = Printed_cert 'ct | Printed_key bytes

definition orFatal :: "(string + 'a) outcome \<times> 'w \<Rightarrow> ('a \<Rightarrow> 'w \<Rightarrow> 'b outcome \<times> 'w) \<Rightarrow> 'b outcome \<times> 'w" where
  "orFatal c f = bind_run c (\<lambda>r w. case r of Inl e \<Rightarrow> (Panic e, w) | Inr x \<Rightarrow> f x w)"

definition AutoDiscover ::
  "('cl, 'w) vault \<Rightarrow> string \<Rightarrow> (string \<Rightarrow> string \<Rightarrow> string + 'ct) \<Rightarrow>
   (string \<Rightarrow> 'ct \<Rightarrow> bytes \<Rightarrow> 'w \<Rightarrow> (string + 'conn) \<times> 'w) \<Rightarrow> ('conn \<Rightarrow> bytes \<Rightarrow> 'w \<Rightarrow> 'w) \<Rightarrow> ('conn \<Rightarrow> 'w \<Rightarrow> 'w) \<Rightarrow>
   'w \<Rightarrow> 'ct printed list outcome \<times> 'w" where
  "AutoDiscover V token X509KeyPair tls_Dial conn_Write conn_Close w =
     (case getVaultClient V token w of
        (Inl e, w1) \<Rightarrow> (Panic (''Failed to create Vault client: '' @ e), w1)
      | (Inr vaultClient, w1) \<Rightarrow>
          orFatal (getVaultCert V X509KeyPair vaultClient ''path/to/cert'' w1) (\<lambda>cert w2.
          orFatal (getVaultKey V vaultClient ''path/to/key'' w2) (\<lambda>key w3.
          orFatal (getVaultCACert V vaultClient ''path/to/ca'' w3) (\<lambda>caCert w4.
            case tls_Dial ''example.com:443'' cert caCert w4 of
              (Inl e, w5) \<Rightarrow> (Panic e, w5)
            | (Inr conn, w5) \<Rightarrow>
                (Ret [Printed_cert cert, Printed_key key],
                 conn_Close conn (conn_Write conn (''hello, world'' @ [CHR 0x0A]) w5))))))"

section \<open>Rotation\<close>

text \<open>A slice of byte slices: an array in the memory, a length, and a capacity.\<close>

record slice =
  sl_ref :: nat
  sl_len :: nat
  sl_cap :: nat

type_synonym array_mem = "nat \<Rightarrow> bytes list"

definition slice_elems :: "array_mem \<Rightarrow> slice \<Rightarrow> bytes list" where
  "slice_elems M s = take (sl_len s) (M (sl_ref s))"

definition slice_ok :: "array_mem \<Rightarrow> slice \<Rightarrow> bool" where
  "slice_ok M s \<longleftrightarrow> sl_len s \<le> sl_cap s \<and> sl_cap s \<le> length (M (sl_ref s))"

text \<open>
  \<open>append(s[:0], xs...)\<close>: into the array of \<open>s\<close> if its capacity is large enough, else into the new
  array \<open>fresh\<close> with some spare room.
\<close>

definition append_at_0 :: "nat \<Rightarrow> bytes list \<Rightarrow> slice \<Rightarrow> bytes list \<Rightarrow> array_mem \<Rightarrow> slice \<times> array_mem" where
  "append_at_0 fresh spare s xs M =
     (if length xs \<le> sl_cap s
      then (s\<lparr>sl_len := length xs\<rparr>, M(sl_ref s := xs @ drop (length xs) (M (sl_ref s))))
      else (\<lparr>sl_ref = fresh, sl_len = length xs, sl_cap = length (xs @ spare)\<rparr>, M(fresh := xs @ spare)))"

record 'k tls_cert =
  Certificate :: slice
  PrivateKey :: 'k

text \<open>A parsed certificate: its chain and its key.\<close>

definition getNewCertFromVault ::
  "('cl, 'w) vault \<Rightarrow> (string \<Rightarrow> string \<Rightarrow> string + bytes list \<times> 'k) \<Rightarrow> 'w \<Rightarrow> (string + bytes list \<times> 'k) outcome \<times> 'w" where
  "getNewCertFromVault V X509KeyPair w =
     (case api_NewClient V ((DefaultConfig V)\<lparr>vc_Address := vault_address\<rparr>) w of
        (Inl e, w1) \<Rightarrow> (Ret (Inl e), w1)
      | (Inr vaultClient, w1) \<Rightarrow>
          read_secret V vaultClient ''path/to/new/cert'' (\<lambda>secret.
            bind_outcome (string_or_panic (secret ''cert'')) (\<lambda>certPEM.
            bind_outcome (string_or_panic (secret ''key'')) (\<lambda>keyPEM.
              Ret (X509KeyPair certPEM keyPEM)))) w1)"

definition rotateCert ::
  "('w \<Rightarrow> (string + bytes list \<times> 'k) outcome \<times> 'w) \<Rightarrow> nat \<Rightarrow> bytes list \<Rightarrow> 'k tls_cert \<times> array_mem \<times> 'w \<Rightarrow>
   string option outcome \<times> 'k tls_cert \<times> array_mem \<times> 'w" where
  "rotateCert getNewCert fresh spare = (\<lambda>(cert, M, w).
     case getNewCert w of
       (Panic m, w1) \<Rightarrow> (Panic m, cert, M, w1)
     | (Hang, w1) \<Rightarrow> (Hang, cert, M, w1)
     | (Ret (Inl e), w1) \<Rightarrow> (Ret (Some e), cert, M, w1)
     | (Ret (Inr (chain, key)), w1) \<Rightarrow>
         let (s, M1) = append_at_0 fresh spare (Certificate cert) chain M
         in (Ret None, \<lparr>Certificate = s, PrivateKey = key\<rparr>, M1, w1))"

text \<open>The loop sleeps and rotates until a rotation fails; it may never end.\<close>

partial_function (option) autoRotateCert :: "('s \<Rightarrow> string option outcome \<times> 's) \<Rightarrow> 's \<Rightarrow> (string outcome \<times> 's) option" where
  "autoRotateCert rot s =
     (case rot s of
        (Ret None, s1) \<Rightarrow> autoRotateCert rot s1
      | (Ret (Some e), s1) \<Rightarrow> Some (Ret e, s1)
      | (Panic m, s1) \<Rightarrow> Some (Panic m, s1)
      | (Hang, s1) \<Rightarrow> Some (Hang, s1))"

section \<open>Tokens\<close>

text \<open>\<open>attachments\<close> gives the attachment of an invocation under a key, or the default; a result is an error or a value.\<close>

definition TokenKey :: string where
  "TokenKey = ''token''"

definition authenticate :: "string \<Rightarrow> bool" where
  "authenticate token \<longleftrightarrow> True"

definition TokenFilter_Invoke ::
  "(string \<Rightarrow> string \<Rightarrow> string) \<Rightarrow> 'e \<Rightarrow> ('w \<Rightarrow> ('e + 'r) \<times> 'w) \<Rightarrow> 'w \<Rightarrow> ('e + 'r) \<times> 'w" where
  "TokenFilter_Invoke attachments ErrDestroyedInvoker invoke w =
     (let token = attachments TokenKey ''''
      in if token = '''' then (Inl ErrDestroyedInvoker, w)
         else if \<not> authenticate token then (Inl ErrDestroyedInvoker, w)
         else invoke w)"

section \<open>Lemmas\<close>

text \<open>The state after a number of rotations, and how the loop ends.\<close>

definition after_rotations :: "('s \<Rightarrow> string option outcome \<times> 's) \<Rightarrow> nat \<Rightarrow> 's \<Rightarrow> 's" where
  "after_rotations rot n s = ((\<lambda>s. snd (rot s)) ^^ n) s"

definition stopped :: "string option outcome \<Rightarrow> string outcome" where
  "stopped r = (case r of Ret (Some e) \<Rightarrow> Ret e | Panic m \<Rightarrow> Panic m | _ \<Rightarrow> Hang)"

lemma after_Suc: "after_rotations rot (Suc n) s = after_rotations rot n (snd (rot s))"
  unfolding after_rotations_def by (simp only: funpow_Suc_right o_apply)

lemma auto_stops:
  "(\<And>k. k < n \<Longrightarrow> fst (rot (after_rotations rot k s)) = Ret None) \<Longrightarrow> rot (after_rotations rot n s) = (r, s') \<Longrightarrow>
    r \<noteq> Ret None \<Longrightarrow> autoRotateCert rot s = Some (stopped r, s')"
proof (induction n arbitrary: s)
  case 0
  then show ?case
    by (subst autoRotateCert.simps)
      (auto simp: after_rotations_def stopped_def split: outcome.split option.split)
next
  case (Suc n)
  have "fst (rot s) = Ret None" using Suc.prems(1) [of 0] by (simp add: after_rotations_def)
  then obtain s1 where s1: "rot s = (Ret None, s1)" by (metis prod.collapse)
  have "autoRotateCert rot s1 = Some (stopped r, s')"
  proof (rule Suc.IH)
    fix k
    assume "k < n"
    then show "fst (rot (after_rotations rot k s1)) = Ret None"
      using Suc.prems(1) [of "Suc k"] s1 by (simp add: after_Suc)
  qed (use Suc.prems(2,3) s1 in \<open>simp_all add: after_Suc\<close>)
  then show ?case by (subst autoRotateCert.simps) (simp add: s1)
qed

lemma auto_ends_only_on_failure:
  "autoRotateCert rot s = Some y \<Longrightarrow> \<exists>n. fst (rot (after_rotations rot n s)) \<noteq> Ret None"
proof (induction rule: autoRotateCert.raw_induct [rotated, consumes 1])
  fix f :: "('a \<Rightarrow> string option outcome \<times> 'a) \<Rightarrow> 'a \<Rightarrow> (string outcome \<times> 'a) option"
    and rot :: "'a \<Rightarrow> string option outcome \<times> 'a" and s y
  assume IH: "\<And>rot s y. f rot s = Some y \<Longrightarrow> \<exists>n. fst (rot (after_rotations rot n s)) \<noteq> Ret None"
    and y: "(case rot s of (Ret None, s1) \<Rightarrow> f rot s1 | (Ret (Some e), s1) \<Rightarrow> Some (Ret e, s1)
      | (Panic m, s1) \<Rightarrow> Some (Panic m, s1) | (Hang, s1) \<Rightarrow> Some (Hang, s1)) = Some y"
  show "\<exists>n. fst (rot (after_rotations rot n s)) \<noteq> Ret None"
  proof (cases "fst (rot s) = Ret None")
    case True
    then obtain s1 where s1: "rot s = (Ret None, s1)" by (metis prod.collapse)
    with y have "f rot s1 = Some y" by simp
    from IH [OF this] obtain n where "fst (rot (after_rotations rot n s1)) \<noteq> Ret None" by blast
    then show ?thesis using s1 by (intro exI [of _ "Suc n"]) (simp add: after_Suc)
  next
    case False
    then show ?thesis by (intro exI [of _ 0]) (simp add: after_rotations_def)
  qed
qed

lemma append_elems:
  assumes "slice_ok M s" and "append_at_0 fresh spare s xs M = (s', M')"
  shows "slice_elems M' s' = xs \<and> slice_ok M' s'"
  using assms by (auto simp: append_at_0_def slice_elems_def slice_ok_def split: if_splits)

lemma append_old:
  assumes "slice_ok M s" and "append_at_0 fresh spare s xs M = (s', M')" and "length xs \<le> sl_cap s"
  shows "slice_elems M' s = take (sl_len s) (xs @ drop (length xs) (M (sl_ref s)))"
  using assms by (auto simp: append_at_0_def slice_elems_def)

lemma rotateCert_Ret:
  assumes "rotateCert getNewCert fresh spare (c, M, w) = (Ret None, c', M', w')"
  shows "\<exists>chain key. getNewCert w = (Ret (Inr (chain, key)), w') \<and> PrivateKey c' = key \<and>
    append_at_0 fresh spare (Certificate c) chain M = (Certificate c', M')"
  using assms by (auto simp: rotateCert_def Let_def split: prod.splits outcome.splits sum.splits)

lemma orFatal_Ret:
  "orFatal c f = (Ret y, w') \<longleftrightarrow> (\<exists>x w1. c = (Ret (Inr x), w1) \<and> f x w1 = (Ret y, w'))"
proof
  assume "orFatal c f = (Ret y, w')"
  then obtain r w1 where r: "c = (Ret r, w1)" "(case r of Inl e \<Rightarrow> (Panic e, w1) | Inr x \<Rightarrow> f x w1) = (Ret y, w')"
    unfolding orFatal_def bind_run_Ret_iff by blast
  then show "\<exists>x w1. c = (Ret (Inr x), w1) \<and> f x w1 = (Ret y, w')" by (cases r) auto
qed (auto simp: orFatal_def)

text \<open>What \<open>AutoDiscover\<close> prints when it runs to its end: the private key is in it.\<close>

lemma AutoDiscover_prints_key:
  assumes "AutoDiscover V token X509KeyPair tls_Dial conn_Write conn_Close w = (Ret out, w')"
  shows "\<exists>cert client key w2 w3. out = [Printed_cert cert, Printed_key key] \<and>
    getVaultKey V client ''path/to/key'' w2 = (Ret (Inr key), w3)"
proof (cases "getVaultClient V token w")
  case (Pair r w1)
  show ?thesis
  proof (cases r)
    case (Inl e)
    with assms Pair show ?thesis by (simp add: AutoDiscover_def)
  next
    case (Inr client)
    with Pair have g: "getVaultClient V token w = (Inr client, w1)" by simp
    from assms obtain cert w2 key w3 ca w4 where k: "getVaultKey V client ''path/to/key'' w2 = (Ret (Inr key), w3)"
      and d: "(case tls_Dial ''example.com:443'' cert ca w4 of (Inl e, w5) \<Rightarrow> (Panic e, w5)
        | (Inr conn, w5) \<Rightarrow> (Ret [Printed_cert cert, Printed_key key],
            conn_Close conn (conn_Write conn (''hello, world'' @ [CHR 0x0A]) w5))) = (Ret out, w')"
      unfolding AutoDiscover_def g prod.case sum.case orFatal_Ret by blast
    from d have "out = [Printed_cert cert, Printed_key key]" by (auto split: prod.splits sum.splits)
    with k show ?thesis by blast
  qed
qed

section \<open>Properties\<close>

text \<open>
  Rotating a certificate: if no error is returned, the certificate is the pair that Vault
  gave, in the array it had or in a new one; if an error is returned or the rotation panics, the
  certificate and the memory are as before.
\<close>

theorem rotateCert_installs:
  assumes "slice_ok M (Certificate c)" and "rotateCert getNewCert fresh spare (c, M, w) = (r, c', M', w')"
  shows "(if r = Ret None
      then slice_ok M' (Certificate c') \<and>
        fst (getNewCert w) = Ret (Inr (slice_elems M' (Certificate c'), PrivateKey c'))
      else c' = c \<and> M' = M)"
proof (cases "r = Ret None")
  case True
  with assms(2) have "rotateCert getNewCert fresh spare (c, M, w) = (Ret None, c', M', w')" by simp
  from rotateCert_Ret [OF this] append_elems [OF assms(1)] True show ?thesis by fastforce
next
  case False
  with assms(2) show ?thesis
    by (auto simp: rotateCert_def Let_def split: prod.splits outcome.splits sum.splits)
qed

text \<open>A certificate with a chain of two, in an array that has room for just these.\<close>

definition demo_slice :: slice where
  "demo_slice = \<lparr>sl_ref = 0, sl_len = 2, sl_cap = 2\<rparr>"

definition demo_cert :: "nat tls_cert" where
  "demo_cert = \<lparr>Certificate = demo_slice, PrivateKey = 1\<rparr>"

definition demo_mem :: array_mem where
  "demo_mem = (\<lambda>r. if r = 0 then [''leaf1'', ''ca1''] else [])"

definition demo_new :: "unit \<Rightarrow> (string + bytes list \<times> nat) outcome \<times> unit" where
  "demo_new w = (Ret (Inr ([''leaf2'', ''ca2''], 2)), w)"

lemma demo_slice_ok: "slice_ok demo_mem (Certificate demo_cert)"
  by (simp add: slice_ok_def demo_mem_def demo_cert_def demo_slice_def)

theorem rotateCert_installs_witness:
  "\<exists>c' M' w'. rotateCert demo_new 1 [] (demo_cert, demo_mem, ()) = (Ret None, c', M', w') \<and>
     slice_elems M' (Certificate c') = [''leaf2'', ''ca2''] \<and> PrivateKey c' = 2"
proof -
  obtain r c' M' w' where d: "rotateCert demo_new 1 [] (demo_cert, demo_mem, ()) = (r, c', M', w')"
    by (metis prod.collapse)
  moreover have "r = Ret None" using d by (simp add: rotateCert_def demo_new_def Let_def split: prod.splits)
  ultimately show ?thesis
    using rotateCert_installs [OF demo_slice_ok d] by (auto simp: demo_new_def)
qed



text \<open>
  The loop that rotates certificates runs as long as every rotation succeeds: it returns
  just when one fails, at the first that does, with its error.
\<close>

theorem rotation_stops_at_first_failure:
  "(autoRotateCert rot s = None \<longleftrightarrow> (\<forall>k. fst (rot (after_rotations rot k s)) = Ret None)) \<and>
   (\<forall>n r s'. (\<forall>k<n. fst (rot (after_rotations rot k s)) = Ret None) \<and> rot (after_rotations rot n s) = (r, s') \<and>
      r \<noteq> Ret None \<longrightarrow> autoRotateCert rot s = Some (stopped r, s'))"
proof -
  have "\<forall>k. fst (rot (after_rotations rot k s)) = Ret None" if "autoRotateCert rot s = None"
  proof (rule ccontr)
    assume "\<not> ?thesis"
    then obtain n where n: "fst (rot (after_rotations rot n s)) \<noteq> Ret None"
      "\<forall>k<n. fst (rot (after_rotations rot k s)) = Ret None"
      using exists_least_iff [of "\<lambda>n. fst (rot (after_rotations rot n s)) \<noteq> Ret None"] by blast
    obtain r s' where "rot (after_rotations rot n s) = (r, s')" by fastforce
    with auto_stops [of n rot s r s'] n that show False by simp
  qed
  moreover have "autoRotateCert rot s = Some (stopped r, s')"
    if "(\<forall>k<n. fst (rot (after_rotations rot k s)) = Ret None) \<and> rot (after_rotations rot n s) = (r, s') \<and> r \<noteq> Ret None"
    for n r s' using auto_stops [of n rot s r s'] that by simp
  moreover have "autoRotateCert rot s = None" if "\<forall>k. fst (rot (after_rotations rot k s)) = Ret None"
    using auto_ends_only_on_failure [of rot s] that by (cases "autoRotateCert rot s") auto
  ultimately show ?thesis by (intro conjI iffI allI impI) simp_all
qed

text \<open>Two rotations succeed, the third fails.\<close>

theorem rotation_stops_at_first_failure_witness:
  "autoRotateCert (\<lambda>n :: nat. (if n < 2 then Ret None else Ret (Some ''sealed''), Suc n)) 0 = Some (Ret ''sealed'', 3)"
proof -
  let ?rot = "\<lambda>n :: nat. (if n < 2 then Ret None else Ret (Some ''sealed''), Suc n)"
  have a: "after_rotations ?rot n 0 = n" for n
    by (induction n) (simp_all add: after_rotations_def)
  have "(\<forall>k<2. fst (?rot (after_rotations ?rot k 0)) = Ret None) \<and> ?rot (after_rotations ?rot 2 0) = (Ret (Some ''sealed''), 3) \<and>
      Ret (Some ''sealed'') \<noteq> Ret None"
    by (simp add: a)
  with rotation_stops_at_first_failure [of ?rot 0] have "autoRotateCert ?rot 0 = Some (stopped (Ret (Some ''sealed'')), 3)"
    by blast
  then show ?thesis by (simp add: stopped_def)
qed

text \<open>
  A path that Vault does not have ends the program: a secret that is not there is nil, and
  each of the four readers looks into it.
\<close>

theorem missing_secret_panics:
  assumes "Logical_Read V cl path w = (Inr None, w1)"
    and "api_NewClient V ((DefaultConfig V)\<lparr>vc_Address := vault_address\<rparr>) v = (Inr cl', v1)"
    and "Logical_Read V cl' ''path/to/new/cert'' v1 = (Inr None, v2)"
  shows "getVaultCert V kp cl path w = (Panic nil_pointer, w1) \<and> getVaultKey V cl path w = (Panic nil_pointer, w1) \<and>
    getVaultCACert V cl path w = (Panic nil_pointer, w1) \<and> getNewCertFromVault V kp' v = (Panic nil_pointer, v2)"
  using assms by (simp add: getVaultCert_def getVaultKey_def getVaultCACert_def getNewCertFromVault_def read_secret_def)

definition empty_vault :: "(nat, nat) vault" where
  "empty_vault = \<lparr>DefaultConfig = \<lparr>vc_Address = [], vc_Token = None\<rparr>, api_NewClient = (\<lambda>c w. (Inr 0, w)),
     Logical_Read = (\<lambda>cl path w. (Inr None, Suc w))\<rparr>"

theorem missing_secret_panics_witness:
  "getVaultKey empty_vault 0 ''path/to/key'' 4 = (Panic nil_pointer, 5) \<and>
   getNewCertFromVault empty_vault (\<lambda>c k. Inr ([c], k)) 0 = (Panic nil_pointer, 1)"
  using missing_secret_panics [of empty_vault 0 "''path/to/key''" 4 5 0 0 0 1 "\<lambda>c k. Inr ([c], k)" "\<lambda>c k. Inr ([c], k)"]
  by (simp add: empty_vault_def)

text \<open>The filter lets every invocation pass that carries a token, whatever the token is.\<close>

theorem TokenFilter_accepts_any_token:
  "TokenFilter_Invoke attachments err invoke w =
     (if attachments ''token'' '''' = '''' then (Inl err, w) else invoke w)"
  by (simp add: TokenFilter_Invoke_def authenticate_def TokenKey_def)

end
