(* ===== verification/Spec2Isabelle.thy ===== *)
theory Spec2Isabelle
  imports Cache_Cluster Group_Concurrent Rpc_Conn Rpc_Debug Rpc_Old Rpc_Demo Kit_Program Cert_Filters
begin

text \<open>
  A model of the programs of this repository that carry logic of their own: the distributed
  cache MyCache, the RPC framework MyRPC, the logger and the layered service of
  MicroService/go-kit, and the certificate filters of Web. They are written in Go; each
  definition follows one function, method, type or block of the code and has its name.

  The cache (MyCache). A node keeps groups of cached values. \<open>Group.Get\<close> looks into the shared
  cache, which is an LRU list with a byte limit under a mutex; on a miss it loads the value
  through singleflight, so that concurrent callers of a key share one load, from the peer that
  the consistent-hash ring gives for the key, over HTTP, or from the local source.

    \<^item> Lru: lru/lru.go. The elements of \<open>container/list\<close> are pointers into a store, \<open>ll\<close> and \<open>cache\<close>
      hold the same pointers. The abstraction \<open>recency\<close> is the list of key and value from the
      most recent on; each operation refines the one on that list.
    \<^item> Byte_Cache: byteview.go and cache.go. Cache_Interface is the contract of a keyed cache,
      a locale that both caches interpret.
    \<^item> Singleflight: singleflight/singleflight.go, as a machine of any number of goroutines whose
      steps are the blocks between two operations on the mutex or the wait group.
    \<^item> Consistent_Hash: consistenthash/consistenthash.go. Ring_Interface is what the pool relies on.
    \<^item> Cache_Group: mycache.go and peers.go; Http_Pool: http.go; Cache_Main: main/main.go.
    \<^item> Group_Concurrent: \<open>Group.Get\<close> as any number of goroutines run it, with the steps of Singleflight
      and those of \<open>load\<close>; the sequential \<open>Get\<close> of Cache_Group is one of its runs.
    \<^item> Cache_Cluster: nodes that ask each other over HTTP, and the processes that main/main.go starts;
      Ring_Addresses evaluates where the ring puts the three addresses of that program.
    \<^item> Go_Strings and Go_Url: what the code uses of strings, strconv and net/url.

  The RPC framework (MyRPC). A server finds methods by reflection, accepts connections, reads
  requests in order and handles each with two goroutines and a timeout. A client numbers its
  calls, keeps the pending ones in a map, and a goroutine completes them with the responses.
  Servers tell a registry that they are alive; a client of many servers asks it for the list.

    \<^item> Rpc_Service: service.go; Rpc_Server: server.go; Rpc_Client: client.go, a machine of callers
      and a reader; Rpc_System: both ends and the connection as one machine of all goroutines.
    \<^item> Rpc_Conn: everything that runs on one connection of the server, the loop, the handlers, the
      mutex around a response and the wait group; Rpc_Debug: debug.go, the page with its template.
    \<^item> Rpc_Codec: codec/gob.go with Go's buffered writer; Rpc_Connect: listeners, the HTTP
      handshake and dialling, from server.go and client.go.
    \<^item> Rpc_Registry: registry/registry.go; Rpc_Discovery: xclient/discovery.go and
      xclient/discovery_my.go, with their contract in Discovery_Interface; Rpc_Xclient:
      xclient/xclient.go, of which Broadcast, a machine of goroutines, is in Rpc_Broadcast.
    \<^item> Rpc_Main, Rpc_Program and Rpc_Old: main/main.go, the service Foo and the programs that call
      it, the present one and the two older ones, with their goroutines and the lines they print.
    \<^item> Rpc_Demo: demo/main/main.go, goroutines that watch until they are told to stop, as a machine
      in which time passes.
    \<^item> Go_Number: decimal numbers and durations as strconv and time print and read them.

  Log_Tool is MicroService/go-kit/logtol/log.go; Kit_Service the directories service, end_point
  and transport of MicroService/go-kit/baseUse, and Kit_Program its main.go and utils;
  Cert_Filters is Web/certificate/filters. Prelude has the names of Go's integers, the outcome of a
  call that may panic or never return (\<open>Ret\<close>, \<open>Panic\<close>, \<open>Hang\<close>), and generic lemmas.
\<close>

text \<open>
  How the code is represented. An \<open>int\<close> or \<open>uint64\<close> that the code computes with is a 64-bit word, a
  level of the logger an 8-bit word, so sums wrap around as they do in Go. Durations and times
  are whole numbers of nanoseconds. Strings and byte slices are lists of bytes; where writing to
  a shared array matters (byteview.go, AutoRotation.go) the arrays are in an explicit memory.
  Errors are the left side of a sum, or an option where there is no other result. A method that
  holds its mutex from the first line to the last is one step. Go's \<open>select\<close>, the scheduler, the
  network and the peers choose freely: they are the cases of the step relations, and a theorem
  about a machine holds of every state it can reach.

  What the lemmas show. Machine states what a state machine must satisfy for its invariant to
  hold in every state it reaches, for it to end, and for it to simulate another one; every
  machine of the development is an instance. For the LRU list an invariant (pointers, map and
  size agree) that every operation keeps, and the refinement of the list of recency. For singleflight an invariant on
  who is where, from which follow exclusion, agreement and progress. For the RPC client an
  invariant that ties numbers, pending calls, the reader and the callers together; for the
  handler of a request one that lists its states with what has been sent; for the system one
  that says of each message on the connection which call it belongs to; for a connection one that
  relates what was read, handled and written to the loop that serves requests one by one; for
  concurrent Gets one that says where the value in each cache and each open call comes from. The
  programs are shown to print right answers, to answer from the database and to end. The caches, the ring and
  the discoveries are shown to keep their contracts, and their users rest on these only.

  Bounds. Positive limits of the LRU list make the eviction loop end; with a negative one it
  does not, which is a theorem, so the loop is a partial function. So are the loop that rotates
  certificates and the loop of a connection. A node passes a request
  on at most once, so the depth of requests between nodes may be anything from one on, and what
  would happen beyond it, a parameter, plays no part. The runs of the programs and of a connection are bounded by measures. Sizes are assumed below \<open>2 ^ 63\<close>; a client makes
  fewer than \<open>2 ^ 64\<close> calls, as the numbers repeat after that. The buffer of the codec has 4096
  bytes, as in Go.

  Parameters, with their documented behaviour as hypotheses where a property needs it: the
  source of a group, the protobuf messages and HTTP between nodes; gob's encoding and the
  connections; random numbers, clocks and the order in which Go walks a map; the logging
  library zap; go-kit's HTTP server; Vault, TLS and dubbo-go.

  Not modelled: generated code (MyCache/mycachepb); the programs of Web, which configure dubbo-go
  or an HTTPS server and have no logic of their own; opening sockets and serving HTTP, and the
  sleeps by which programs give a server time to start; log output, except where the log is what
  the code is for (Log_Tool, Kit_Service); the C programs of WDT, the notes and the configuration
  files of the other directories.
\<close>

end
